(* ===== verification/Prelude.thy ===== *)
theory Prelude
  imports Main "HOL-Library.Word" "HOL-Library.List_Lexorder" "HOL-Library.Product_Lexorder"
begin

text \<open>
  Shared vocabulary of the development: bytes and machine integers, the result type, the
  parts of the Rust standard library the code leans on (saturating and checked arithmetic,
  big and little endian encodings, \<open>partition_point\<close>, \<open>dedup_by\<close>, \<open>strip_prefix\<close>) and the
  lemmas about them that several components use.

  Conventions. A \<open>u8\<close> is an \<open>8 word\<close>. A \<open>u64\<close>, \<open>u32\<close> or \<open>usize\<close> that only measures
  something is a \<open>nat\<close>, with the arithmetic of the code (saturating, checked, wrapping)
  written out by the operations below; where bits matter (the rolling hash, the CBOR header
  byte) it is a word. Times are \<open>int\<close>. Byte strings and identifiers are ordered
  lexicographically by unsigned byte, as \<open>Ord\<close> on slices and arrays is.
\<close>

unbundle bit_operations_syntax

named_theorems result_simps \<open>case analysis of results\<close>
named_theorems layout_simps \<open>lengths of the byte layouts\<close>

type_synonym u8 = "8 word"
type_synonym bytes = "8 word list"

section \<open>Results\<close>

text \<open>\<open>Result<T, E>\<close> is \<open>'e + 'a\<close>: \<open>Inl\<close> is \<open>Err\<close>, \<open>Inr\<close> is \<open>Ok\<close>; \<open>and_then\<close> is the \<open>?\<close> operator.\<close>

definition and_then :: "'e + 'a \<Rightarrow> ('a \<Rightarrow> 'e + 'b) \<Rightarrow> 'e + 'b" where
  "and_then r f = (case r of Inl e \<Rightarrow> Inl e | Inr x \<Rightarrow> f x)"

definition map_err :: "('e \<Rightarrow> 'f) \<Rightarrow> 'e + 'a \<Rightarrow> 'f + 'a" where
  "map_err h r = (case r of Inl e \<Rightarrow> Inl (h e) | Inr x \<Rightarrow> Inr x)"

definition ok_or :: "'e \<Rightarrow> 'a option \<Rightarrow> 'e + 'a" where
  "ok_or e x = (case x of None \<Rightarrow> Inl e | Some y \<Rightarrow> Inr y)"

definition is_ok :: "'e + 'a \<Rightarrow> bool" where
  "is_ok r = (case r of Inl _ \<Rightarrow> False | Inr _ \<Rightarrow> True)"

lemma and_then_simps [simp]:
  "and_then (Inl e) f = Inl e"
  "and_then (Inr x) f = f x"
  by (simp_all add: and_then_def)

lemma and_then_Inr_iff [result_simps]:
  "and_then r f = Inr y \<longleftrightarrow> (\<exists>x. r = Inr x \<and> f x = Inr y)"
  by (cases r) auto

lemma map_err_simps [simp]:
  "map_err h (Inl e) = Inl (h e)"
  "map_err h (Inr x) = Inr x"
  by (simp_all add: map_err_def)

lemma map_err_Inr_iff [result_simps]: "map_err h r = Inr x \<longleftrightarrow> r = Inr x"
  by (cases r) auto

lemma ok_or_simps [simp]:
  "ok_or e None = Inl e"
  "ok_or e (Some x) = Inr x"
  by (simp_all add: ok_or_def)

lemma ok_or_Inr_iff [result_simps]: "ok_or e x = Inr y \<longleftrightarrow> x = Some y"
  by (cases x) auto

lemma is_ok_simps [simp]: "\<not> is_ok (Inl e)" "is_ok (Inr x)"
  by (simp_all add: is_ok_def)

lemma is_ok_iff [result_simps]: "is_ok r \<longleftrightarrow> (\<exists>x. r = Inr x)"
  by (cases r) auto

section \<open>64-bit arithmetic on naturals\<close>

definition u64_max :: nat where "u64_max = 2 ^ 64 - 1"

definition wrap64 :: "nat \<Rightarrow> nat" where "wrap64 n = n mod 2 ^ 64"

text \<open>A plain \<open>+\<close> of \<open>u64\<close> values, as it wraps in a release build.\<close>

definition add64 :: "nat \<Rightarrow> nat \<Rightarrow> nat" where "add64 a b = (a + b) mod 2 ^ 64"

definition sat_add64 :: "nat \<Rightarrow> nat \<Rightarrow> nat" where "sat_add64 a b = min (a + b) u64_max"

definition sat_mul64 :: "nat \<Rightarrow> nat \<Rightarrow> nat" where "sat_mul64 a b = min (a * b) u64_max"

definition checked_mul64 :: "nat \<Rightarrow> nat \<Rightarrow> nat option" where
  "checked_mul64 a b = (if a * b \<le> u64_max then Some (a * b) else None)"

definition checked_sub :: "nat \<Rightarrow> nat \<Rightarrow> nat option" where
  "checked_sub a b = (if b \<le> a then Some (a - b) else None)"

definition div_ceil :: "nat \<Rightarrow> nat \<Rightarrow> nat" where
  "div_ceil a b = (if a mod b = 0 then a div b else a div b + 1)"

lemma wrap64_small [simp]: "n \<le> u64_max \<Longrightarrow> wrap64 n = n"
  by (simp add: wrap64_def u64_max_def)

lemma add64_small: "a + b < 2 ^ 64 \<Longrightarrow> add64 a b = a + b" by (simp add: add64_def)

lemma sat_add64_small: "a + b \<le> u64_max \<Longrightarrow> sat_add64 a b = a + b"
  by (simp add: sat_add64_def)

lemma sat_add64_le [simp]: "sat_add64 a b \<le> u64_max"
  by (simp add: sat_add64_def)

lemma checked_sub_Some [result_simps]: "checked_sub a b = Some c \<longleftrightarrow> b \<le> a \<and> c = a - b"
  by (auto simp: checked_sub_def)

lemma checked_mul64_Some [result_simps]:
  "checked_mul64 a b = Some c \<longleftrightarrow> c = a * b \<and> a * b \<le> u64_max"
  by (auto simp: checked_mul64_def)

lemma div_ceil_mult_ge: "0 < b \<Longrightarrow> a \<le> b * div_ceil a b"
proof -
  assume b: "0 < b"
  define q r where "q = a div b" and "r = a mod b"
  have "a = b * q + r" "r < b" using b by (simp_all add: q_def r_def)
  then show ?thesis by (simp add: div_ceil_def flip: q_def r_def)
qed

lemma div_ceil_pos: "0 < b \<Longrightarrow> 0 < a \<Longrightarrow> 0 < div_ceil a b"
  using div_ceil_mult_ge [of b a] by (cases "div_ceil a b") auto

lemma div_ceil_mult_less: "0 < b \<Longrightarrow> 0 < a \<Longrightarrow> b * (div_ceil a b - 1) < a"
proof -
  assume b: "0 < b" and a: "0 < a"
  define q r where "q = a div b" and "r = a mod b"
  have eq: "a = b * q + r" "r < b" using b by (simp_all add: q_def r_def)
  show ?thesis
  proof (cases "r = 0")
    case True
    with eq a obtain q' where "q = Suc q'" by (cases q) auto
    with True eq b show ?thesis by (simp add: div_ceil_def flip: q_def r_def)
  next
    case False
    with eq show ?thesis by (simp add: div_ceil_def flip: q_def r_def)
  qed
qed

section \<open>Fixed-width integer encodings\<close>

primrec be_bytes :: "nat \<Rightarrow> nat \<Rightarrow> bytes" where
  "be_bytes 0 v = []"
| "be_bytes (Suc n) v = be_bytes n (v div 256) @ [of_nat v]"

definition of_be :: "bytes \<Rightarrow> nat" where
  "of_be bs = foldl (\<lambda>acc b. acc * 256 + unat b) 0 bs"

primrec le_bytes :: "nat \<Rightarrow> nat \<Rightarrow> bytes" where
  "le_bytes 0 v = []"
| "le_bytes (Suc n) v = of_nat v # le_bytes n (v div 256)"

primrec of_le :: "bytes \<Rightarrow> nat" where
  "of_le [] = 0"
| "of_le (b # bs) = unat b + 256 * of_le bs"

lemma length_be_bytes [simp, layout_simps]: "length (be_bytes n v) = n"
  by (induction n arbitrary: v) auto

lemma length_le_bytes [simp, layout_simps]: "length (le_bytes n v) = n"
  by (induction n arbitrary: v) auto

lemma unat_u8_of_nat [simp]: "unat (of_nat v :: u8) = v mod 256"
  by (simp add: unat_of_nat)

lemma unat_u8_less [simp]: "unat (b :: u8) < 256"
  using unsigned_less [of b] by simp

lemma of_be_append1: "of_be (bs @ [b]) = of_be bs * 256 + unat b"
  by (simp add: of_be_def)

lemma of_be_be_bytes: "v < 256 ^ n \<Longrightarrow> of_be (be_bytes n v) = v"
proof (induction n arbitrary: v)
  case 0
  then show ?case by (simp add: of_be_def)
next
  case (Suc n)
  then have "v div 256 < 256 ^ n" by (simp add: less_mult_imp_div_less mult.commute)
  with Suc.IH have "of_be (be_bytes n (v div 256)) = v div 256" by blast
  then show ?case by (simp add: of_be_append1)
qed

lemma of_le_le_bytes: "v < 256 ^ n \<Longrightarrow> of_le (le_bytes n v) = v"
proof (induction n arbitrary: v)
  case 0
  then show ?case by simp
next
  case (Suc n)
  then have "v div 256 < 256 ^ n" by (simp add: less_mult_imp_div_less mult.commute)
  with Suc.IH have "of_le (le_bytes n (v div 256)) = v div 256" by blast
  then show ?case by simp
qed

lemma of_le_less: "of_le bs < 256 ^ length bs"
proof (induction bs)
  case Nil
  then show ?case by simp
next
  case (Cons b bs)
  have "unat b < 256" by simp
  moreover have "256 * of_le bs + 256 \<le> 256 * 256 ^ length bs"
    using Cons by (metis Suc_leI mult_Suc_right add.commute mult_le_mono2)
  ultimately have "unat b + 256 * of_le bs < 256 * 256 ^ length bs" by linarith
  then show ?case by simp
qed

lemma of_be_less: "of_be bs < 256 ^ length bs"
proof (induction bs rule: rev_induct)
  case Nil
  then show ?case by (simp add: of_be_def)
next
  case (snoc b bs)
  have "unat b < 256" by simp
  moreover have "256 * of_be bs + 256 \<le> 256 * 256 ^ length bs"
    using snoc by (metis Suc_leI mult_Suc_right add.commute mult_le_mono2)
  ultimately have "of_be bs * 256 + unat b < 256 * 256 ^ length bs" by linarith
  then show ?case by (simp add: of_be_append1)
qed

lemma u8_256 [simp]: "256 * (x :: u8) = 0"
proof -
  have "(256 :: u8) = 0" by simp
  then show ?thesis by (simp only: mult_zero_left)
qed

lemma unat_div_256 [simp]: "unat (b :: u8) div 256 = 0"
  using unat_u8_less [of b] by simp

lemma be_bytes_of_be: "be_bytes (length bs) (of_be bs) = bs"
  by (induction bs rule: rev_induct) (simp_all add: of_be_append1 mult.commute [of "of_nat (of_be _)"])

lemma le_bytes_of_le: "le_bytes (length bs) (of_le bs) = bs"
  by (induction bs) simp_all

section \<open>Slices\<close>

definition slice :: "nat \<Rightarrow> nat \<Rightarrow> 'a list \<Rightarrow> 'a list" where
  \<comment> \<open>\<open>xs[from..to]\<close>, in range\<close>
  "slice from to xs = take (to - from) (drop from xs)"

definition get_slice :: "nat \<Rightarrow> nat \<Rightarrow> 'a list \<Rightarrow> 'a list option" where
  \<comment> \<open>\<open>xs.get(from..to)\<close>: \<open>None\<close> when the range is reversed or out of range\<close>
  "get_slice from to xs = (if from \<le> to \<and> to \<le> length xs then Some (slice from to xs) else None)"

text \<open>No Rust allocation is longer than \<open>isize::MAX\<close> bytes (64-bit targets).\<close>

definition addressable :: "bytes \<Rightarrow> bool" where
  "addressable bs \<longleftrightarrow> length bs < 2 ^ 63"

lemma length_slice: "to \<le> length xs \<Longrightarrow> length (slice from to xs) = to - from"
  by (simp add: slice_def)

lemma slice_append_mid: "slice (length a) (length a + length b) (a @ b @ c) = b"
  by (simp add: slice_def)

lemma get_slice_append_mid: "get_slice (length a) (length a + length b) (a @ b @ c) = Some b"
  by (simp add: get_slice_def slice_append_mid)

definition at_pos :: "'a list \<Rightarrow> nat \<Rightarrow> 'a list \<Rightarrow> bool" where
  \<comment> \<open>the bytes \<open>x\<close> stand at position \<open>pos\<close>\<close>
  "at_pos data pos x \<longleftrightarrow> (\<exists>rest. drop pos data = x @ rest)"

lemma at_pos_Nil [simp]: "at_pos data pos []"
  by (simp add: at_pos_def)

lemma at_pos_append [simp]:
  "at_pos data pos (x @ y) \<longleftrightarrow> at_pos data pos x \<and> at_pos data (pos + length x) y"
proof
  assume "at_pos data pos (x @ y)"
  then obtain r where r: "drop pos data = x @ y @ r" by (auto simp: at_pos_def)
  have "drop (pos + length x) data = y @ r"
    using arg_cong [OF r, of "drop (length x)"] by (simp add: add.commute)
  with r show "at_pos data pos x \<and> at_pos data (pos + length x) y" by (auto simp: at_pos_def)
next
  assume "at_pos data pos x \<and> at_pos data (pos + length x) y"
  then obtain r r' where r: "drop pos data = x @ r" "drop (pos + length x) data = y @ r'"
    by (auto simp: at_pos_def)
  have "drop (pos + length x) data = r"
    using arg_cong [OF r(1), of "drop (length x)"] by (simp add: add.commute)
  with r show "at_pos data pos (x @ y)" by (auto simp: at_pos_def)
qed

lemma at_pos_Cons:
  "at_pos data pos (b # x) \<longleftrightarrow> pos < length data \<and> data ! pos = b \<and> at_pos data (Suc pos) x"
proof -
  have one: "at_pos data pos [b] \<longleftrightarrow> pos < length data \<and> data ! pos = b"
    by (cases "pos < length data") (auto simp: at_pos_def simp flip: Cons_nth_drop_Suc)
  show ?thesis using at_pos_append [of data pos "[b]" x] by (simp add: one)
qed

lemma at_pos_bound: "at_pos data pos x \<Longrightarrow> pos \<le> length data \<Longrightarrow> pos + length x \<le> length data"
  by (auto simp: at_pos_def dest: arg_cong [of _ _ length])

lemma at_pos_slice: "at_pos data pos x \<Longrightarrow> slice pos (pos + length x) data = x"
  by (auto simp: at_pos_def slice_def)

lemma at_pos_of_slice: "pos + n \<le> length data \<Longrightarrow> at_pos data pos (slice pos (pos + n) data)"
  unfolding at_pos_def slice_def by (metis add_diff_cancel_left' append_take_drop_id)

lemma at_pos_all: "at_pos data 0 x \<Longrightarrow> length x = length data \<Longrightarrow> x = data"
  by (auto simp: at_pos_def)

section \<open>Searching and deduplicating\<close>

definition partition_point :: "('a \<Rightarrow> bool) \<Rightarrow> 'a list \<Rightarrow> nat" where
  "partition_point P xs = length (takeWhile P xs)"

definition partitioned :: "('a \<Rightarrow> bool) \<Rightarrow> 'a list \<Rightarrow> bool" where
  "partitioned P xs \<longleftrightarrow> (\<forall>i j. i \<le> j \<longrightarrow> j < length xs \<longrightarrow> P (xs ! j) \<longrightarrow> P (xs ! i))"

text \<open>
  \<open>slice::partition_point\<close> promises this index on a list the predicate partitions, which is
  how every caller in the code uses it (the lists are sorted): everything before the index
  satisfies the predicate, nothing from it on does.
\<close>

lemma partition_point_le: "partition_point P xs \<le> length xs"
  by (simp add: partition_point_def length_takeWhile_le)

lemma partition_point_before: "i < partition_point P xs \<Longrightarrow> P (xs ! i)"
  unfolding partition_point_def by (metis nth_mem set_takeWhileD takeWhile_nth)

lemma partition_point_at: "partition_point P xs < length xs \<Longrightarrow> \<not> P (xs ! partition_point P xs)"
  unfolding partition_point_def by (rule nth_length_takeWhile)

lemma partition_point_from:
  "partitioned P xs \<Longrightarrow> partition_point P xs \<le> i \<Longrightarrow> i < length xs \<Longrightarrow> \<not> P (xs ! i)"
  using partition_point_at [of P xs] by (auto simp: partitioned_def)

lemma partition_point_unique:
  assumes "\<And>i. i < k \<Longrightarrow> P (xs ! i)" "k \<le> length xs" "k < length xs \<Longrightarrow> \<not> P (xs ! k)"
  shows "partition_point P xs = k"
proof (rule linorder_cases [of "partition_point P xs" k])
  assume less: "partition_point P xs < k"
  then have "\<not> P (xs ! partition_point P xs)"
    using assms(2) partition_point_at [of P xs] by simp
  with assms(1) [OF less] show ?thesis by simp
next
  assume "k < partition_point P xs"
  then show ?thesis
    using partition_point_before [of k P xs] assms(3) partition_point_le [of P xs] by simp
qed

text \<open>\<open>Vec::dedup_by\<close>: an element is dropped when it is the same as the one kept last.\<close>

fun dedup_from :: "('a \<Rightarrow> 'a \<Rightarrow> bool) \<Rightarrow> 'a \<Rightarrow> 'a list \<Rightarrow> 'a list" where
  "dedup_from same x [] = [x]"
| "dedup_from same x (y # ys) =
     (if same y x then dedup_from same x ys else x # dedup_from same y ys)"

fun dedup_by :: "('a \<Rightarrow> 'a \<Rightarrow> bool) \<Rightarrow> 'a list \<Rightarrow> 'a list" where
  "dedup_by same [] = []"
| "dedup_by same (x # xs) = dedup_from same x xs"

lemma dedup_from_not_Nil [simp]: "dedup_from same x xs \<noteq> []"
  by (induction same x xs rule: dedup_from.induct) auto

lemma hd_dedup_from [simp]: "hd (dedup_from same x xs) = x"
  by (induction same x xs rule: dedup_from.induct) auto

lemma set_dedup_from: "set (dedup_from same x xs) \<subseteq> insert x (set xs)"
  by (induction same x xs rule: dedup_from.induct) auto

lemma length_dedup_from: "length (dedup_from same x xs) \<le> Suc (length xs)"
  by (induction same x xs rule: dedup_from.induct) auto

lemma length_dedup_by: "length (dedup_by same xs) \<le> length xs"
  using length_dedup_from by (cases xs) simp_all

lemma set_dedup_by: "set (dedup_by same xs) \<subseteq> set xs"
proof (cases xs)
  case Nil
  then show ?thesis by simp
next
  case (Cons y ys)
  then show ?thesis using set_dedup_from [of same y ys] by simp
qed

text \<open>Deduplicating a list sorted by \<open>f\<close> on equal \<open>f\<close> makes it strictly sorted and loses no key.\<close>

lemma dedup_from_key:
  assumes "sorted (map f (x # xs))"
  shows "sorted_wrt (<) (map f (dedup_from (\<lambda>later earlier. f later = f earlier) x xs))
    \<and> f ` set (dedup_from (\<lambda>later earlier. f later = f earlier) x xs) = f ` set (x # xs)"
  using assms
proof (induction xs arbitrary: x)
  case Nil
  then show ?case by simp
next
  case (Cons y ys)
  let ?d = "dedup_from (\<lambda>later earlier. f later = f earlier)"
  show ?case
  proof (cases "f y = f x")
    case True
    from Cons.prems have "sorted (map f (x # ys))" by simp
    with Cons.IH [of x] True show ?thesis by auto
  next
    case False
    from Cons.prems have s: "sorted (map f (y # ys))" by simp
    note IH = Cons.IH [OF s]
    from Cons.prems False have lt: "f x < f z" if "z \<in> set (y # ys)" for z
      using that by (auto intro: le_neq_trans order_less_le_trans)
    have "set (?d y ys) \<subseteq> set (y # ys)" using set_dedup_from by fastforce
    then have lt': "\<forall>w \<in> f ` set (?d y ys). f x < w" using lt by blast
    have "?d x (y # ys) = x # ?d y ys" using False by simp
    with IH lt' show ?thesis
      by (simp del: dedup_from.simps)
  qed
qed

lemma dedup_by_key_strict:
  "sorted (map f xs) \<Longrightarrow>
   sorted_wrt (<) (map f (dedup_by (\<lambda>later earlier. f later = f earlier) xs))"
  using dedup_from_key [of f] by (cases xs) simp_all

lemma dedup_by_key_image:
  "sorted (map f xs) \<Longrightarrow>
   f ` set (dedup_by (\<lambda>later earlier. f later = f earlier) xs) = f ` set xs"
  using dedup_from_key [of f] by (cases xs) simp_all

section \<open>Strings\<close>

definition strip_prefix :: "'a list \<Rightarrow> 'a list \<Rightarrow> 'a list option" where
  "strip_prefix p s = (if take (length p) s = p then Some (drop (length p) s) else None)"

definition strip_suffix :: "'a list \<Rightarrow> 'a list \<Rightarrow> 'a list option" where
  "strip_suffix p s = map_option rev (strip_prefix (rev p) (rev s))"

definition starts_with :: "'a list \<Rightarrow> 'a list \<Rightarrow> bool" where
  "starts_with s p \<longleftrightarrow> take (length p) s = p"

definition ends_with :: "'a list \<Rightarrow> 'a list \<Rightarrow> bool" where
  "ends_with s p \<longleftrightarrow> starts_with (rev s) (rev p)"

lemma strip_prefix_Some [result_simps]: "strip_prefix p s = Some r \<longleftrightarrow> s = p @ r"
  by (auto simp: strip_prefix_def) (metis append_take_drop_id)

lemma strip_suffix_Some [result_simps]: "strip_suffix p s = Some r \<longleftrightarrow> s = r @ p"
proof
  assume "strip_suffix p s = Some r"
  then have "strip_prefix (rev p) (rev s) = Some (rev r)"
    by (auto simp: strip_suffix_def)
  then have "rev s = rev p @ rev r" by (simp only: strip_prefix_Some)
  then show "s = r @ p" by (metis rev_append rev_rev_ident)
next
  assume "s = r @ p"
  then have "strip_prefix (rev p) (rev s) = Some (rev r)" by (simp add: strip_prefix_Some)
  then show "strip_suffix p s = Some r" by (simp add: strip_suffix_def)
qed

lemma starts_with_iff: "starts_with s p \<longleftrightarrow> (\<exists>r. s = p @ r)"
  by (auto simp: starts_with_def) (metis append_take_drop_id)

lemma ends_with_iff: "ends_with s p \<longleftrightarrow> (\<exists>r. s = r @ p)"
  by (auto simp: ends_with_def starts_with_iff) (metis rev_append rev_rev_ident)

end
