(* ===== verification/Externals.thy ===== *)
theory Externals
  imports Prelude
begin

text \<open>
  The third-party code the program calls (the crates \<open>hex\<close>, \<open>blake3\<close>, \<open>chacha20poly1305\<close>,
  \<open>argon2\<close> and \<open>zstd\<close>) is not part of the repository, so it is a parameter of the model: a
  record of functions that the definitions using it take as their first argument. What the
  program relies on is stated by the predicates \<open>hex_ok\<close>, \<open>hash_ok\<close>, \<open>aead_ok\<close>
  and \<open>zstd_ok\<close>, each of them documented behaviour of the crate. \<open>demo_ext\<close> is a
  concrete record that satisfies all of them; it exists for the witnesses only.
\<close>

record ext =
  hex_encode :: "bytes \<Rightarrow> string"
  hex_decode :: "string \<Rightarrow> bytes option"
  blake3 :: "bytes \<Rightarrow> bytes"
  keyed_hash :: "bytes \<Rightarrow> bytes \<Rightarrow> bytes"
  derive_key :: "string \<Rightarrow> bytes \<Rightarrow> bytes"
  argon2id :: "nat \<Rightarrow> nat \<Rightarrow> nat \<Rightarrow> bytes \<Rightarrow> bytes \<Rightarrow> bytes option"
    \<comment> \<open>memory, passes, lanes, password, salt; \<open>None\<close> when the parameters are refused\<close>
  aead_encrypt :: "bytes \<Rightarrow> bytes \<Rightarrow> bytes \<Rightarrow> bytes \<Rightarrow> bytes option"
    \<comment> \<open>key, nonce, associated data, message\<close>
  aead_decrypt :: "bytes \<Rightarrow> bytes \<Rightarrow> bytes \<Rightarrow> bytes \<Rightarrow> bytes option"
  zstd_encode :: "bytes \<Rightarrow> bytes option"
  zstd_take :: "nat \<Rightarrow> bytes \<Rightarrow> bytes option"
    \<comment> \<open>\<open>read_to_end\<close> on the decoder of these bytes, cut off after so many bytes of output\<close>

definition hex_chars :: "char set" where
  "hex_chars = set ''0123456789abcdef''"

definition hex_ok :: "ext \<Rightarrow> bool" where
  "hex_ok ext \<longleftrightarrow>
     (\<forall>bs. hex_decode ext (hex_encode ext bs) = Some bs
        \<and> set (hex_encode ext bs) \<subseteq> hex_chars
        \<and> length (hex_encode ext bs) = 2 * length bs)"

definition hash_ok :: "ext \<Rightarrow> bool" where
  "hash_ok ext \<longleftrightarrow>
     (\<forall>m. length (blake3 ext m) = 32) \<and> (\<forall>k m. length (keyed_hash ext k m) = 32)
     \<and> (\<forall>c m. length (derive_key ext c m) = 32)"

definition aead_ok :: "ext \<Rightarrow> bool" where
  "aead_ok ext \<longleftrightarrow>
     (\<forall>k n a m c. aead_encrypt ext k n a m = Some c \<longrightarrow>
        aead_decrypt ext k n a c = Some m \<and> length c = length m + 16)"

definition zstd_ok :: "ext \<Rightarrow> bool" where
  "zstd_ok ext \<longleftrightarrow>
     (\<forall>m c n. zstd_encode ext m = Some c \<longrightarrow> zstd_take ext n c = Some (take n m))
     \<and> (\<forall>n c m. zstd_take ext n c = Some m \<longrightarrow> length m \<le> n)"

section \<open>A concrete instance for witnesses\<close>

definition nibble_char :: "nat \<Rightarrow> char" where
  "nibble_char n = ''0123456789abcdef'' ! n"

definition hex_of :: "bytes \<Rightarrow> string" where
  "hex_of bs = concat (map (\<lambda>b. [nibble_char (unat b div 16), nibble_char (unat b mod 16)]) bs)"

definition nibble_of :: "char \<Rightarrow> nat option" where
  "nibble_of c =
     (if c \<in> set ''0123456789'' then Some (of_char c - 48)
      else if c \<in> set ''abcdef'' then Some (of_char c - 87)
      else if c \<in> set ''ABCDEF'' then Some (of_char c - 55) else None)"

fun hex_to :: "string \<Rightarrow> bytes option" where
  "hex_to [] = Some []"
| "hex_to [c] = None"
| "hex_to (c # d # cs) =
     (case (nibble_of c, nibble_of d, hex_to cs) of
        (Some h, Some l, Some bs) \<Rightarrow> Some (of_nat (16 * h + l) # bs)
      | _ \<Rightarrow> None)"

definition pad32 :: "bytes \<Rightarrow> bytes" where
  "pad32 bs = take 32 (bs @ replicate 32 0)"

definition demo_tag :: "bytes \<Rightarrow> bytes \<Rightarrow> bytes" where
  "demo_tag k a = take 16 (a @ k @ replicate 16 0)"

definition demo_ext :: ext where
  "demo_ext = \<lparr> hex_encode = hex_of, hex_decode = hex_to, blake3 = pad32,
     keyed_hash = (\<lambda>k m. pad32 m), derive_key = (\<lambda>c k. pad32 (map (\<lambda>ch. of_nat (of_char ch)) c)),
     argon2id = (\<lambda>m t p pw salt. Some (pad32 (pw @ salt))),
     aead_encrypt = (\<lambda>k n a m. Some (m @ demo_tag k a)),
     aead_decrypt = (\<lambda>k n a c. if length c < 16 then None
        else if drop (length c - 16) c = demo_tag k a then Some (take (length c - 16) c) else None),
     zstd_encode = Some, zstd_take = (\<lambda>n c. Some (take n c)) \<rparr>"

lemma demo_ext_simps [simp]:
  "hex_encode demo_ext = hex_of" "hex_decode demo_ext = hex_to"
  "blake3 demo_ext = pad32" "keyed_hash demo_ext k = pad32"
  "zstd_encode demo_ext = Some" "zstd_take demo_ext n c = Some (take n c)"
  by (simp_all add: demo_ext_def fun_eq_iff)

lemma nibble_of_char: "n < 16 \<Longrightarrow> nibble_of (nibble_char n) = Some n"
proof -
  assume n: "n < 16"
  have "list_all (\<lambda>n. nibble_of (nibble_char n) = Some n) [0..<16]"
    by code_simp
  with n show ?thesis by (simp add: list_all_iff)
qed

lemma nibble_char_hex: "n < 16 \<Longrightarrow> nibble_char n \<in> hex_chars"
  unfolding nibble_char_def hex_chars_def by (rule nth_mem) simp

lemma hex_to_of: "hex_to (hex_of bs) = Some bs"
proof (induction bs)
  case Nil
  then show ?case by (simp add: hex_of_def)
next
  case (Cons b bs)
  have "unat b div 16 < 16" using unat_u8_less [of b] by (simp add: less_mult_imp_div_less)
  moreover have "16 * (unat b div 16) + unat b mod 16 = unat b" by simp
  ultimately show ?case
    using Cons by (simp add: hex_of_def nibble_of_char del: of_nat_add of_nat_mult)
qed

lemma hex_of_chars: "set (hex_of bs) \<subseteq> hex_chars"
proof (induction bs)
  case Nil
  then show ?case by (simp add: hex_of_def)
next
  case (Cons b bs)
  have "unat b div 16 < 16" using unat_u8_less [of b] by (simp add: less_mult_imp_div_less)
  with Cons show ?case by (simp add: hex_of_def nibble_char_hex)
qed

lemma length_hex_of: "length (hex_of bs) = 2 * length bs"
  by (induction bs) (simp_all add: hex_of_def)

lemma length_pad32 [simp]: "length (pad32 bs) = 32"
  by (simp add: pad32_def)

lemma pad32_inj: "length a = length b \<Longrightarrow> length a \<le> 32 \<Longrightarrow> pad32 a = pad32 b \<longleftrightarrow> a = b"
  by (auto simp: pad32_def)

lemma demo_hex_ok: "hex_ok demo_ext"
  by (simp add: hex_ok_def hex_to_of hex_of_chars length_hex_of)

lemma demo_hash_ok: "hash_ok demo_ext"
  by (simp add: hash_ok_def) (simp add: demo_ext_def)

lemma length_demo_tag [simp]: "length (demo_tag k a) = 16"
  by (simp add: demo_tag_def)

lemma demo_aead_ok: "aead_ok demo_ext"
  by (simp add: aead_ok_def demo_ext_def)

lemma demo_zstd_ok: "zstd_ok demo_ext"
  by (simp add: zstd_ok_def)

end
