(* ===== verification/Ids_Keys.thy ===== *)
theory Ids_Keys
  imports Externals
begin

text \<open>
  \<open>crates/kist-format/src/lib.rs\<close>, \<open>ids.rs\<close> and \<open>keys.rs\<close>: the errors of the format layer,
  the three kinds of 32-byte identifiers and the names (keys) of the objects in a repository.
  The identifiers are three different types, as in the code; each is ordered by its bytes.
  A formatted error message is represented by its fixed part.
\<close>

datatype format_error =
    Encode string
  | Decode string
  | Truncated string nat nat
  | BadMagic string
  | UnsupportedVersion string nat
  | UnknownAlgorithm u8
  | BadName string
  | BadTimestamp string
  | InvalidParams string
  | InvalidEntry string
  | InvalidSnapshot string
  | ParityCorrupt string
  | Unrepairable string

definition FORMAT_VERSION :: nat where "FORMAT_VERSION = 3"

definition ascii :: "string \<Rightarrow> bytes" where
  "ascii s = map (\<lambda>c. of_nat (of_char c)) s"

definition AAD_PACK_TRAILER :: bytes where "AAD_PACK_TRAILER = ascii ''kist/v3/pack-trailer''"
definition AAD_INDEX :: bytes where "AAD_INDEX = ascii ''kist/v3/index''"
definition AAD_MASTER :: bytes where "AAD_MASTER = ascii ''kist/v3/master''"

datatype algorithm = Raw | Zstd

definition algorithm_byte :: "algorithm \<Rightarrow> u8" where
  "algorithm_byte a = (case a of Raw \<Rightarrow> 0 | Zstd \<Rightarrow> 1)"

definition algorithm_from_u8 :: "u8 \<Rightarrow> format_error + algorithm" where
  "algorithm_from_u8 v = (if v = 0 then Inr Raw else if v = 1 then Inr Zstd else Inl (UnknownAlgorithm v))"

section \<open>Identifiers\<close>

datatype chunk_id = ChunkId (chunk_bytes: bytes)
datatype tree_id = TreeId (tree_bytes: bytes)
datatype object_id = ObjectId (object_bytes: bytes)

instantiation chunk_id :: linorder
begin
definition less_eq_chunk_id :: "chunk_id \<Rightarrow> chunk_id \<Rightarrow> bool" where
  "less_eq_chunk_id a b \<longleftrightarrow> chunk_bytes a \<le> chunk_bytes b"
definition less_chunk_id :: "chunk_id \<Rightarrow> chunk_id \<Rightarrow> bool" where
  "less_chunk_id a b \<longleftrightarrow> chunk_bytes a < chunk_bytes b"
instance
  by intro_classes
    (auto simp: less_eq_chunk_id_def less_chunk_id_def intro: chunk_id.expand)
end

instantiation tree_id :: linorder
begin
definition less_eq_tree_id :: "tree_id \<Rightarrow> tree_id \<Rightarrow> bool" where
  "less_eq_tree_id a b \<longleftrightarrow> tree_bytes a \<le> tree_bytes b"
definition less_tree_id :: "tree_id \<Rightarrow> tree_id \<Rightarrow> bool" where
  "less_tree_id a b \<longleftrightarrow> tree_bytes a < tree_bytes b"
instance
  by intro_classes
    (auto simp: less_eq_tree_id_def less_tree_id_def intro: tree_id.expand)
end

instantiation object_id :: linorder
begin
definition less_eq_object_id :: "object_id \<Rightarrow> object_id \<Rightarrow> bool" where
  "less_eq_object_id a b \<longleftrightarrow> object_bytes a \<le> object_bytes b"
definition less_object_id :: "object_id \<Rightarrow> object_id \<Rightarrow> bool" where
  "less_object_id a b \<longleftrightarrow> object_bytes a < object_bytes b"
instance
  by intro_classes
    (auto simp: less_eq_object_id_def less_object_id_def intro: object_id.expand)
end

definition zero_id :: bytes where "zero_id = replicate 32 0"
definition CHUNK_ZERO :: chunk_id where "CHUNK_ZERO = ChunkId zero_id"
definition TREE_ZERO :: tree_id where "TREE_ZERO = TreeId zero_id"
definition OBJECT_ZERO :: object_id where "OBJECT_ZERO = ObjectId zero_id"

definition tree_is_zero :: "tree_id \<Rightarrow> bool" where "tree_is_zero t \<longleftrightarrow> t = TREE_ZERO"

definition id_to_hex :: "ext \<Rightarrow> bytes \<Rightarrow> string" where
  "id_to_hex ext bs = hex_encode ext bs"

definition id_from_hex :: "ext \<Rightarrow> string \<Rightarrow> format_error + bytes" where
  "id_from_hex ext s =
     and_then (ok_or (BadName s) (hex_decode ext s))
       (\<lambda>bs. if length bs = 32 then Inr bs else Inl (BadName s))"

definition object_id_of :: "ext \<Rightarrow> bytes \<Rightarrow> object_id" where
  "object_id_of ext bs = ObjectId (blake3 ext bs)"

section \<open>Object names\<close>

definition CONFIG :: string where "CONFIG = ''config''"
definition KEYS_PREFIX :: string where "KEYS_PREFIX = ''keys''"
definition PACKS_PREFIX :: string where "PACKS_PREFIX = ''packs''"
definition INDEXES_PREFIX :: string where "INDEXES_PREFIX = ''indexes''"
definition TREES_PREFIX :: string where "TREES_PREFIX = ''trees''"
definition SNAPSHOTS_PREFIX :: string where "SNAPSHOTS_PREFIX = ''snapshots''"
definition GC_PREFIX :: string where "GC_PREFIX = ''gc''"
definition TOUCH_PREFIX :: string where "TOUCH_PREFIX = ''touch''"
definition PARITY_PREFIX :: string where "PARITY_PREFIX = ''parity''"
definition REPLICA_SUFFIX :: string where "REPLICA_SUFFIX = ''.r1''"

definition GC_MARK_MAGIC :: bytes where "GC_MARK_MAGIC = ascii ''KISTGC3'' @ [10]"
definition TOUCH_MAGIC :: bytes where "TOUCH_MAGIC = ascii ''KISTTC3'' @ [10]"

definition pack_key :: "ext \<Rightarrow> object_id \<Rightarrow> string" where
  "pack_key ext i = PACKS_PREFIX @ ''/'' @ id_to_hex ext (object_bytes i)"

definition index_key :: "ext \<Rightarrow> object_id \<Rightarrow> string" where
  "index_key ext i = INDEXES_PREFIX @ ''/'' @ id_to_hex ext (object_bytes i)"

definition tree_key :: "ext \<Rightarrow> tree_id \<Rightarrow> string" where
  "tree_key ext i = TREES_PREFIX @ ''/'' @ id_to_hex ext (tree_bytes i)"

definition tree_replica_key :: "ext \<Rightarrow> tree_id \<Rightarrow> string" where
  "tree_replica_key ext i = TREES_PREFIX @ ''/'' @ id_to_hex ext (tree_bytes i) @ REPLICA_SUFFIX"

definition touch_key :: "ext \<Rightarrow> tree_id \<Rightarrow> string" where
  "touch_key ext i = TOUCH_PREFIX @ ''/'' @ id_to_hex ext (tree_bytes i)"

definition parity_key :: "ext \<Rightarrow> object_id \<Rightarrow> string" where
  "parity_key ext i = PARITY_PREFIX @ ''/'' @ id_to_hex ext (object_bytes i)"

definition gc_key :: "ext \<Rightarrow> object_id \<Rightarrow> string" where
  "gc_key ext i = GC_PREFIX @ ''/'' @ id_to_hex ext (object_bytes i)"

definition snapshot_key :: "ext \<Rightarrow> bytes \<Rightarrow> string \<Rightarrow> string" where
  "snapshot_key ext client ts = SNAPSHOTS_PREFIX @ ''/'' @ hex_encode ext client @ ''/'' @ ts"

definition snapshot_prefix :: "ext \<Rightarrow> bytes \<Rightarrow> string" where
  "snapshot_prefix ext client = SNAPSHOTS_PREFIX @ ''/'' @ hex_encode ext client"

definition last_segment :: "string \<Rightarrow> string" where
  \<comment> \<open>\<open>key.rsplit('/').next()\<close>\<close>
  "last_segment k = rev (takeWhile (\<lambda>c. c \<noteq> CHR ''/'') (rev k))"

definition name_from_key :: "string \<Rightarrow> format_error + string" where
  "name_from_key k = (if last_segment k = [] then Inl (BadName k) else Inr (last_segment k))"

definition strip_replica :: "string \<Rightarrow> string option" where
  "strip_replica name = strip_suffix REPLICA_SUFFIX name"

definition object_id_from_key :: "ext \<Rightarrow> string \<Rightarrow> format_error + object_id" where
  "object_id_from_key ext k =
     and_then (name_from_key k)
       (\<lambda>n. and_then (id_from_hex ext n) (\<lambda>bs. Inr (ObjectId bs)))"

section \<open>Names determine objects\<close>

lemmas prefix_defs = CONFIG_def KEYS_PREFIX_def PACKS_PREFIX_def INDEXES_PREFIX_def
  TREES_PREFIX_def SNAPSHOTS_PREFIX_def GC_PREFIX_def TOUCH_PREFIX_def PARITY_PREFIX_def

lemmas key_defs = pack_key_def index_key_def tree_key_def tree_replica_key_def touch_key_def
  parity_key_def gc_key_def id_to_hex_def

lemma hex_encode_inj: "hex_ok ext \<Longrightarrow> hex_encode ext a = hex_encode ext b \<longleftrightarrow> a = b"
  by (metis hex_ok_def option.inject)

lemma hex_encode_no_slash: "hex_ok ext \<Longrightarrow> CHR ''/'' \<notin> set (hex_encode ext a)"
  by (auto simp: hex_ok_def hex_chars_def)

lemma hex_encode_no_dot: "hex_ok ext \<Longrightarrow> CHR ''.'' \<notin> set (hex_encode ext a)"
  by (auto simp: hex_ok_def hex_chars_def)

lemma hex_encode_Nil: "hex_ok ext \<Longrightarrow> hex_encode ext a = [] \<longleftrightarrow> a = []"
  by (metis hex_ok_def length_0_conv mult_is_0 zero_neq_numeral)

lemma key_inj [simp]:
  assumes "hex_ok ext"
  shows "pack_key ext i = pack_key ext j \<longleftrightarrow> i = j"
    and "index_key ext i = index_key ext j \<longleftrightarrow> i = j"
    and "tree_key ext s = tree_key ext t \<longleftrightarrow> s = t"
    and "tree_replica_key ext s = tree_replica_key ext t \<longleftrightarrow> s = t"
    and "touch_key ext s = touch_key ext t \<longleftrightarrow> s = t"
    and "parity_key ext i = parity_key ext j \<longleftrightarrow> i = j"
    and "gc_key ext i = gc_key ext j \<longleftrightarrow> i = j"
  using assms by (auto simp: key_defs hex_encode_inj intro: object_id.expand tree_id.expand)

lemma key_classes_differ [simp]:
  "pack_key ext i \<noteq> index_key ext j" "pack_key ext i \<noteq> tree_key ext t"
  "pack_key ext i \<noteq> tree_replica_key ext t" "pack_key ext i \<noteq> touch_key ext t"
  "pack_key ext i \<noteq> parity_key ext j" "pack_key ext i \<noteq> gc_key ext j"
  "index_key ext i \<noteq> pack_key ext j" "index_key ext i \<noteq> tree_key ext t"
  "index_key ext i \<noteq> tree_replica_key ext t" "index_key ext i \<noteq> touch_key ext t"
  "index_key ext i \<noteq> parity_key ext j" "index_key ext i \<noteq> gc_key ext j"
  "tree_key ext t \<noteq> pack_key ext j" "tree_key ext t \<noteq> index_key ext j"
  "tree_key ext t \<noteq> touch_key ext u" "tree_key ext t \<noteq> parity_key ext j"
  "tree_key ext t \<noteq> gc_key ext j"
  "tree_replica_key ext t \<noteq> pack_key ext j" "tree_replica_key ext t \<noteq> index_key ext j"
  "tree_replica_key ext t \<noteq> touch_key ext u" "tree_replica_key ext t \<noteq> parity_key ext j"
  "tree_replica_key ext t \<noteq> gc_key ext j"
  "touch_key ext t \<noteq> pack_key ext j" "touch_key ext t \<noteq> index_key ext j"
  "touch_key ext t \<noteq> tree_key ext u" "touch_key ext t \<noteq> tree_replica_key ext u"
  "touch_key ext t \<noteq> parity_key ext j" "touch_key ext t \<noteq> gc_key ext j"
  "parity_key ext i \<noteq> pack_key ext j" "parity_key ext i \<noteq> index_key ext j"
  "parity_key ext i \<noteq> tree_key ext t" "parity_key ext i \<noteq> tree_replica_key ext t"
  "parity_key ext i \<noteq> touch_key ext t" "parity_key ext i \<noteq> gc_key ext j"
  "gc_key ext i \<noteq> pack_key ext j" "gc_key ext i \<noteq> index_key ext j"
  "gc_key ext i \<noteq> tree_key ext t" "gc_key ext i \<noteq> tree_replica_key ext t"
  "gc_key ext i \<noteq> touch_key ext t" "gc_key ext i \<noteq> parity_key ext j"
  by (simp_all add: key_defs prefix_defs)

lemma tree_key_replica_differ [simp]:
  assumes "hex_ok ext"
  shows "tree_key ext t \<noteq> tree_replica_key ext u" "tree_replica_key ext u \<noteq> tree_key ext t"
proof -
  have "CHR ''.'' \<in> set (hex_encode ext (tree_bytes u) @ REPLICA_SUFFIX)"
    by (simp add: REPLICA_SUFFIX_def)
  with hex_encode_no_dot [OF assms, of "tree_bytes t"]
  have "hex_encode ext (tree_bytes t) \<noteq> hex_encode ext (tree_bytes u) @ REPLICA_SUFFIX" by metis
  then show "tree_key ext t \<noteq> tree_replica_key ext u" "tree_replica_key ext u \<noteq> tree_key ext t"
    by (auto simp: key_defs)
qed

lemma takeWhile_stop: "(\<And>x. x \<in> set xs \<Longrightarrow> P x) \<Longrightarrow> \<not> P y \<Longrightarrow> takeWhile P (xs @ y # ys) = xs"
  by (induction xs) auto

lemma last_segment_slash: "CHR ''/'' \<notin> set n \<Longrightarrow> last_segment (p @ CHR ''/'' # n) = n"
proof -
  assume "CHR ''/'' \<notin> set n"
  then have "takeWhile (\<lambda>c. c \<noteq> CHR ''/'') (rev n @ CHR ''/'' # rev p) = rev n"
    by (intro takeWhile_stop) auto
  then show ?thesis by (simp add: last_segment_def)
qed

lemma id_from_hex_encode:
  "hex_ok ext \<Longrightarrow> length bs = 32 \<Longrightarrow> id_from_hex ext (hex_encode ext bs) = Inr bs"
  by (simp add: id_from_hex_def hex_ok_def)

lemma object_id_from_prefixed:
  assumes "hex_ok ext" "length (object_bytes i) = 32"
  shows "object_id_from_key ext (p @ ''/'' @ hex_encode ext (object_bytes i)) = Inr i"
proof -
  have "hex_encode ext (object_bytes i) \<noteq> []" using assms by (auto simp: hex_encode_Nil)
  then show ?thesis
    using assms hex_encode_no_slash [OF assms(1)]
    by (simp add: object_id_from_key_def name_from_key_def last_segment_slash id_from_hex_encode)
qed

text \<open>parsing the name of a stored object gives back the identifier it was named by, in
  every namespace the garbage collector lists (packs, indexes, trees, marks, parity).\<close>

theorem object_id_from_key_roundtrip:
  assumes "hex_ok ext" "length (object_bytes i) = 32"
  shows "object_id_from_key ext (pack_key ext i) = Inr i
    \<and> object_id_from_key ext (index_key ext i) = Inr i
    \<and> object_id_from_key ext (gc_key ext i) = Inr i
    \<and> object_id_from_key ext (parity_key ext i) = Inr i
    \<and> object_id_from_key ext (tree_key ext (TreeId (object_bytes i))) = Inr i"
  using object_id_from_prefixed [OF assms] by (simp add: key_defs)

theorem object_id_from_key_roundtrip_witness:
  "object_id_from_key demo_ext (pack_key demo_ext (ObjectId (replicate 32 7))) = Inr (ObjectId (replicate 32 7))"
  using object_id_from_key_roundtrip [OF demo_hex_ok, of "ObjectId (replicate 32 7)"] by simp

end
