(* ===== verification/Cbor.thy ===== *)
theory Cbor
  imports Ids_Keys
begin

text \<open>
  \<open>crates/kist-format/src/cbor.rs\<close>: the structural gate every decoder runs before
  \<open>ciborium\<close> sees the bytes. \<open>walk_structure\<close> is modelled with the position it is given
  and the position it leaves (the code's \<open>&mut usize\<close>); \<open>walk_items\<close> is its loop over the
  children of an array (\<open>argument\<close> items) or a map (\<open>2 * argument\<close> items). The recursion
  ends because every nested call is one level deeper and the code refuses depth 65.

  The reference is \<open>wf_item\<close>: the grammar of definite-length, tag-free CBOR items, as an
  inductive predicate. \<open>walk_iff_grammar\<close> shows the walker accepts exactly that grammar.
\<close>

definition MAX_STRUCTURE_DEPTH :: nat where "MAX_STRUCTURE_DEPTH = 64"

definition read_uint :: "bytes \<Rightarrow> nat \<Rightarrow> nat \<Rightarrow> format_error + (nat \<times> nat)" where
  "read_uint data pos n =
     (if length data < pos + n then Inl (Decode ''truncated CBOR length'')
      else Inr (of_be (slice pos (pos + n) data), pos + n))"

definition read_head :: "bytes \<Rightarrow> nat \<Rightarrow> format_error + (nat \<times> nat \<times> nat)" where
  "read_head data pos =
     (if length data \<le> pos then Inl (Decode ''truncated CBOR item'')
      else let initial = data ! pos;
               major = unat (drop_bit 5 initial);
               info = unat (initial AND 0x1f);
               p = pos + 1
        in and_then
             (if info \<le> 23 then Inr (info, p)
              else if info = 24 then read_uint data p 1
              else if info = 25 then read_uint data p 2
              else if info = 26 then read_uint data p 4
              else if info = 27 then read_uint data p 8
              else if info = 31 then Inl (Decode ''indefinite length is not canonical CBOR'')
              else Inl (Decode ''reserved additional info in CBOR item''))
             (\<lambda>(arg, p'). Inr (major, arg, p')))"

function (sequential) walk_structure :: "bytes \<Rightarrow> nat \<Rightarrow> nat \<Rightarrow> format_error + nat"
  and walk_items :: "bytes \<Rightarrow> nat \<Rightarrow> nat \<Rightarrow> nat \<Rightarrow> format_error + nat" where
  "walk_structure data pos depth =
     (if depth > MAX_STRUCTURE_DEPTH then Inl (Decode ''CBOR nesting too deep'')
      else case read_head data pos of
          Inl e \<Rightarrow> Inl e
        | Inr (major, argument, p) \<Rightarrow>
            (if major = 0 \<or> major = 1 \<or> major = 7 then Inr p
             else if major = 2 \<or> major = 3 then
               (if length data < sat_add64 p argument
                then Inl (Decode ''truncated CBOR string payload'')
                else Inr (sat_add64 p argument))
             else if major = 4 then walk_items data argument p (depth + 1)
             else if major = 5 then walk_items data (2 * argument) p (depth + 1)
             else Inl (Decode ''CBOR tag is not canonical'')))"
| "walk_items data 0 pos depth = Inr pos"
| "walk_items data (Suc k) pos depth =
     (case walk_structure data pos depth of
        Inl e \<Rightarrow> Inl e
      | Inr p \<Rightarrow> walk_items data k p depth)"
  by pat_completeness auto
termination
  by (relation "measures [\<lambda>x. case x of Inl (data, pos, d) \<Rightarrow> MAX_STRUCTURE_DEPTH + 2 - d
                                    | Inr (data, k, pos, d) \<Rightarrow> MAX_STRUCTURE_DEPTH + 2 - d,
                          \<lambda>x. case x of Inl _ \<Rightarrow> 0 | Inr (data, k, pos, d) \<Rightarrow> Suc k]")
    (auto simp: MAX_STRUCTURE_DEPTH_def)

declare walk_structure.simps [simp del]

lemma walk_items_numeral [simp]:
  "walk_items data (numeral k) pos depth =
     (case walk_structure data pos depth of
        Inl e \<Rightarrow> Inl e
      | Inr p \<Rightarrow> walk_items data (pred_numeral k) p depth)"
  by (simp add: numeral_eq_Suc)

definition reject_noncanonical :: "bytes \<Rightarrow> format_error + unit" where
  "reject_noncanonical data =
     and_then (walk_structure data 0 0)
       (\<lambda>pos. if pos \<noteq> length data
              then Inl (Decode ''trailing bytes after CBOR value'') else Inr ())"

text \<open>
  \<open>decode::<T>\<close>: the gate, then \<open>ciborium::from_reader\<close> (a parameter: the decoded value and
  the number of bytes it consumed, or its error text), then the check for trailing bytes.
\<close>

definition cbor_decode :: "(bytes \<Rightarrow> string + ('a \<times> nat)) \<Rightarrow> bytes \<Rightarrow> format_error + 'a" where
  "cbor_decode from_reader bs =
     and_then (reject_noncanonical bs)
       (\<lambda>_. and_then (map_err Decode (from_reader bs))
         (\<lambda>(v, consumed). if consumed \<noteq> length bs
            then Inl (Decode ''trailing bytes after CBOR value'') else Inr v))"

section \<open>The grammar\<close>

inductive head_of :: "nat \<Rightarrow> nat \<Rightarrow> bytes \<Rightarrow> bool" where
  short: "major < 8 \<Longrightarrow> v \<le> 23 \<Longrightarrow> head_of major v [of_nat (32 * major + v)]"
| long: "major < 8 \<Longrightarrow> (info, n) \<in> {(24, 1), (25, 2), (26, 4), (27, 8)} \<Longrightarrow> length ext = n \<Longrightarrow>
     head_of major (of_be ext) (of_nat (32 * major + info) # ext)"

inductive wf_item :: "nat \<Rightarrow> bytes \<Rightarrow> bool"
  and wf_items :: "nat \<Rightarrow> nat \<Rightarrow> bytes \<Rightarrow> bool" where
  scalar: "d \<le> MAX_STRUCTURE_DEPTH \<Longrightarrow> head_of m v h \<Longrightarrow> m \<in> {0, 1, 7} \<Longrightarrow> wf_item d h"
| text_string: "d \<le> MAX_STRUCTURE_DEPTH \<Longrightarrow> head_of m v h \<Longrightarrow> m \<in> {2, 3} \<Longrightarrow> length s = v \<Longrightarrow>
     wf_item d (h @ s)"
| array: "d \<le> MAX_STRUCTURE_DEPTH \<Longrightarrow> head_of 4 v h \<Longrightarrow> wf_items (d + 1) v body \<Longrightarrow>
     wf_item d (h @ body)"
| mapping: "d \<le> MAX_STRUCTURE_DEPTH \<Longrightarrow> head_of 5 v h \<Longrightarrow> wf_items (d + 1) (2 * v) body \<Longrightarrow>
     wf_item d (h @ body)"
| none: "wf_items d 0 []"
| more: "wf_item d x \<Longrightarrow> wf_items d k xs \<Longrightarrow> wf_items d (Suc k) (x @ xs)"

section \<open>The walker and the grammar agree\<close>

lemma head_byte:
  assumes "m < 8" "i < 32"
  shows "unat (drop_bit 5 (of_nat (32 * m + i) :: u8)) = m"
    and "unat ((of_nat (32 * m + i) :: u8) AND 0x1f) = i"
proof -
  have lt: "32 * m + i < 256" using assms by simp
  have "unat (drop_bit 5 (of_nat (32 * m + i) :: u8)) = (32 * m + i) div 32"
    using lt
    by (simp add: drop_bit_eq_div unat_div del: of_nat_add of_nat_mult)
  then show "unat (drop_bit 5 (of_nat (32 * m + i) :: u8)) = m" using assms by simp
  have "(0x1f :: u8) = mask 5" by (simp add: mask_eq_exp_minus_1)
  then have "(of_nat (32 * m + i) :: u8) AND 0x1f = take_bit 5 (of_nat (32 * m + i))"
    by (simp only: take_bit_eq_mask)
  then have "unat ((of_nat (32 * m + i) :: u8) AND 0x1f) = (32 * m + i) mod 32"
    using lt by (simp add: take_bit_eq_mod unat_mod del: of_nat_add of_nat_mult)
  then show "unat ((of_nat (32 * m + i) :: u8) AND 0x1f) = i" using assms by simp
qed

lemma head_byte_ex: "\<exists>m i. m < 8 \<and> i < 32 \<and> b = (of_nat (32 * m + i) :: u8)"
proof (intro exI conjI)
  have lt: "unat b < 256" by simp
  show "unat b div 32 < 8" using lt by (simp add: less_mult_imp_div_less)
  show "unat b mod 32 < 32" by simp
  show "b = of_nat (32 * (unat b div 32) + unat b mod 32)" by simp
qed

lemma read_uint_Inr [result_simps]:
  "read_uint data p n = Inr (v, q) \<longleftrightarrow>
     p + n \<le> length data \<and> v = of_be (slice p (p + n) data) \<and> q = p + n"
  by (auto simp: read_uint_def)

lemma read_head_complete:
  assumes "head_of m v h" "at_pos data pos h"
  shows "read_head data pos = Inr (m, v, pos + length h)"
  using assms
proof (induction rule: head_of.induct)
  case (short major v)
  then show ?case using head_byte [of major v]
    by (auto simp: read_head_def at_pos_Cons simp del: of_nat_add of_nat_mult)
next
  case (long major info n ext)
  then have at: "pos < length data" "data ! pos = of_nat (32 * major + info)"
    and ext: "at_pos data (pos + 1) ext"
    by (simp_all add: at_pos_Cons del: of_nat_add of_nat_mult)
  from at_pos_bound [OF ext] at(1) long.hyps(3) have le: "pos + 1 + n \<le> length data" by simp
  from at_pos_slice [OF ext] long.hyps(3) have "slice (pos + 1) (pos + 1 + n) data = ext" by simp
  with le have ru: "read_uint data (pos + 1) n = Inr (of_be ext, pos + 1 + n)"
    by (simp add: read_uint_Inr)
  have i: "info < 32" using long.hyps(2) by auto
  show ?case
    using long.hyps(2,3) at ru head_byte [OF long.hyps(1) i]
    by (auto simp: read_head_def simp del: of_nat_add of_nat_mult)
qed

lemma read_head_sound:
  assumes "read_head data pos = Inr (m, v, p)"
  obtains h where "head_of m v h" "at_pos data pos h" "p = pos + length h" "p \<le> length data"
proof -
  from assms have pos: "pos < length data" by (auto simp: read_head_def split: if_splits)
  obtain m' i where mi: "m' < 8" "i < 32" "data ! pos = of_nat (32 * m' + i)"
    using head_byte_ex by blast
  note hb = head_byte [OF mi(1,2)]
  show thesis
  proof (cases "i \<le> 23")
    case True
    with assms pos mi hb have "m = m'" "v = i" "p = pos + 1"
      by (auto simp: read_head_def simp del: of_nat_add of_nat_mult)
    moreover from this have "head_of m v [data ! pos]"
      using mi True head_of.short by metis
    ultimately show thesis using that [of "[data ! pos]"] pos by (simp add: at_pos_Cons)
  next
    case False
    with assms pos mi hb obtain n where
      n: "(i, n) \<in> {(24, 1), (25, 2), (26, 4), (27, 8)}" "m = m'"
        "read_uint data (pos + 1) n = Inr (v, p)"
      by (auto simp: read_head_def Let_def result_simps simp del: of_nat_add of_nat_mult
          split: if_splits)
    let ?e = "slice (pos + 1) (pos + 1 + n) data"
    from n have le: "pos + 1 + n \<le> length data" and v: "v = of_be ?e" and p: "p = pos + 1 + n"
      by (auto simp: read_uint_Inr)
    then have len: "length ?e = n" by (simp add: length_slice)
    have "head_of m v (data ! pos # ?e)"
      unfolding v n(2) mi(3) using mi(1) n(1) len by (rule head_of.long)
    moreover have "at_pos data pos (data ! pos # ?e)"
      using pos at_pos_of_slice [OF le] by (simp add: at_pos_Cons)
    ultimately show thesis using that p le len by simp
  qed
qed

lemma wf_complete:
  "wf_item d x \<Longrightarrow> addressable data \<Longrightarrow> pos \<le> length data \<Longrightarrow> at_pos data pos x \<Longrightarrow>
     walk_structure data pos d = Inr (pos + length x)"
  "wf_items d k xs \<Longrightarrow> addressable data \<Longrightarrow> pos \<le> length data \<Longrightarrow> at_pos data pos xs \<Longrightarrow>
     walk_items data k pos d = Inr (pos + length xs)"
proof (induction arbitrary: pos and pos rule: wf_item_wf_items.inducts)
  case (scalar d m v h)
  then show ?case by (auto simp: walk_structure.simps [of data] read_head_complete)
next
  case (text_string d m v h s)
  then have h: "at_pos data pos h" "at_pos data (pos + length h) s" by simp_all
  then have "pos + length h + v \<le> length data"
    using text_string at_pos_bound by metis
  moreover from this have "pos + length h + v \<le> u64_max"
    using text_string(5) by (simp add: addressable_def u64_max_def)
  ultimately show ?case using text_string h
    by (auto simp: walk_structure.simps [of data] read_head_complete sat_add64_small)
next
  case (array d v h body)
  then have "at_pos data pos h" "at_pos data (pos + length h) body" by simp_all
  moreover have "pos + length h \<le> length data" using array calculation at_pos_bound by metis
  ultimately show ?case using array
    by (simp add: walk_structure.simps [of data] read_head_complete add.assoc)
next
  case (mapping d v h body)
  then have "at_pos data pos h" "at_pos data (pos + length h) body" by simp_all
  moreover have "pos + length h \<le> length data" using mapping calculation at_pos_bound by metis
  ultimately show ?case using mapping
    by (simp add: walk_structure.simps [of data] read_head_complete add.assoc)
next
  case (none d)
  then show ?case by simp
next
  case (more d x k xs)
  then have "at_pos data pos x" "at_pos data (pos + length x) xs" by simp_all
  moreover have "pos + length x \<le> length data" using more calculation at_pos_bound by metis
  ultimately show ?case using more by (simp add: add.assoc)
qed

lemma wf_sound:
  "walk_structure data pos d = Inr p \<Longrightarrow> addressable data \<Longrightarrow> pos \<le> length data \<Longrightarrow>
     \<exists>x. wf_item d x \<and> at_pos data pos x \<and> p = pos + length x"
  "walk_items data k pos d = Inr p \<Longrightarrow> addressable data \<Longrightarrow> pos \<le> length data \<Longrightarrow>
     \<exists>xs. wf_items d k xs \<and> at_pos data pos xs \<and> p = pos + length xs"
proof (induction data pos d and data k pos d arbitrary: p and p
    rule: walk_structure_walk_items.induct)
  case (1 data pos depth)
  from "1.prems"(1) have d: "depth \<le> MAX_STRUCTURE_DEPTH"
    by (simp add: walk_structure.simps [of data] split: if_splits)
  with "1.prems"(1) obtain major arg q where rh: "read_head data pos = Inr (major, arg, q)"
    by (auto simp: walk_structure.simps [of data] split: sum.splits)
  from read_head_sound [OF rh] obtain h
    where h: "head_of major arg h" "at_pos data pos h" "q = pos + length h" "q \<le> length data" .
  have m8: "major < 8" using h(1) by cases auto
  note walk = "1.prems"(1) [unfolded walk_structure.simps [of data], simplified, unfolded rh, simplified]
  consider "major \<in> {0, 1, 7}" | "major \<in> {2, 3}" | "major = 4" | "major = 5" | "major = 6"
    using m8 by force
  then show ?case
  proof cases
    case 1
    with walk d have "p = q" by auto
    with 1 d h wf_item_wf_items.scalar show ?thesis by blast
  next
    case 2
    with walk d have le: "sat_add64 q arg \<le> length data" and p: "p = sat_add64 q arg"
      by (auto split: if_splits)
    from le "1.prems"(2) have "q + arg \<le> u64_max"
      by (auto simp: sat_add64_def addressable_def u64_max_def min_def split: if_splits)
    with le p have le': "q + arg \<le> length data" "p = q + arg" by (simp_all add: sat_add64_small)
    let ?s = "slice q (q + arg) data"
    have "wf_item depth (h @ ?s)"
      using d h(1) 2 le' by (intro wf_item_wf_items.text_string) (auto simp: length_slice)
    moreover have "at_pos data pos (h @ ?s)" using h at_pos_of_slice [OF le'(1)] by simp
    ultimately show ?thesis using le' h(3) by (intro exI [of _ "h @ ?s"]) (simp add: length_slice)
  next
    case 3
    with walk d have "walk_items data arg q (depth + 1) = Inr p" by simp
    with "1.IH"(1) [OF _ rh] 3 d "1.prems"(2) h(4) obtain body
      where "wf_items (depth + 1) arg body" "at_pos data q body" "p = q + length body"
      by fastforce
    with 3 d h show ?thesis
      by (intro exI [of _ "h @ body"]) (auto intro: wf_item_wf_items.array)
  next
    case 4
    with walk d have "walk_items data (2 * arg) q (depth + 1) = Inr p" by simp
    with "1.IH"(2) [OF _ rh] 4 d "1.prems"(2) h(4) obtain body
      where "wf_items (depth + 1) (2 * arg) body" "at_pos data q body" "p = q + length body"
      by fastforce
    with 4 d h show ?thesis
      by (intro exI [of _ "h @ body"]) (auto intro: wf_item_wf_items.mapping)
  next
    case 5
    with walk d show ?thesis by simp
  qed
next
  case (2 data pos depth)
  then show ?case using wf_item_wf_items.none by force
next
  case (3 data k pos depth)
  from "3.prems"(1) obtain q where q: "walk_structure data pos depth = Inr q"
    "walk_items data k q depth = Inr p"
    by (auto split: sum.splits)
  from "3.IH"(1) [OF q(1) "3.prems"(2,3)] obtain x
    where x: "wf_item depth x" "at_pos data pos x" "q = pos + length x" by blast
  have "q \<le> length data" using at_pos_bound [OF x(2) "3.prems"(3)] x(3) by simp
  with "3.IH"(2) [OF q(1) q(2) "3.prems"(2)] obtain xs
    where "wf_items depth k xs" "at_pos data q xs" "p = q + length xs" by blast
  with x show ?case
    by (intro exI [of _ "x @ xs"]) (auto intro: wf_item_wf_items.more)
qed

text \<open>C10: the canonical-form gate accepts exactly the byte strings that are one item of the
  definite-length, tag-free CBOR grammar nested at most 64 levels deep: nothing outside the
  grammar gets through to the decoder and no such item is refused.\<close>

theorem reject_noncanonical_iff_grammar:
  "addressable data \<Longrightarrow> reject_noncanonical data = Inr () \<longleftrightarrow> wf_item 0 data"
proof
  assume a: "addressable data" and "reject_noncanonical data = Inr ()"
  then have "walk_structure data 0 0 = Inr (length data)"
    by (auto simp: reject_noncanonical_def result_simps split: if_splits)
  from wf_sound(1) [OF this a] obtain x where "wf_item 0 x" "at_pos data 0 x" "length data = length x"
    by auto
  then show "wf_item 0 data" using at_pos_all [of data x] by simp
next
  assume "addressable data" "wf_item 0 data"
  then show "reject_noncanonical data = Inr ()"
    using wf_complete(1) [of 0 data data 0] by (simp add: reject_noncanonical_def at_pos_def)
qed

lemmas gate_eval = reject_noncanonical_def walk_structure.simps read_head_def read_uint_def
  MAX_STRUCTURE_DEPTH_def sat_add64_def u64_max_def of_be_def slice_def drop_bit_eq_div Let_def

theorem reject_noncanonical_witness:
  "wf_item 0 [0x82, 0x01, 0x61, 0x78] \<and> \<not> wf_item 0 [0x9f, 0xff]"
proof -
  have "reject_noncanonical [0x82, 0x01, 0x61, 0x78] = Inr ()" by (simp add: gate_eval)
  moreover have "reject_noncanonical [0x9f, 0xff] \<noteq> Inr ()" by (simp add: gate_eval)
  ultimately show ?thesis
    using reject_noncanonical_iff_grammar [of "[0x82, 0x01, 0x61, 0x78]"]
      reject_noncanonical_iff_grammar [of "[0x9f, 0xff]"]
    by (simp add: addressable_def)
qed

text \<open>A half, single or double precision float is accepted by the gate wherever an item is.\<close>

lemma float_accepted: "reject_noncanonical [0xfa, 0x3f, 0x80, 0x00, 0x00] = Inr ()"
  by (simp add: gate_eval)

end
