(* ===== verification/Config_Format.thy ===== *)
theory Config_Format
  imports Cbor
begin

text \<open>
  \<open>crates/kist-format/src/config.rs\<close>: the repository configuration, its key slots and the
  invariants the wrapped master key carries, with the checks a reader runs on these plaintext
  (hence untrusted) numbers. Also the codecs: \<open>serde\<close> and \<open>ciborium\<close> generate the
  encoder and decoder of every structure, so a codec is a parameter, and \<open>codec_ok\<close> the
  round-trip a caller relies on (for the values of a set, since omitted default fields do not
  survive for values the writer never builds).
\<close>

section \<open>Codecs of structures\<close>

record 'a codec =
  c_write :: "'a \<Rightarrow> string + bytes"
  c_read :: "bytes \<Rightarrow> string + ('a \<times> nat)"

definition cbor_encode :: "'a codec \<Rightarrow> 'a \<Rightarrow> format_error + bytes" where
  "cbor_encode c v = map_err Encode (c_write c v)"

definition cbor_decode_as :: "'a codec \<Rightarrow> bytes \<Rightarrow> format_error + 'a" where
  "cbor_decode_as c bs = cbor_decode (c_read c) bs"

definition codec_ok :: "'a codec \<Rightarrow> 'a set \<Rightarrow> bool" where
  "codec_ok c V \<longleftrightarrow> (\<forall>v \<in> V. \<forall>bs. c_write c v = Inr bs \<longrightarrow>
     c_read c bs = Inr (v, length bs) \<and> reject_noncanonical bs = Inr ())"

lemma codec_roundtrip [result_simps]:
  assumes "codec_ok c V" "v \<in> V" "cbor_encode c v = Inr bs"
  shows "cbor_decode_as c bs = Inr v"
  using assms by (auto simp: codec_ok_def cbor_encode_def cbor_decode_as_def cbor_decode_def
      result_simps)

text \<open>A codec of a few values, for witnesses: the CBOR integer \<open>i\<close> stands for the \<open>i\<close>th.\<close>

definition demo_codec :: "'a list \<Rightarrow> 'a codec" where
  "demo_codec vs = \<lparr>
     c_write = (\<lambda>v. case find (\<lambda>i. vs ! i = v) [0..<min 24 (length vs)] of
        None \<Rightarrow> Inl ''unknown value'' | Some i \<Rightarrow> Inr [of_nat i]),
     c_read = (\<lambda>bs. if length bs = 1 \<and> unat (hd bs) < length vs
        then Inr (vs ! unat (hd bs), 1) else Inl ''bad value'') \<rparr>"

lemma small_int_canonical: "i < 24 \<Longrightarrow> reject_noncanonical [of_nat i] = Inr ()"
proof -
  assume "i < 24"
  then have "head_of 0 i [of_nat i]" using head_of.short [of 0 i] by simp
  then have "wf_item 0 [of_nat i]" by (rule scalar [rotated]) (simp_all add: MAX_STRUCTURE_DEPTH_def)
  then show "reject_noncanonical [of_nat i] = Inr ()"
    using wf_complete(1) [of 0 "[of_nat i]" "[of_nat i]" 0]
    by (simp add: reject_noncanonical_def at_pos_def addressable_def)
qed

lemma demo_codec_ok: "codec_ok (demo_codec vs) V"
  unfolding codec_ok_def
proof (intro ballI allI impI)
  fix v bs assume "c_write (demo_codec vs) v = Inr bs"
  then obtain i where "find (\<lambda>i. vs ! i = v) [0..<min 24 (length vs)] = Some i" and bs: "bs = [of_nat i]"
    by (auto simp: demo_codec_def split: option.splits)
  then have i: "i < 24" "i < length vs" "vs ! i = v" by (auto simp: find_Some_iff)
  then have "unat (of_nat i :: u8) = i" by simp
  with i show "c_read (demo_codec vs) bs = Inr (v, length bs) \<and> reject_noncanonical bs = Inr ()"
    by (simp add: bs demo_codec_def small_int_canonical)
qed

lemma demo_codec_hd [simp]:
  "cbor_encode (demo_codec (v # vs)) v = Inr [0]" "cbor_decode_as (demo_codec (v # vs)) [0] = Inr v"
proof -
  show e: "cbor_encode (demo_codec (v # vs)) v = Inr [0]"
    by (simp add: demo_codec_def cbor_encode_def upt_rec [of 0])
  show "cbor_decode_as (demo_codec (v # vs)) [0] = Inr v"
    using codec_roundtrip [OF demo_codec_ok [of "v # vs" UNIV] _ e] by simp
qed

section \<open>Structures\<close>

definition KDF_ARGON2ID :: string where "KDF_ARGON2ID = ''argon2id''"
definition KEY_SLOT_VERSION :: nat where "KEY_SLOT_VERSION = 3"
definition MIN_PACK_TARGET_SIZE :: nat where "MIN_PACK_TARGET_SIZE = 64 * 1024"
definition MAX_PACK_TARGET_SIZE :: nat where "MAX_PACK_TARGET_SIZE = 4 * 1024 * 1024 * 1024"

record chunker_params =
  cp_min :: nat
  cp_avg :: nat
  cp_max :: nat

record kdf_params =
  kp_algorithm :: string
  kp_t_cost :: nat
  kp_m_cost_kib :: nat
  kp_p_cost :: nat
  kp_salt :: bytes

record key_slot =
  ks_version :: nat
  ks_name :: string
  ks_created_ns :: int
  ks_kdf :: kdf_params
  ks_wrapped :: bytes

record repo_config =
  rc_version :: nat
  rc_repo_id :: bytes
  rc_created_ns :: int
  rc_chunker :: chunker_params
  rc_pack_target_size :: nat
  rc_min_reader :: nat
  rc_replicas :: nat
  rc_key :: key_slot

record invariants =
  inv_version :: nat
  inv_repo_id :: bytes
  inv_chunker :: chunker_params

section \<open>Checks\<close>

definition chunker_params_default :: chunker_params where
  "chunker_params_default = \<lparr>cp_min = 512 * 1024, cp_avg = 2 * 1024 * 1024, cp_max = 8 * 1024 * 1024\<rparr>"

definition chunker_params_validate :: "chunker_params \<Rightarrow> format_error + unit" where
  "chunker_params_validate p =
     (if cp_min p < 64 \<or> cp_min p > 1024 * 1024
      then Inl (InvalidParams ''chunker.min is outside 64..=1 MiB'')
      else if cp_avg p < 256 \<or> cp_avg p > 16 * 1024 * 1024
      then Inl (InvalidParams ''chunker.avg is outside 256..=16 MiB'')
      else if cp_max p < 1024 \<or> cp_max p > 64 * 1024 * 1024
      then Inl (InvalidParams ''chunker.max is outside 1 KiB..=64 MiB'')
      else if \<not> (cp_min p \<le> cp_avg p \<and> cp_avg p \<le> cp_max p)
      then Inl (InvalidParams ''chunker sizes must satisfy min <= avg <= max'')
      else Inr ())"

definition kdf_default_params :: kdf_params where
  "kdf_default_params = \<lparr>kp_algorithm = KDF_ARGON2ID, kp_t_cost = 3, kp_m_cost_kib = 64 * 1024,
     kp_p_cost = 4, kp_salt = []\<rparr>"

definition kdf_params_validate :: "kdf_params \<Rightarrow> format_error + unit" where
  "kdf_params_validate k =
     (if kp_algorithm k \<noteq> KDF_ARGON2ID then Inl (InvalidParams ''unsupported kdf'')
      else if length (kp_salt k) \<noteq> 16 then Inl (InvalidParams ''kdf salt must be 16 bytes'')
      else if kp_m_cost_kib k = 0 \<or> kp_m_cost_kib k > 1024 * 1024
      then Inl (InvalidParams ''kdf m is outside 1..=1 GiB'')
      else if kp_t_cost k = 0 \<or> kp_t_cost k > 64 then Inl (InvalidParams ''kdf t is outside 1..=64'')
      else if kp_p_cost k = 0 \<or> kp_p_cost k > 64 then Inl (InvalidParams ''kdf p is outside 1..=64'')
      else Inr ())"

definition new_invariants :: "bytes \<Rightarrow> chunker_params \<Rightarrow> invariants" where
  "new_invariants rid ch = \<lparr>inv_version = FORMAT_VERSION, inv_repo_id = rid, inv_chunker = ch\<rparr>"

definition invariants_validate :: "invariants \<Rightarrow> format_error + unit" where
  "invariants_validate i =
     (if inv_version i \<noteq> FORMAT_VERSION
      then Inl (UnsupportedVersion ''key invariants'' (inv_version i))
      else if length (inv_repo_id i) \<noteq> 16
      then Inl (InvalidParams ''invariants repo_id must be 16 bytes'')
      else chunker_params_validate (inv_chunker i))"

definition check_matches :: "invariants \<Rightarrow> repo_config \<Rightarrow> format_error + unit" where
  "check_matches i c =
     (if inv_repo_id i \<noteq> rc_repo_id c \<or> inv_chunker i \<noteq> rc_chunker c
      then Inl (InvalidParams ''plaintext config does not match the authenticated invariants'')
      else Inr ())"

definition new_config :: "bytes \<Rightarrow> int \<Rightarrow> key_slot \<Rightarrow> repo_config" where
  "new_config rid created key =
     \<lparr>rc_version = FORMAT_VERSION, rc_repo_id = rid, rc_created_ns = created,
      rc_chunker = chunker_params_default, rc_pack_target_size = 64 * 1024 * 1024,
      rc_min_reader = FORMAT_VERSION mod 2 ^ 16, rc_replicas = 0, rc_key = key\<rparr>"

definition config_validate :: "repo_config \<Rightarrow> format_error + unit" where
  "config_validate c =
     (if rc_version c \<noteq> FORMAT_VERSION
      then Inl (UnsupportedVersion ''repository config'' (rc_version c))
      else if length (rc_repo_id c) \<noteq> 16 then Inl (InvalidParams ''repo_id must be 16 bytes'')
      else and_then (chunker_params_validate (rc_chunker c)) (\<lambda>_.
        if rc_pack_target_size c < MIN_PACK_TARGET_SIZE \<or> rc_pack_target_size c > MAX_PACK_TARGET_SIZE
        then Inl (InvalidParams ''pack_target is outside its range'')
        else if cp_max (rc_chunker c) > rc_pack_target_size c
        then Inl (InvalidParams ''chunker.max must not exceed pack_target'')
        else if \<not> (3 \<le> rc_min_reader c \<and> rc_min_reader c \<le> FORMAT_VERSION)
        then Inl (InvalidParams ''min_reader is outside 3..=FORMAT_VERSION'')
        else if rc_replicas c > 1 then Inl (InvalidParams ''replicas is outside 0..=1'')
        else kdf_params_validate (ks_kdf (rc_key c))))"

definition params_ok :: "chunker_params \<Rightarrow> bool" where
  "params_ok p \<longleftrightarrow> 0 < cp_min p \<and> cp_min p \<le> cp_avg p \<and> cp_avg p \<le> cp_max p"

lemma chunker_validate_ok:
  "chunker_params_validate p = Inr () \<Longrightarrow> params_ok p \<and> cp_max p \<le> 64 * 1024 * 1024"
  by (auto simp: chunker_params_validate_def params_ok_def split: if_splits)

lemma config_validate_chunker:
  assumes "config_validate c = Inr ()"
  shows "params_ok (rc_chunker c)" "cp_max (rc_chunker c) \<le> rc_pack_target_size c"
    "cp_max (rc_chunker c) \<le> 64 * 1024 * 1024"
  using assms chunker_validate_ok [of "rc_chunker c"]
  by (auto simp: config_validate_def result_simps split: if_splits)

lemma new_config_valid:
  "length rid = 16 \<Longrightarrow> kdf_params_validate (ks_kdf key) = Inr () \<Longrightarrow>
     config_validate (new_config rid created key) = Inr ()"
  by (simp add: config_validate_def new_config_def chunker_params_validate_def
      chunker_params_default_def MIN_PACK_TARGET_SIZE_def MAX_PACK_TARGET_SIZE_def FORMAT_VERSION_def)

end
