(* ===== verification/Tree_Format.thy ===== *)
theory Tree_Format
  imports Config_Format
begin

text \<open>
  \<open>crates/kist-format/src/tree.rs\<close> and \<open>snapshot.rs\<close>: the directory objects, their entries with
  the per-kind presence rules of the metadata, the indirect chunk lists, and the snapshots.
  The checks a reader runs after decoding are functions that return the first error; the
  reference for the entry check is the table of required and forbidden fields
  (\<open>required_fields\<close>, \<open>forbidden_fields\<close>), for the object checks strict sortedness.
\<close>

definition MAX_NODES_PER_TREE :: nat where "MAX_NODES_PER_TREE = 10000"
definition MAX_ETAG_VER_BYTES :: nat where "MAX_ETAG_VER_BYTES = 1024"
definition MAX_INLINE_CHUNKS :: nat where "MAX_INLINE_CHUNKS = 256"

definition NT_FILE :: nat where "NT_FILE = 0"
definition NT_DIR :: nat where "NT_DIR = 1"
definition NT_SYMLINK :: nat where "NT_SYMLINK = 2"

definition CT_DIRECT :: nat where "CT_DIRECT = 0"
definition CT_INDIRECT :: nat where "CT_INDIRECT = 1"

definition MK_POSIX :: nat where "MK_POSIX = 0"
definition MK_SFTP :: nat where "MK_SFTP = 1"
definition MK_S3 :: nat where "MK_S3 = 2"
definition MK_GENERIC :: nat where "MK_GENERIC = 3"

definition meta_kind_is_valid :: "nat \<Rightarrow> bool" where "meta_kind_is_valid v \<longleftrightarrow> v \<le> MK_GENERIC"

lemmas node_consts = NT_FILE_def NT_DIR_def NT_SYMLINK_def CT_DIRECT_def CT_INDIRECT_def
  MK_POSIX_def MK_SFTP_def MK_S3_def MK_GENERIC_def

record entry =
  en_name :: bytes
  en_kind :: nat
  en_meta_kind :: nat
  en_size :: nat
  en_target :: bytes
  en_content :: nat
  en_chunks :: "chunk_id list"
  en_subtree :: tree_id
  en_mode :: "nat option"
  en_uid :: "nat option"
  en_gid :: "nat option"
  en_mtime_ns :: "int option"
  en_ctime_ns :: "int option"
  en_dev :: "nat option"
  en_inode :: "nat option"
  en_nlink :: "nat option"
  en_xattrs :: "(bytes \<times> bytes) list option"
  en_etag :: "bytes option"
  en_vern :: "bytes option"

record tree =
  tr_version :: nat
  tr_entries :: "entry list"
  tr_prev :: "tree_id option"

section \<open>Entries\<close>

definition is_some :: "'a option \<Rightarrow> bool" where "is_some x \<longleftrightarrow> x \<noteq> None"

lemma is_some_simps [simp]: "\<not> is_some None" "is_some (Some x)"
  by (simp_all add: is_some_def)

definition name_is_bad :: "bytes \<Rightarrow> bool" where
  "name_is_bad n \<longleftrightarrow> n = [] \<or> 0x2f \<in> set n \<or> 0 \<in> set n \<or> n = ascii ''.'' \<or> n = ascii ''..''"

definition validate_node :: "entry \<Rightarrow> format_error + unit" where
  "validate_node e =
     (if en_kind e = NT_FILE then
        (if en_target e \<noteq> [] \<or> \<not> tree_is_zero (en_subtree e)
         then Inl (InvalidEntry ''file entry must not carry target/subtree'') else Inr ())
      else if en_kind e = NT_DIR then
        (if en_size e \<noteq> 0 \<or> en_target e \<noteq> [] \<or> en_chunks e \<noteq> [] \<or> tree_is_zero (en_subtree e)
         then Inl (InvalidEntry ''dir entry must carry subtree only'') else Inr ())
      else
        (if en_target e = [] \<or> en_size e \<noteq> 0 \<or> en_chunks e \<noteq> [] \<or> \<not> tree_is_zero (en_subtree e)
         then Inl (InvalidEntry ''symlink entry must carry target only'') else Inr ()))"

definition validate_content :: "entry \<Rightarrow> format_error + unit" where
  "validate_content e =
     (if \<not> (en_content e = CT_DIRECT \<or> en_content e = CT_INDIRECT)
      then Inl (InvalidEntry ''unknown content type'')
      else if en_content e = CT_DIRECT \<and> length (en_chunks e) > MAX_INLINE_CHUNKS
      then Inl (InvalidEntry ''inline chunks over the limit (must be indirect)'')
      else if en_kind e \<noteq> NT_FILE \<and> en_chunks e \<noteq> []
      then Inl (InvalidEntry ''chunks only on file entries'')
      else Inr ())"

definition over_limit :: "bytes option \<Rightarrow> bool" where
  "over_limit b = (case b of None \<Rightarrow> False | Some x \<Rightarrow> MAX_ETAG_VER_BYTES < length x)"

definition validate_meta :: "entry \<Rightarrow> format_error + unit" where
  "validate_meta e =
     (if en_meta_kind e = MK_POSIX then
        (if en_mode e = None \<or> en_uid e = None \<or> en_gid e = None \<or> en_mtime_ns e = None
         then Inl (InvalidEntry ''posix entry requires mode/uid/gid/mtime'') else Inr ())
      else if en_meta_kind e = MK_SFTP then
        (if en_mtime_ns e = None then Inl (InvalidEntry ''sftp entry requires mtime'')
         else if is_some (en_ctime_ns e) \<or> is_some (en_dev e) \<or> is_some (en_inode e)
           \<or> is_some (en_nlink e) \<or> is_some (en_xattrs e) \<or> is_some (en_etag e) \<or> is_some (en_vern e)
         then Inl (InvalidEntry ''sftp entry must not carry posix/s3 fields'') else Inr ())
      else if en_meta_kind e = MK_S3 then
        (if over_limit (en_etag e) then Inl (InvalidEntry ''s3 etag exceeds 1024 bytes'')
         else if over_limit (en_vern e) then Inl (InvalidEntry ''s3 vern exceeds 1024 bytes'')
         else if is_some (en_mode e) \<or> is_some (en_uid e) \<or> is_some (en_gid e)
           \<or> is_some (en_ctime_ns e) \<or> is_some (en_dev e) \<or> is_some (en_inode e)
           \<or> is_some (en_nlink e) \<or> is_some (en_xattrs e)
         then Inl (InvalidEntry ''s3 entry must not carry posix fields'') else Inr ())
      else
        (if is_some (en_mode e) \<or> is_some (en_uid e) \<or> is_some (en_gid e)
           \<or> is_some (en_ctime_ns e) \<or> is_some (en_dev e) \<or> is_some (en_inode e)
           \<or> is_some (en_nlink e) \<or> is_some (en_xattrs e) \<or> is_some (en_etag e) \<or> is_some (en_vern e)
         then Inl (InvalidEntry ''generic entry carries mtime only'') else Inr ()))"

definition entry_validate :: "entry \<Rightarrow> format_error + unit" where
  "entry_validate e =
     (if name_is_bad (en_name e)
      then Inl (InvalidEntry ''name must be a single clean path component'')
      else if \<not> (en_kind e = NT_FILE \<or> en_kind e = NT_DIR \<or> en_kind e = NT_SYMLINK)
      then Inl (InvalidEntry ''unknown node type'')
      else if \<not> meta_kind_is_valid (en_meta_kind e)
      then Inl (InvalidEntry ''unknown metadata kind'')
      else and_then (validate_node e) (\<lambda>_. and_then (validate_content e) (\<lambda>_. validate_meta e)))"

text \<open>\<open>de_xattrs_strict\<close>: the decoded pairs go into a map (here sorted by key) one after the
  other, and a key that is already there is an error.\<close>

fun de_xattrs_loop :: "(bytes \<times> bytes) list \<Rightarrow> (bytes \<times> bytes) list \<Rightarrow> string + (bytes \<times> bytes) list" where
  "de_xattrs_loop m [] = Inr m"
| "de_xattrs_loop m ((k, v) # rest) =
     (if k \<in> fst ` set m then Inl ''duplicate xattr key''
      else de_xattrs_loop (insort_key fst (k, v) m) rest)"

definition de_xattrs_strict :: "(bytes \<times> bytes) list \<Rightarrow> string + (bytes \<times> bytes) list option" where
  "de_xattrs_strict kvs = (case de_xattrs_loop [] kvs of Inl e \<Rightarrow> Inl e | Inr m \<Rightarrow> Inr (Some m))"

definition xattrs_is_absent :: "(bytes \<times> bytes) list option \<Rightarrow> bool" where
  "xattrs_is_absent v = (case v of None \<Rightarrow> True | Some m \<Rightarrow> m = [])"

definition opt_bytes_is_absent :: "bytes option \<Rightarrow> bool" where
  "opt_bytes_is_absent v = (case v of None \<Rightarrow> True | Some b \<Rightarrow> b = [])"

section \<open>Directory objects\<close>

definition new_tree :: "entry list \<Rightarrow> tree_id option \<Rightarrow> tree" where
  "new_tree es p = \<lparr>tr_version = FORMAT_VERSION, tr_entries = es, tr_prev = p\<rparr>"

fun entries_validate :: "bytes option \<Rightarrow> entry list \<Rightarrow> format_error + unit" where
  "entries_validate prev_name [] = Inr ()"
| "entries_validate prev_name (e # es) =
     and_then (entry_validate e) (\<lambda>_.
       if (case prev_name of None \<Rightarrow> False | Some p \<Rightarrow> en_name e \<le> p)
       then Inl (InvalidEntry ''entries must be sorted by name with no duplicates'')
       else entries_validate (Some (en_name e)) es)"

definition tree_validate :: "tree \<Rightarrow> format_error + unit" where
  "tree_validate t =
     (if tr_version t \<noteq> FORMAT_VERSION then Inl (UnsupportedVersion ''tree'' (tr_version t))
      else entries_validate None (tr_entries t))"

definition parse_tree :: "tree codec \<Rightarrow> bytes \<Rightarrow> format_error + tree" where
  "parse_tree codec data =
     and_then (cbor_decode_as codec data) (\<lambda>t. and_then (tree_validate t) (\<lambda>_. Inr t))"

record chunk_list =
  cl_version :: nat
  cl_chunks :: "chunk_id list"

definition new_chunk_list :: "chunk_id list \<Rightarrow> chunk_list" where
  "new_chunk_list cs = \<lparr>cl_version = FORMAT_VERSION, cl_chunks = cs\<rparr>"

definition parse_chunk_list :: "chunk_list codec \<Rightarrow> bytes \<Rightarrow> format_error + chunk_list" where
  "parse_chunk_list codec data =
     and_then (cbor_decode_as codec data) (\<lambda>l.
       if cl_version l \<noteq> FORMAT_VERSION
       then Inl (UnsupportedVersion ''chunk list'' (cl_version l)) else Inr l)"

section \<open>Snapshots\<close>

record root =
  rt_path :: bytes
  rt_tree :: tree_id

record snapshot_stats =
  ss_files :: nat
  ss_dirs :: nat
  ss_symlinks :: nat
  ss_bytes :: nat

record snapshot =
  sn_version :: nat
  sn_roots :: "root list"
  sn_time_ns :: int
  sn_host :: string
  sn_user :: string
  sn_client_id :: bytes
  sn_parent :: "string option"
  sn_stats :: snapshot_stats

fun roots_validate :: "bytes option \<Rightarrow> root list \<Rightarrow> format_error + unit" where
  "roots_validate prev [] = Inr ()"
| "roots_validate prev (r # rs) =
     (if rt_path r = [] then Inl (InvalidSnapshot ''empty root path'')
      else if tree_is_zero (rt_tree r) then Inl (InvalidSnapshot ''root tree id must not be zero'')
      else if (case prev of None \<Rightarrow> False | Some p \<Rightarrow> rt_path r \<le> p)
      then Inl (InvalidSnapshot ''roots must be sorted by path with no duplicates'')
      else roots_validate (Some (rt_path r)) rs)"

definition snapshot_validate :: "snapshot \<Rightarrow> format_error + unit" where
  "snapshot_validate s =
     (if sn_version s \<noteq> FORMAT_VERSION then Inl (UnsupportedVersion ''snapshot'' (sn_version s))
      else if sn_roots s = [] then Inl (InvalidSnapshot ''snapshot must carry at least one root'')
      else roots_validate None (sn_roots s))"

definition parse_snapshot :: "snapshot codec \<Rightarrow> bytes \<Rightarrow> format_error + snapshot" where
  "parse_snapshot codec data =
     and_then (cbor_decode_as codec data) (\<lambda>s. and_then (snapshot_validate s) (\<lambda>_. Inr s))"

section \<open>The reference tables\<close>

datatype meta_field = Mode | Uid | Gid | Mtime | Ctime | Dev | Ino | Nlink | Xattrs | Etag | Vern

fun has_field :: "entry \<Rightarrow> meta_field \<Rightarrow> bool" where
  "has_field e Mode = is_some (en_mode e)"
| "has_field e Uid = is_some (en_uid e)"
| "has_field e Gid = is_some (en_gid e)"
| "has_field e Mtime = is_some (en_mtime_ns e)"
| "has_field e Ctime = is_some (en_ctime_ns e)"
| "has_field e Dev = is_some (en_dev e)"
| "has_field e Ino = is_some (en_inode e)"
| "has_field e Nlink = is_some (en_nlink e)"
| "has_field e Xattrs = is_some (en_xattrs e)"
| "has_field e Etag = is_some (en_etag e)"
| "has_field e Vern = is_some (en_vern e)"

definition required_fields :: "nat \<Rightarrow> meta_field set" where
  "required_fields mk = (if mk = 0 then {Mode, Uid, Gid, Mtime} else if mk = 1 then {Mtime} else {})"

definition forbidden_fields :: "nat \<Rightarrow> meta_field set" where
  "forbidden_fields mk =
     (if mk = 0 then {} else if mk = 1 then {Ctime, Dev, Ino, Nlink, Xattrs, Etag, Vern}
      else if mk = 2 then {Mode, Uid, Gid, Ctime, Dev, Ino, Nlink, Xattrs}
      else {Mode, Uid, Gid, Ctime, Dev, Ino, Nlink, Xattrs, Etag, Vern})"

definition entry_well_formed :: "entry \<Rightarrow> bool" where
  "entry_well_formed e \<longleftrightarrow>
     \<not> name_is_bad (en_name e) \<and> en_kind e \<in> {0, 1, 2} \<and> en_meta_kind e \<in> {0, 1, 2, 3}
     \<and> (en_target e \<noteq> [] \<longleftrightarrow> en_kind e = 2) \<and> (en_subtree e \<noteq> TREE_ZERO \<longleftrightarrow> en_kind e = 1)
     \<and> (en_kind e \<noteq> 0 \<longrightarrow> en_size e = 0 \<and> en_chunks e = [])
     \<and> (en_content e = 1 \<or> en_content e = 0 \<and> length (en_chunks e) \<le> 256)
     \<and> (\<forall>f \<in> required_fields (en_meta_kind e). has_field e f)
     \<and> (\<forall>f \<in> forbidden_fields (en_meta_kind e). \<not> has_field e f)
     \<and> (en_meta_kind e = 2 \<longrightarrow> \<not> over_limit (en_etag e) \<and> \<not> over_limit (en_vern e))"

lemma validate_node_iff:
  "en_kind e \<in> {0, 1, 2} \<Longrightarrow> validate_node e = Inr () \<longleftrightarrow>
     (en_target e \<noteq> [] \<longleftrightarrow> en_kind e = 2) \<and> (en_subtree e \<noteq> TREE_ZERO \<longleftrightarrow> en_kind e = 1)
     \<and> (en_kind e \<noteq> 0 \<longrightarrow> en_size e = 0 \<and> en_chunks e = [])"
  by (auto simp: validate_node_def node_consts tree_is_zero_def)

lemma validate_meta_iff:
  "en_meta_kind e \<in> {0, 1, 2, 3} \<Longrightarrow> validate_meta e = Inr () \<longleftrightarrow>
     (\<forall>f \<in> required_fields (en_meta_kind e). has_field e f)
     \<and> (\<forall>f \<in> forbidden_fields (en_meta_kind e). \<not> has_field e f)
     \<and> (en_meta_kind e = 2 \<longrightarrow> \<not> over_limit (en_etag e) \<and> \<not> over_limit (en_vern e))"
  by (auto simp: validate_meta_def node_consts required_fields_def forbidden_fields_def is_some_def)

lemma entry_validate_iff: "entry_validate e = Inr () \<longleftrightarrow> entry_well_formed e"
proof -
  have k: "en_kind e = NT_FILE \<or> en_kind e = NT_DIR \<or> en_kind e = NT_SYMLINK \<longleftrightarrow> en_kind e \<in> {0, 1, 2}"
    by (auto simp: node_consts)
  have m: "meta_kind_is_valid (en_meta_kind e) \<longleftrightarrow> en_meta_kind e \<in> {0, 1, 2, 3}"
    by (auto simp: meta_kind_is_valid_def node_consts)
  have c: "validate_content e = Inr () \<longleftrightarrow>
      (en_content e = 1 \<or> en_content e = 0 \<and> length (en_chunks e) \<le> 256)
      \<and> (en_kind e \<noteq> 0 \<longrightarrow> en_chunks e = [])"
    by (auto simp: validate_content_def node_consts MAX_INLINE_CHUNKS_def)
  show ?thesis
    unfolding entry_validate_def entry_well_formed_def k m
    using validate_node_iff [of e] validate_meta_iff [of e] c
    by (simp add: result_simps) blast
qed

lemma entries_validate_iff:
  "entries_validate p es = Inr () \<longleftrightarrow>
     (\<forall>e \<in> set es. entry_well_formed e) \<and> sorted_wrt (<) (map en_name es)
     \<and> (\<forall>q. p = Some q \<longrightarrow> (\<forall>e \<in> set es. q < en_name e))"
proof (induction es arbitrary: p)
  case Nil
  then show ?case by simp
next
  case (Cons e es)
  show ?case
    by (cases p) (auto simp: result_simps entry_validate_iff Cons.IH not_le intro: less_trans)
qed

lemma roots_validate_iff:
  "roots_validate p rs = Inr () \<longleftrightarrow>
     (\<forall>r \<in> set rs. rt_path r \<noteq> [] \<and> rt_tree r \<noteq> TREE_ZERO) \<and> sorted_wrt (<) (map rt_path rs)
     \<and> (\<forall>q. p = Some q \<longrightarrow> (\<forall>r \<in> set rs. q < rt_path r))"
proof (induction rs arbitrary: p)
  case Nil
  then show ?case by simp
next
  case (Cons r rs)
  show ?case
    by (cases p) (auto simp: Cons.IH not_le tree_is_zero_def intro: less_trans)
qed

lemma sorted_names_distinct: "sorted_wrt (<) (xs :: 'a :: linorder list) \<Longrightarrow> distinct xs"
  by (induction xs) auto

lemma tree_validate_iff:
  "tree_validate t = Inr () \<longleftrightarrow> tr_version t = 3 \<and> (\<forall>e \<in> set (tr_entries t). entry_well_formed e)
     \<and> sorted_wrt (<) (map en_name (tr_entries t))"
  by (simp add: tree_validate_def entries_validate_iff FORMAT_VERSION_def)

lemma snapshot_validate_iff:
  "snapshot_validate s = Inr () \<longleftrightarrow> sn_version s = 3 \<and> sn_roots s \<noteq> []
     \<and> (\<forall>r \<in> set (sn_roots s). rt_path r \<noteq> [] \<and> rt_tree r \<noteq> TREE_ZERO)
     \<and> sorted_wrt (<) (map rt_path (sn_roots s))"
  by (simp add: snapshot_validate_def roots_validate_iff FORMAT_VERSION_def)

text \<open>C11: decoding a directory accepts exactly the directories of the format: version 3, strictly
  ascending names (so a name occurs once), and every entry within the table of its node type
  and metadata kind - required fields present, forbidden fields absent, one clean path
  component as its name - so that nothing a reader restores can leave its directory.\<close>

theorem parse_tree_iff_well_formed:
  "parse_tree codec data = Inr t \<longleftrightarrow>
     cbor_decode_as codec data = Inr t \<and> tr_version t = 3
     \<and> sorted_wrt (<) (map en_name (tr_entries t))
     \<and> (\<forall>e \<in> set (tr_entries t). entry_well_formed e)"
  by (auto simp: parse_tree_def tree_validate_iff result_simps)

theorem parse_tree_iff_well_formed_witness:
  "let e = \<lparr>en_name = [97], en_kind = 0, en_meta_kind = 3, en_size = 0, en_target = [],
       en_content = 0, en_chunks = [], en_subtree = TREE_ZERO, en_mode = None, en_uid = None,
       en_gid = None, en_mtime_ns = None, en_ctime_ns = None, en_dev = None, en_inode = None,
       en_nlink = None, en_xattrs = None, en_etag = None, en_vern = None\<rparr>
   in parse_tree (demo_codec [new_tree [e] None]) [0] = Inr (new_tree [e] None)"
  unfolding Let_def
  by (subst parse_tree_iff_well_formed)
    (simp add: new_tree_def FORMAT_VERSION_def entry_well_formed_def name_is_bad_def ascii_def
      required_fields_def forbidden_fields_def over_limit_def)

lemma de_xattrs_loop_iff:
  "de_xattrs_loop m kvs = Inr r \<longleftrightarrow>
     distinct (map fst kvs) \<and> fst ` set kvs \<inter> fst ` set m = {} \<and> r = foldl (\<lambda>m kv. insort_key fst kv m) m kvs"
  by (induction m kvs rule: de_xattrs_loop.induct) (auto simp: set_insort_key image_iff)

lemma foldl_insort_attrs:
  "sorted (map fst m) \<Longrightarrow> sorted (map fst (foldl (\<lambda>m kv. insort_key fst kv m) m kvs))
     \<and> set (foldl (\<lambda>m kv. insort_key fst kv m) m kvs) = set m \<union> set kvs"
  by (induction kvs arbitrary: m) (auto simp: sorted_insort_key set_insort_key)

text \<open>decoding extended attributes loses nothing: it succeeds exactly when no key is given
  twice, and then the result is the given pairs, sorted by key.\<close>

theorem de_xattrs_strict_iff:
  "(is_ok (de_xattrs_strict kvs) \<longleftrightarrow> distinct (map fst kvs))
   \<and> (\<forall>r. de_xattrs_strict kvs = Inr r \<longrightarrow>
        (\<exists>m. r = Some m \<and> set m = set kvs \<and> sorted (map fst m)))"
proof (cases "distinct (map fst kvs)")
  case True
  let ?m = "foldl (\<lambda>m kv. insort_key fst kv m) [] kvs"
  have "de_xattrs_loop [] kvs = Inr ?m" using True by (simp add: de_xattrs_loop_iff)
  with True foldl_insort_attrs [of "[]" kvs] show ?thesis by (simp add: de_xattrs_strict_def)
next
  case False
  then have "\<And>r. de_xattrs_loop [] kvs \<noteq> Inr r" by (simp add: de_xattrs_loop_iff)
  then obtain e where "de_xattrs_loop [] kvs = Inl e" by (cases "de_xattrs_loop [] kvs") auto
  with False show ?thesis by (simp add: de_xattrs_strict_def)
qed

theorem de_xattrs_strict_witness:
  "de_xattrs_strict [([2], [9]), ([1], [8])] = Inr (Some [([1], [8]), ([2], [9])])
   \<and> \<not> is_ok (de_xattrs_strict [([2], [9]), ([2], [8])])"
  using de_xattrs_strict_iff [of "[([2], [9]), ([2], [8])]"]
  by (simp add: de_xattrs_strict_def)

end
