(* ===== verification/Pack_Parity.thy ===== *)
theory Pack_Parity
  imports Config_Format
begin

text \<open>
  \<open>crates/kist-format/src/parity.rs\<close>: the optional parity object of a pack, 16 data shards and
  \<open>m\<close> parity shards with the hash of each. The Reed-Solomon arithmetic is the crate
  \<open>reed_solomon_erasure\<close>, a parameter (\<open>rs_coder\<close>); \<open>rs_ok\<close> states its contract, that any
  \<open>m\<close> erasures can be rebuilt. \<open>xor_coder\<close> is a real code for one parity shard that
  satisfies it. The slices and indexings of \<open>repair\<close> cannot be out of range for an object
  that \<open>parse\<close> accepts; the model gives them total meanings.
\<close>

definition DATA_SHARDS :: nat where "DATA_SHARDS = 16"
definition MAX_PARITY_SHARDS :: nat where "MAX_PARITY_SHARDS = 8"
definition MAX_SHARD_LEN :: nat where "MAX_SHARD_LEN = 64 * 2 ^ 20"

record parity_object =
  po_v :: nat
  po_k :: nat
  po_m :: nat
  po_pack_size :: nat
  po_shard_len :: nat
  po_hashes :: "object_id list"
  po_parity :: "bytes list"

record rs_coder =
  rs_encode :: "nat \<Rightarrow> nat \<Rightarrow> bytes list \<Rightarrow> string + bytes list"
  rs_reconstruct :: "nat \<Rightarrow> nat \<Rightarrow> bytes option list \<Rightarrow> string + bytes option list"

definition split_shards :: "bytes \<Rightarrow> nat \<Rightarrow> nat \<Rightarrow> bytes list" where
  "split_shards pack shard_len m =
     (let padded = pack @ replicate (DATA_SHARDS * shard_len - length pack) 0
      in map (\<lambda>i. slice (i * shard_len) ((i + 1) * shard_len) padded) [0..<DATA_SHARDS]
         @ replicate m (replicate shard_len 0))"

definition pad_or_trim :: "bytes \<Rightarrow> nat \<Rightarrow> bytes" where
  "pad_or_trim damaged sz =
     (let n = min (length damaged) sz in take n damaged @ replicate (sz - n) 0)"

definition parity_encode ::
  "ext \<Rightarrow> rs_coder \<Rightarrow> parity_object codec \<Rightarrow> object_id \<Rightarrow> bytes \<Rightarrow> nat \<Rightarrow> format_error + bytes" where
  "parity_encode ext rs codec pack_id pack m =
     (if \<not> (1 \<le> m \<and> m \<le> MAX_PARITY_SHARDS) then Inl (ParityCorrupt ''parity shards'')
      else if pack = [] then Inl (ParityCorrupt ''empty pack'')
      else if object_id_of ext pack \<noteq> pack_id then Inl (ParityCorrupt ''pack hashes to'')
      else let shard_len = div_ceil (length pack) DATA_SHARDS
        in if shard_len > MAX_SHARD_LEN then Inl (ParityCorrupt ''over the limit'')
        else and_then (map_err (\<lambda>_. ParityCorrupt ''encode'')
               (rs_encode rs DATA_SHARDS m (split_shards pack shard_len m))) (\<lambda>shards.
          cbor_encode codec
            \<lparr>po_v = FORMAT_VERSION, po_k = DATA_SHARDS, po_m = m, po_pack_size = length pack,
             po_shard_len = shard_len, po_hashes = map (object_id_of ext) shards,
             po_parity = drop DATA_SHARDS shards\<rparr>))"

definition parity_validate :: "parity_object \<Rightarrow> format_error + unit" where
  "parity_validate o' =
     (if po_v o' \<noteq> FORMAT_VERSION then Inl (ParityCorrupt ''version'')
      else if po_k o' \<noteq> DATA_SHARDS then Inl (ParityCorrupt ''data shards'')
      else if \<not> (1 \<le> po_m o' \<and> po_m o' \<le> MAX_PARITY_SHARDS) then Inl (ParityCorrupt ''parity shards, want'')
      else if po_shard_len o' = 0 \<or> po_shard_len o' > MAX_SHARD_LEN then Inl (ParityCorrupt ''shard length'')
      else if po_pack_size o' = 0 \<or> div_ceil (po_pack_size o') DATA_SHARDS \<noteq> po_shard_len o'
      then Inl (ParityCorrupt ''pack size does not fit'')
      else if length (po_hashes o') \<noteq> DATA_SHARDS + po_m o' then Inl (ParityCorrupt ''hashes'')
      else if length (po_parity o') \<noteq> po_m o' then Inl (ParityCorrupt ''parity shards, header says'')
      else if list_ex (\<lambda>p. length p \<noteq> po_shard_len o') (po_parity o')
      then Inl (ParityCorrupt ''parity shard is'')
      else Inr ())"

definition parity_parse :: "parity_object codec \<Rightarrow> bytes \<Rightarrow> format_error + parity_object" where
  "parity_parse codec data =
     and_then (cbor_decode_as codec data) (\<lambda>o'. and_then (parity_validate o') (\<lambda>_. Inr o'))"

definition mark_erasures :: "ext \<Rightarrow> object_id list \<Rightarrow> bytes list \<Rightarrow> bytes list" where
  \<comment> \<open>a shard whose hash is not the recorded one becomes the empty vector\<close>
  "mark_erasures ext hashes shards =
     map (\<lambda>(s, h). if object_id_of ext s \<noteq> h then [] else s) (zip shards hashes)"

definition count_erasures :: "ext \<Rightarrow> object_id list \<Rightarrow> bytes list \<Rightarrow> nat" where
  "count_erasures ext hashes shards =
     length (filter (\<lambda>(s, h). object_id_of ext s \<noteq> h) (zip shards hashes))"

definition shard_options :: "bytes list \<Rightarrow> bytes option list" where
  "shard_options shards = map (\<lambda>s. if s = [] then None else Some s) shards"

definition flatten_options :: "'a list option list \<Rightarrow> 'a list" where
  "flatten_options os = concat (map (\<lambda>x. case x of None \<Rightarrow> [] | Some s \<Rightarrow> s) os)"

definition parity_repair ::
  "ext \<Rightarrow> rs_coder \<Rightarrow> parity_object \<Rightarrow> object_id \<Rightarrow> bytes \<Rightarrow> format_error + bytes" where
  "parity_repair ext rs o' pack_id damaged =
     (let m = po_m o'; shard_len = po_shard_len o'; pack_size = po_pack_size o';
          padded = pad_or_trim damaged pack_size;
          shards = take DATA_SHARDS (split_shards padded shard_len m) @ po_parity o';
          erasures = count_erasures ext (po_hashes o') shards
      in if erasures = 0 then
           (if object_id_of ext padded = pack_id then Inr padded
            else Inl (Unrepairable ''the parity is not for this pack''))
         else if erasures > m then Inl (Unrepairable ''shards are damaged, parity can rebuild'')
         else and_then (map_err (\<lambda>_. Unrepairable ''reconstruct'')
                (rs_reconstruct rs DATA_SHARDS m
                  (shard_options (mark_erasures ext (po_hashes o') shards)))) (\<lambda>options.
           let out = take pack_size (flatten_options (take DATA_SHARDS options))
           in if object_id_of ext out \<noteq> pack_id
              then Inl (Unrepairable ''the parity is wrong or forged'') else Inr out))"

section \<open>The coder's contract and a code that keeps it\<close>

definition rebuilds :: "rs_coder \<Rightarrow> nat \<Rightarrow> nat \<Rightarrow> bytes list \<Rightarrow> bool" where
  "rebuilds rs k m shards \<longleftrightarrow> (\<forall>opts. length opts = length shards
      \<and> (\<forall>i < length shards. opts ! i = None \<or> opts ! i = Some (shards ! i))
      \<and> length (filter (\<lambda>x. x = None) opts) \<le> m
      \<longrightarrow> rs_reconstruct rs k m opts = Inr (map Some shards))"

definition rs_ok :: "rs_coder \<Rightarrow> nat \<Rightarrow> nat \<Rightarrow> bool" where
  "rs_ok rs k m \<longleftrightarrow> (\<forall>n ds ps. 0 < n \<longrightarrow> length ds = k \<longrightarrow> length ps = m
      \<longrightarrow> (\<forall>s \<in> set (ds @ ps). length s = n)
      \<longrightarrow> (\<exists>par. rs_encode rs k m (ds @ ps) = Inr (ds @ par) \<and> length par = m
             \<and> (\<forall>s \<in> set par. length s = n) \<and> rebuilds rs k m (ds @ par)))"

definition xor_bytes :: "bytes \<Rightarrow> bytes \<Rightarrow> bytes" where
  "xor_bytes = map2 (XOR)"

definition xor_all :: "nat \<Rightarrow> bytes list \<Rightarrow> bytes" where
  "xor_all n ss = foldr xor_bytes ss (replicate n 0)"

definition xor_coder :: rs_coder where
  "xor_coder = \<lparr>
     rs_encode = (\<lambda>k m ss. Inr (take k ss @ [xor_all (length (hd ss)) (take k ss)])),
     rs_reconstruct = (\<lambda>k m os.
       let known = concat (map (\<lambda>x. case x of None \<Rightarrow> [] | Some s \<Rightarrow> [s]) os)
       in Inr (map (\<lambda>x. case x of None \<Rightarrow> Some (xor_all (length (hd known)) known) | Some s \<Rightarrow> Some s) os))\<rparr>"

lemma length_xor_bytes [simp]: "length (xor_bytes a b) = min (length a) (length b)"
  by (simp add: xor_bytes_def)

lemma length_xor_all: "\<forall>s \<in> set ss. length s = n \<Longrightarrow> length (xor_all n ss) = n"
  by (induction ss) (simp_all add: xor_all_def)

lemma xor_bytes_assoc:
  "length a = length b \<Longrightarrow> length b = length c \<Longrightarrow> xor_bytes (xor_bytes a b) c = xor_bytes a (xor_bytes b c)"
  by (rule nth_equalityI) (simp_all add: xor_bytes_def xor.assoc)

lemma xor_bytes_commute: "length a = length b \<Longrightarrow> xor_bytes a b = xor_bytes b a"
  by (rule nth_equalityI) (simp_all add: xor_bytes_def xor.commute)

lemma xor_bytes_self: "length a = n \<Longrightarrow> length b = n \<Longrightarrow> xor_bytes a (xor_bytes a b) = b"
  by (rule nth_equalityI) (simp_all add: xor_bytes_def flip: xor.assoc)

lemma xor_bytes_zero: "length a = n \<Longrightarrow> xor_bytes a (replicate n 0) = a"
  by (rule nth_equalityI) (simp_all add: xor_bytes_def)

lemma xor_all_Cons: "xor_all n (s # ss) = xor_bytes s (xor_all n ss)"
  by (simp add: xor_all_def)

lemma xor_all_mid:
  "\<forall>s \<in> set (as @ b # cs). length s = n \<Longrightarrow> xor_all n (as @ b # cs) = xor_bytes b (xor_all n (as @ cs))"
proof (induction as)
  case Nil
  then show ?case by (simp add: xor_all_Cons)
next
  case (Cons a as)
  let ?r = "xor_all n (as @ cs)"
  have l: "length ?r = n" "length a = n" "length b = n"
    using Cons.prems length_xor_all [of "as @ cs" n] by auto
  have "xor_all n ((a # as) @ b # cs) = xor_bytes a (xor_bytes b ?r)"
    using Cons by (simp add: xor_all_Cons)
  also have "\<dots> = xor_bytes b (xor_bytes a ?r)"
    using l by (metis xor_bytes_assoc xor_bytes_commute)
  finally show ?case by (simp add: xor_all_Cons)
qed

lemma xor_all_parity_zero:
  assumes "\<forall>s \<in> set ds. length s = n"
  shows "xor_all n (ds @ [xor_all n ds]) = replicate n 0"
proof -
  have l: "length (xor_all n ds) = n" using assms by (rule length_xor_all)
  have "xor_all n (ds @ [xor_all n ds]) = xor_bytes (xor_all n ds) (xor_all n ds)"
    using xor_all_mid [of ds "xor_all n ds" "[]" n] assms l by auto
  then show ?thesis
    using xor_bytes_self [OF l, of "replicate n 0"] xor_bytes_zero [OF l] by simp
qed

lemma xor_missing:
  assumes "\<forall>s \<in> set (as @ b # cs). length s = n" "xor_all n (as @ b # cs) = replicate n 0"
  shows "xor_all n (as @ cs) = b"
proof -
  have l: "length (xor_all n (as @ cs)) = n" "length b = n"
    using assms length_xor_all [of "as @ cs" n] by auto
  have "xor_bytes b (xor_all n (as @ cs)) = replicate n 0" using xor_all_mid [OF assms(1)] assms(2) by simp
  then have "xor_all n (as @ cs) = xor_bytes b (replicate n 0)"
    using xor_bytes_self [OF l(2) l(1)] by metis
  then show ?thesis using xor_bytes_zero [OF l(2)] by simp
qed

lemma no_missing:
  assumes "length opts = length shards"
    "\<forall>i < length shards. opts ! i = None \<or> opts ! i = Some (shards ! i)" "None \<notin> set opts"
  shows "opts = map Some shards"
proof (rule nth_equalityI)
  show "length opts = length (map Some shards)" using assms(1) by simp
  fix i assume "i < length opts"
  then have "opts ! i \<noteq> None" using assms(3) nth_mem by metis
  with assms(1,2) \<open>i < length opts\<close> show "opts ! i = map Some shards ! i" by auto
qed

lemma one_missing:
  assumes "length opts = length shards"
    "\<forall>i < length shards. opts ! i = None \<or> opts ! i = Some (shards ! i)"
    "length (filter (\<lambda>x. x = None) opts) \<le> 1" "None \<in> set opts"
  shows "\<exists>as b cs. shards = as @ b # cs \<and> opts = map Some as @ None # map Some cs"
proof -
  from assms(4) obtain p q where o: "opts = p @ None # q" by (auto simp: in_set_conv_decomp)
  with assms(3) have nn: "None \<notin> set p" "None \<notin> set q"
    by (auto simp: filter_empty_conv)
  let ?as = "take (length p) shards" and ?b = "shards ! length p" and ?cs = "drop (Suc (length p)) shards"
  have sh: "shards = ?as @ ?b # ?cs" using o assms(1) by (simp add: id_take_nth_drop)
  have "p = map Some ?as"
    using o assms(1,2) nn(1)
    by (intro no_missing) (auto simp: nth_append split: if_splits)
  moreover have "q = map Some ?cs"
  proof (rule no_missing [OF _ _ nn(2)])
    show "length q = length ?cs" using o assms(1) by simp
    show "\<forall>i < length ?cs. q ! i = None \<or> q ! i = Some (?cs ! i)"
    proof (intro allI impI)
      fix i assume "i < length ?cs"
      then have "Suc (length p) + i < length shards" by simp
      with assms(2) have "opts ! (Suc (length p) + i) = None
          \<or> opts ! (Suc (length p) + i) = Some (shards ! (Suc (length p) + i))" by blast
      then show "q ! i = None \<or> q ! i = Some (?cs ! i)"
        using o \<open>i < length ?cs\<close> by (simp add: nth_append)
    qed
  qed
  ultimately show ?thesis using sh o by metis
qed

lemma xor_rebuilds:
  assumes "\<forall>s \<in> set shards. length s = n" "xor_all n shards = replicate n 0" "2 \<le> length shards"
  shows "rebuilds xor_coder k 1 shards"
  unfolding rebuilds_def
proof (intro allI impI, elim conjE)
  fix opts
  assume o: "length opts = length shards"
    "\<forall>i < length shards. opts ! i = None \<or> opts ! i = Some (shards ! i)"
    "length (filter (\<lambda>x. x = None) opts) \<le> 1"
  have cm: "concat (map (\<lambda>x. case x of None \<Rightarrow> [] | Some s \<Rightarrow> [s]) (map Some xs)) = xs" for xs :: "bytes list"
    by (induction xs) simp_all
  have mm: "map (\<lambda>x. case x of None \<Rightarrow> Some z | Some s \<Rightarrow> Some s) (map Some xs) = map Some xs" for xs :: "bytes list" and z
    by (induction xs) simp_all
  show "rs_reconstruct xor_coder k 1 opts = Inr (map Some shards)"
  proof (cases "None \<in> set opts")
    case False
    show ?thesis
      unfolding no_missing [OF o(1,2) False]
      by (simp add: xor_coder_def Let_def mm del: map_map)
  next
    case True
    from one_missing [OF o True] obtain as b cs
      where sh: "shards = as @ b # cs" and op: "opts = map Some as @ None # map Some cs" by blast
    have hd: "length (hd (as @ cs)) = n"
      using assms(1,3) sh by (cases "as @ cs") (auto simp: append_eq_Cons_conv)
    have "xor_all n (as @ cs) = b" using xor_missing assms sh by blast
    with hd show ?thesis
      by (simp add: xor_coder_def op Let_def cm mm sh del: map_map)
  qed
qed

lemma xor_coder_ok: "1 \<le> k \<Longrightarrow> rs_ok xor_coder k 1"
  unfolding rs_ok_def
proof (intro allI impI)
  fix n :: nat and ds ps :: "bytes list"
  assume a: "1 \<le> k" "length ds = k" "length ps = 1" "\<forall>s \<in> set (ds @ ps). length s = n"
  let ?p = "xor_all n ds"
  have "length (hd (ds @ ps)) = n" using a by (cases ds) auto
  then have "rs_encode xor_coder k 1 (ds @ ps) = Inr (ds @ [?p])"
    using a by (simp add: xor_coder_def)
  moreover have l: "length ?p = n" using a by (intro length_xor_all) simp
  moreover have "rebuilds xor_coder k 1 (ds @ [?p])"
    using a l xor_all_parity_zero [of ds n] by (intro xor_rebuilds [of _ n]) auto
  ultimately show "\<exists>par. rs_encode xor_coder k 1 (ds @ ps) = Inr (ds @ par) \<and> length par = 1
      \<and> (\<forall>s \<in> set par. length s = n) \<and> rebuilds xor_coder k 1 (ds @ par)"
    by (intro exI [of _ "[?p]"]) simp
qed

section \<open>Splitting and joining\<close>

lemma length_split_shards [simp]: "length (split_shards pack n m) = DATA_SHARDS + m"
  by (simp add: split_shards_def Let_def)

lemma split_shards_data:
  "take DATA_SHARDS (split_shards pack n m) =
     map (\<lambda>i. slice (i * n) ((i + 1) * n) (pack @ replicate (DATA_SHARDS * n - length pack) 0)) [0..<DATA_SHARDS]"
  by (simp add: split_shards_def Let_def)

lemma split_shards_lengths:
  assumes "length pack \<le> DATA_SHARDS * n" "s \<in> set (split_shards pack n m)"
  shows "length s = n"
proof -
  let ?p = "pack @ replicate (DATA_SHARDS * n - length pack) 0"
  have lp: "length ?p = DATA_SHARDS * n" using assms(1) by simp
  have "length (slice (i * n) ((i + 1) * n) ?p) = n" if "i < DATA_SHARDS" for i
  proof -
    have "(i + 1) * n \<le> DATA_SHARDS * n" using that by (intro mult_right_mono) auto
    with lp have "length (slice (i * n) ((i + 1) * n) ?p) = (i + 1) * n - i * n"
      by (intro length_slice) simp
    then show ?thesis by simp
  qed
  with assms(2) show ?thesis by (auto simp: split_shards_def Let_def)
qed

lemma concat_slices:
  "concat (map (\<lambda>i. slice (i * n) ((i + 1) * n) xs) [0..<k]) = take (k * n) xs"
proof (induction k)
  case 0
  then show ?case by simp
next
  case (Suc k)
  have "take (Suc k * n) xs = take (k * n) xs @ take n (drop (k * n) xs)"
    by (simp add: add.commute [of n] take_add)
  with Suc show ?case by (simp add: slice_def drop_take)
qed

lemma split_shards_join:
  "length pack \<le> DATA_SHARDS * n \<Longrightarrow>
     take (length pack) (concat (take DATA_SHARDS (split_shards pack n m))) = pack"
  unfolding split_shards_data concat_slices by simp

lemma div_ceil_shards: "length pack \<le> DATA_SHARDS * div_ceil (length pack) DATA_SHARDS"
  by (rule div_ceil_mult_ge) (simp add: DATA_SHARDS_def)

lemma length_pad_or_trim [simp]: "length (pad_or_trim d n) = n"
  by (simp add: pad_or_trim_def Let_def)

lemma flatten_map_Some: "flatten_options (map Some xs) = concat xs"
  by (induction xs) (simp_all add: flatten_options_def)

lemma pad_or_trim_shard_eq:
  assumes "length p = k" "k \<le> DATA_SHARDS * n"
    "take DATA_SHARDS (split_shards (pad_or_trim d k) n m) = take DATA_SHARDS (split_shards p n m)"
  shows "pad_or_trim d k = p"
  using split_shards_join [of "pad_or_trim d k" n m] split_shards_join [of p n m] assms by simp

section \<open>Repair\<close>

lemma zip_self_map: "zip xs (map f ys) = map (\<lambda>(x, y). (x, f y)) (zip xs ys)"
  by (simp add: zip_map2)

text \<open>Damage as a relation between the shards as they were written and as they are read: the
  recorded hash betrays every shard that changed.\<close>

definition damage_detected :: "ext \<Rightarrow> bytes list \<Rightarrow> bytes list \<Rightarrow> bool" where
  "damage_detected ext orig cur \<longleftrightarrow>
     (\<forall>(s, t) \<in> set (zip cur orig). object_id_of ext s = object_id_of ext t \<longrightarrow> s = t)"

definition damaged_shards :: "bytes list \<Rightarrow> bytes list \<Rightarrow> nat" where
  "damaged_shards orig cur = length (filter (\<lambda>(s, t). s \<noteq> t) (zip cur orig))"

lemma count_erasures_damage:
  assumes "damage_detected ext orig cur"
  shows "count_erasures ext (map (object_id_of ext) orig) cur = damaged_shards orig cur"
proof -
  have "filter ((\<lambda>(s, h). object_id_of ext s \<noteq> h) \<circ> (\<lambda>(x, y). (x, object_id_of ext y))) (zip cur orig)
      = filter (\<lambda>(s, t). s \<noteq> t) (zip cur orig)"
    using assms by (intro filter_cong) (auto simp: damage_detected_def)
  then show ?thesis
    by (simp add: count_erasures_def damaged_shards_def zip_self_map filter_map)
qed

lemma mark_erasures_damage:
  assumes "damage_detected ext orig cur"
  shows "mark_erasures ext (map (object_id_of ext) orig) cur
    = map (\<lambda>(s, t). if s \<noteq> t then [] else t) (zip cur orig)"
  using assms by (auto simp: mark_erasures_def zip_self_map damage_detected_def)

lemma shard_options_damage:
  assumes "length cur = length orig" "\<forall>s \<in> set orig. s \<noteq> []"
    "opts = shard_options (map (\<lambda>(s, t). if s \<noteq> t then [] else t) (zip cur orig))"
  shows "length opts = length orig"
    "\<forall>i < length orig. opts ! i = None \<or> opts ! i = Some (orig ! i)"
    "length (filter (\<lambda>x. x = None) opts) = damaged_shards orig cur"
proof -
  show "length opts = length orig" using assms by (simp add: shard_options_def)
  show "\<forall>i < length orig. opts ! i = None \<or> opts ! i = Some (orig ! i)"
    using assms by (simp add: shard_options_def)
  have "filter ((\<lambda>x. x = None) \<circ> (\<lambda>s. if s = [] then None else Some s) \<circ> (\<lambda>(s, t). if s \<noteq> t then [] else t))
      (zip cur orig) = filter (\<lambda>(s, t). s \<noteq> t) (zip cur orig)"
    using assms(2) by (intro filter_cong) (auto dest: set_zip_rightD)
  then show "length (filter (\<lambda>x. x = None) opts) = damaged_shards orig cur"
    by (simp add: assms(3) shard_options_def damaged_shards_def filter_map comp_assoc)
qed

lemma damaged_shards_0: "length cur = length orig \<Longrightarrow> damaged_shards orig cur = 0 \<longleftrightarrow> cur = orig"
  by (induction cur orig rule: list_induct2) (auto simp: damaged_shards_def)

lemma repair_rebuilds:
  fixes pack d :: bytes and orig cur :: "bytes list"
  assumes "0 < po_shard_len ob" "po_pack_size ob = length pack"
    "length pack \<le> DATA_SHARDS * po_shard_len ob"
    "po_hashes ob = map (object_id_of ext) orig"
    "orig = take DATA_SHARDS (split_shards pack (po_shard_len ob) (po_m ob)) @ par"
    "cur = take DATA_SHARDS (split_shards (pad_or_trim d (length pack)) (po_shard_len ob) (po_m ob)) @ po_parity ob"
    "length par = po_m ob" "\<forall>s \<in> set par. length s = po_shard_len ob"
    "length (po_parity ob) = po_m ob"
    "rebuilds rs DATA_SHARDS (po_m ob) orig" "damage_detected ext orig cur"
    "damaged_shards orig cur \<le> po_m ob"
  shows "parity_repair ext rs ob (object_id_of ext pack) d = Inr pack"
proof -
  let ?n = "po_shard_len ob" and ?m = "po_m ob"
  have len: "length cur = length orig" using assms by simp
  have cnt: "count_erasures ext (po_hashes ob) cur = damaged_shards orig cur"
    using count_erasures_damage [OF assms(11)] assms(4) by simp
  have data: "take DATA_SHARDS orig = take DATA_SHARDS (split_shards pack ?n ?m)"
    using assms(5) by simp
  show ?thesis
  proof (cases "damaged_shards orig cur = 0")
    case True
    with damaged_shards_0 [OF len] have "cur = orig" by simp
    then have "pad_or_trim d (length pack) = pack"
      using assms(3,5,6) by (intro pad_or_trim_shard_eq [of _ _ ?n _ ?m]) simp_all
    then show ?thesis
      using True cnt assms(2,6) by (simp add: parity_repair_def Let_def)
  next
    case False
    define opts where "opts = shard_options (mark_erasures ext (po_hashes ob) cur)"
    have o: "opts = shard_options (map (\<lambda>(s, t). if s \<noteq> t then [] else t) (zip cur orig))"
      using mark_erasures_damage [OF assms(11)] assms(4) by (simp add: opts_def)
    have ne: "\<forall>s \<in> set orig. s \<noteq> []"
    proof
      fix s assume "s \<in> set orig"
      then have "length s = ?n"
        using assms(5,8) split_shards_lengths [OF assms(3), of s ?m] by (auto dest: in_set_takeD)
      with assms(1) show "s \<noteq> []" by auto
    qed
    note so = shard_options_damage [OF len ne o]
    have "rs_reconstruct rs DATA_SHARDS ?m opts = Inr (map Some orig)"
      using assms(10,12) so by (simp add: rebuilds_def)
    moreover have "take (length pack) (flatten_options (take DATA_SHARDS (map Some orig))) = pack"
      unfolding take_map flatten_map_Some data by (rule split_shards_join [OF assms(3)])
    ultimately show ?thesis
      using False cnt assms(2,6,12) by (simp add: parity_repair_def Let_def opts_def)
  qed
qed

lemma parity_encode_object:
  assumes "rs_ok rs DATA_SHARDS m" "parity_encode ext rs codec pid pack m = Inr bs"
  shows "\<exists>par ob. cbor_encode codec ob = Inr bs \<and> pid = object_id_of ext pack
    \<and> 1 \<le> m \<and> m \<le> 8 \<and> pack \<noteq> []
    \<and> po_m ob = m \<and> po_v ob = FORMAT_VERSION \<and> po_k ob = DATA_SHARDS \<and> po_pack_size ob = length pack
    \<and> po_shard_len ob = div_ceil (length pack) DATA_SHARDS \<and> po_shard_len ob \<le> MAX_SHARD_LEN
    \<and> po_parity ob = par \<and> length par = m \<and> (\<forall>s \<in> set par. length s = po_shard_len ob)
    \<and> po_hashes ob = map (object_id_of ext) (take DATA_SHARDS (split_shards pack (po_shard_len ob) m) @ par)
    \<and> rebuilds rs DATA_SHARDS m (take DATA_SHARDS (split_shards pack (po_shard_len ob) m) @ par)"
proof -
  let ?n = "div_ceil (length pack) DATA_SHARDS"
  let ?s = "split_shards pack ?n m"
  from assms(2) obtain shards where m: "1 \<le> m" "m \<le> 8" "pack \<noteq> []" "?n \<le> MAX_SHARD_LEN"
    "object_id_of ext pack = pid" and enc: "rs_encode rs DATA_SHARDS m ?s = Inr shards"
    and wr: "cbor_encode codec \<lparr>po_v = FORMAT_VERSION, po_k = DATA_SHARDS, po_m = m, po_pack_size = length pack,
             po_shard_len = ?n, po_hashes = map (object_id_of ext) shards,
             po_parity = drop DATA_SHARDS shards\<rparr> = Inr bs"
    by (auto simp: parity_encode_def Let_def result_simps MAX_PARITY_SHARDS_def split: if_splits)
  have n: "0 < ?n" using m(3) by (intro div_ceil_pos) (simp_all add: DATA_SHARDS_def)
  have "\<forall>s \<in> set (take DATA_SHARDS ?s @ drop DATA_SHARDS ?s). length s = ?n"
    using split_shards_lengths [OF div_ceil_shards] by auto
  moreover have "length (take DATA_SHARDS ?s) = DATA_SHARDS" "length (drop DATA_SHARDS ?s) = m" by simp_all
  ultimately obtain par where "rs_encode rs DATA_SHARDS m (take DATA_SHARDS ?s @ drop DATA_SHARDS ?s)
      = Inr (take DATA_SHARDS ?s @ par)" "length par = m" "\<forall>s \<in> set par. length s = ?n"
    "rebuilds rs DATA_SHARDS m (take DATA_SHARDS ?s @ par)"
    using assms(1) n unfolding rs_ok_def by blast
  with enc wr m n show ?thesis
    by (intro exI [of _ par] exI conjI) (rule wr | simp)+
qed

text \<open>C2: the parity object of a pack passes the reader's checks and repairs the pack: after any
  change of the pack's bytes (its length included) and of the stored parity shards that touches
  at most \<open>m\<close> of the \<open>16 + m\<close> shards, and whose changed shards have other hashes, repair returns
  exactly the original pack.\<close>

theorem parity_repairs_damage:
  assumes "rs_ok rs DATA_SHARDS m" "codec_ok codec UNIV"
    "parity_encode ext rs codec pid pack m = Inr bs"
  shows "\<exists>ob. parity_parse codec bs = Inr ob \<and> po_m ob = m \<and>
    (\<forall>d ps. let n = po_shard_len ob;
        orig = take DATA_SHARDS (split_shards pack n m) @ po_parity ob;
        cur = take DATA_SHARDS (split_shards (pad_or_trim d (length pack)) n m) @ ps
      in length ps = m \<longrightarrow> damage_detected ext orig cur \<longrightarrow> damaged_shards orig cur \<le> m
         \<longrightarrow> parity_repair ext rs (ob\<lparr>po_parity := ps\<rparr>) pid d = Inr pack)"
proof -
  obtain par ob where o: "cbor_encode codec ob = Inr bs" "pid = object_id_of ext pack"
    "1 \<le> m" "m \<le> 8" "pack \<noteq> []"
    "po_m ob = m" "po_v ob = FORMAT_VERSION" "po_k ob = DATA_SHARDS" "po_pack_size ob = length pack"
    "po_shard_len ob = div_ceil (length pack) DATA_SHARDS" "po_shard_len ob \<le> MAX_SHARD_LEN"
    "po_parity ob = par" "length par = m" "\<forall>s \<in> set par. length s = po_shard_len ob"
    "po_hashes ob = map (object_id_of ext) (take DATA_SHARDS (split_shards pack (po_shard_len ob) m) @ par)"
    "rebuilds rs DATA_SHARDS m (take DATA_SHARDS (split_shards pack (po_shard_len ob) m) @ par)"
    using parity_encode_object [OF assms(1,3)] by (elim exE conjE) (rule that; assumption)
  have n: "0 < po_shard_len ob"
    unfolding o(10) using o(5) by (intro div_ceil_pos) (simp_all add: DATA_SHARDS_def)
  have "cbor_decode_as codec bs = Inr ob" using codec_roundtrip [OF assms(2) _ o(1)] by simp
  moreover have "parity_validate ob = Inr ()"
    using o n by (simp add: parity_validate_def MAX_PARITY_SHARDS_def list_ex_iff)
  ultimately have "parity_parse codec bs = Inr ob" by (simp add: parity_parse_def)
  moreover have "parity_repair ext rs (ob\<lparr>po_parity := ps\<rparr>) pid d = Inr pack"
    if "length ps = m"
      "damage_detected ext (take DATA_SHARDS (split_shards pack (po_shard_len ob) m) @ par)
        (take DATA_SHARDS (split_shards (pad_or_trim d (length pack)) (po_shard_len ob) m) @ ps)"
      "damaged_shards (take DATA_SHARDS (split_shards pack (po_shard_len ob) m) @ par)
        (take DATA_SHARDS (split_shards (pad_or_trim d (length pack)) (po_shard_len ob) m) @ ps) \<le> m"
    for ps d
    unfolding o(2)
    by (rule repair_rebuilds [where par = par])
      (use that o n div_ceil_shards [of pack] in \<open>simp_all\<close>)
  ultimately show ?thesis using o(6,12) by (auto simp: Let_def)
qed

theorem parity_repairs_damage_witness:
  "\<exists>codec bs ob. parity_encode demo_ext xor_coder codec (ObjectId (pad32 [1, 2])) [1, 2] 1 = Inr bs
     \<and> parity_parse codec bs = Inr ob
     \<and> parity_repair demo_ext xor_coder (ob\<lparr>po_parity := [[3]]\<rparr>) (ObjectId (pad32 [1, 2])) [1, 9, 9] = Inr [1, 2]"
proof -
  define ob where "ob = \<lparr>po_v = FORMAT_VERSION, po_k = DATA_SHARDS, po_m = 1, po_pack_size = 2, po_shard_len = 1,
    po_hashes = map (object_id_of demo_ext) ([1] # [2] # replicate 14 [0] @ [[3]]), po_parity = [[3]]\<rparr>"
  have sp: "split_shards (x # y # []) 1 1 = [x] # [y] # replicate 14 [0] @ [[0]]" for x y
    by (simp add: split_shards_def DATA_SHARDS_def slice_def upt_rec numeral_eq_Suc)
  have tk: "take DATA_SHARDS (split_shards (x # y # []) 1 1) = [x] # [y] # replicate 14 [0]" for x y
    unfolding sp by (simp add: DATA_SHARDS_def)
  have enc: "rs_encode xor_coder DATA_SHARDS 1 ([1] # [2] # replicate 14 [0] @ [[0]]) =
      Inr ([1] # [2] # replicate 14 [0] @ [[3]])"
    by (simp add: xor_coder_def DATA_SHARDS_def xor_all_def xor_bytes_def numeral_eq_Suc)
  have e: "parity_encode demo_ext xor_coder (demo_codec [ob]) (ObjectId (pad32 [1, 2])) [1, 2] 1 = Inr [0]"
  proof -
    have dc: "div_ceil (length [1 :: u8, 2]) DATA_SHARDS = 1" by (simp add: div_ceil_def DATA_SHARDS_def)
    have dr: "drop DATA_SHARDS ([1] # [2] # replicate 14 [0] @ [[3 :: u8]]) = [[3]]"
      by (simp add: DATA_SHARDS_def)
    show ?thesis
      unfolding parity_encode_def dc Let_def sp enc and_then_simps map_err_simps dr
      by (simp add: MAX_PARITY_SHARDS_def MAX_SHARD_LEN_def object_id_of_def flip: ob_def One_nat_def)
        (simp add: ob_def object_id_of_def)
  qed
  have p: "pad_or_trim [1, 9, 9] 2 = [1, 9]" by (simp add: pad_or_trim_def Let_def)
  have "rs_ok xor_coder DATA_SHARDS 1" by (rule xor_coder_ok) (simp add: DATA_SHARDS_def)
  have l2: "length [1 :: u8, 2] = 2" by simp
  from parity_repairs_damage [OF \<open>rs_ok xor_coder DATA_SHARDS 1\<close> demo_codec_ok [of "[ob]" UNIV] e,
      unfolded l2 Let_def] obtain ob'
    where o: "parity_parse (demo_codec [ob]) [0] = Inr ob'"
    and r: "\<And>d ps n orig cur. n = po_shard_len ob' \<Longrightarrow>
        orig = take DATA_SHARDS (split_shards [1, 2] n 1) @ po_parity ob' \<Longrightarrow>
        cur = take DATA_SHARDS (split_shards (pad_or_trim d 2) n 1) @ ps \<Longrightarrow>
        length ps = 1 \<Longrightarrow> damage_detected demo_ext orig cur \<Longrightarrow> damaged_shards orig cur \<le> 1 \<Longrightarrow>
        parity_repair demo_ext xor_coder (ob'\<lparr>po_parity := ps\<rparr>) (ObjectId (pad32 [1, 2])) d = Inr [1, 2]"
    by (elim exE conjE) (rule that, assumption, blast)
  have "ob' = ob" using o by (auto simp: parity_parse_def result_simps)
  then have n: "po_shard_len ob' = 1" "po_parity ob' = [[3]]" by (simp_all add: ob_def)
  have "parity_repair demo_ext xor_coder (ob'\<lparr>po_parity := [[3]]\<rparr>) (ObjectId (pad32 [1, 2])) [1, 9, 9] = Inr [1, 2]"
  proof (rule r)
    show "damage_detected demo_ext (take DATA_SHARDS (split_shards [1, 2] 1 1) @ [[3]])
        (take DATA_SHARDS (split_shards (pad_or_trim [1, 9, 9] 2) 1 1) @ [[3]])"
      unfolding p tk by (auto simp: damage_detected_def object_id_of_def pad32_inj zip_append)
    show "damaged_shards (take DATA_SHARDS (split_shards [1, 2] 1 1) @ [[3]])
        (take DATA_SHARDS (split_shards (pad_or_trim [1, 9, 9] 2) 1 1) @ [[3]]) \<le> 1"
      unfolding p tk by (simp add: damaged_shards_def zip_append)
  qed (simp_all add: n)
  with e o show ?thesis by blast
qed

text \<open>whatever the parity object and the damaged bytes are, forged ones included, repair never
  returns bytes that are not the pack it was asked for.\<close>

theorem repair_never_wrong:
  assumes "parity_repair ext rs ob pid d = Inr out"
  shows "object_id_of ext out = pid"
  using assms by (auto simp: parity_repair_def Let_def result_simps split: if_splits)

theorem repair_never_wrong_witness:
  "object_id_of demo_ext [7] = ObjectId (pad32 [7])"
proof (rule repair_never_wrong)
  show "parity_repair demo_ext xor_coder
      \<lparr>po_v = 3, po_k = 16, po_m = 1, po_pack_size = 1, po_shard_len = 1, po_hashes = [], po_parity = []\<rparr>
      (ObjectId (pad32 [7])) [7] = Inr [7]"
    by (simp add: parity_repair_def count_erasures_def pad_or_trim_def Let_def object_id_of_def)
qed

end
