(* ===== verification/Chunker.thy ===== *)
theory Chunker
  imports Config_Format
begin

text \<open>
  \<open>crates/kist-chunker/src/lib.rs\<close>: FastCDC with normalisation level 2. The rolling
  fingerprint is a \<open>64 word\<close>, so its shift and addition wrap as the code's do. The reader
  is the list of what its \<open>read\<close> calls will return (\<open>read_op\<close>): the bytes of a call are
  cut to the space the caller offers, the rest stays for the next call, as a \<open>Read\<close> over
  buffered input behaves; the end of the list is the end of input.

  Shown: a chunk is at least one byte and at most \<open>max\<close>, it is at least \<open>min\<close> bytes
  unless the input ends, the chunks of an input are its contents in order, and neither they
  nor their boundaries depend on how the reader splits the data into reads.
\<close>

type_synonym u64 = "64 word"

definition GEAR_TABLE :: "u64 list" where
  "GEAR_TABLE =
    [0xe80e8d55032474b3, 0x11b25b61f5924e15, 0x03aa5bd82a9eb669, 0xc45a153ef107a38c,
     0xeac874b86f0f57b9, 0xa5ccedec95ec79c7, 0xe15a3320ad42ac0a, 0x5ed3583fa63cec15,
     0xcd497bf624a4451d, 0xf9ade5b059683605, 0x773940c03fb11ca1, 0xa36b16e4a6ae15b2,
     0x67afd1adb5a89eac, 0xc44c75ee32f0038e, 0x2101790f365c0967, 0x76415c64a222fc4a,
     0x579929249a1e577a, 0xe4762fc41fdbf750, 0xea52198e57dfcdcc, 0xe2535aafe30b4281,
     0xcb1a1bd6c77c9056, 0x5a1aa9bfc4612a62, 0x15a728aef8943eb5, 0x2f8f09738a8ec8d9,
     0x200f3dec9fac8074, 0x0fa9a7b1e0d318df, 0x06c0804ffd0d8e3a, 0x630cbc412669dd25,
     0x10e34f85f4b10285, 0x2a6fe8164b9b6410, 0xcacb57d857d55810, 0x77f8a3a36ff11b46,
     0x66af517e0dc3003e, 0x76c073c789b4009a, 0x853230dbb529f22a, 0x1e9e9c09a1f77e56,
     0x1e871223802ee65d, 0x37fe4588718ff813, 0x10088539f30db464, 0x366f7470b80b72d1,
     0x33f2634d9a6b31db, 0xd43917751d69ea18, 0xa0f492bc1aa7b8de, 0x3f94e5a8054edd20,
     0xedfd6e25eb8b1dbf, 0x759517a54f196a56, 0xe81d5006ec7b6b17, 0x8dd8385fa894a6b7,
     0x45f4d5467b0d6f91, 0xa1f894699de22bc8, 0x33829d09ef93e0fe, 0x3e29e250caed603c,
     0xf7382cba7f63a45e, 0x970f95412bb569d1, 0xc7fcea456d356b4b, 0x723042513f3e7a57,
     0x17ae7688de3596f1, 0x27ac1fcd7cd23c1a, 0xf429beeb78b3f71f, 0xd0780692fb93a3f9,
     0x9f507e28a7c9842f, 0x56001ad536e433ae, 0x7e1dd1ecf58be306, 0x15fee353aa233fc6,
     0xb033a0730b7638e8, 0xeb593ad6bd2406d1, 0x7c86502574d0f133, 0xce3b008d4ccb4be7,
     0xf8566e3d383594c8, 0xb2c261e9b7af4429, 0xf685e7e253799dbb, 0x05d33ed60a494cbc,
     0xeaf88d55a4cb0d1a, 0x3ee9368a902415a1, 0x8980fe6a8493a9a4, 0x358ed008cb448631,
     0xd0cb7e37b46824b8, 0xe9bc375c0bc94f84, 0xea0bf1d8e6b55bb3, 0xb66a60d0f9f6f297,
     0x66db2cc4807b3758, 0x7e4e014afbca8b4d, 0xa5686a4938b0c730, 0xa5f0d7353d623316,
     0x26e38c349242d5e8, 0xeeefa80a29858e30, 0x8915cb912aa67386, 0x4b957a47bfc420d4,
     0xbb53d051a895f7e1, 0x09f5e3235f6911ce, 0x416b98e695cfb7ce, 0x97a08183344c5c86,
     0xbf68e0791839a861, 0xea05dde59ed3ed56, 0x0ca732280beda160, 0xac748ed62fe7f4e2,
     0xc686da075cf6e151, 0xe1ba5658f4af05c8, 0xe9ff09fbeb67cc35, 0xafaea9470323b28d,
     0x0291e8db5bb0ac2a, 0x342072a9bbee77ae, 0x03147eed6b3d0a9c, 0x21379d4de31dbadb,
     0x2388d965226fb986, 0x52c96988bfebabfa, 0xa6fc29896595bc2d, 0x38fa4af70aa46b8b,
     0xa688dd13939421ee, 0x99d5275d9b1415da, 0x453d31bb4fe73631, 0xde51debc1fbe3356,
     0x75a3c847a06c622f, 0xe80e32755d272579, 0x5444052250d8ec0d, 0x8f17dfda19580a3b,
     0xf6b3e9363a185e42, 0x7a42adec6868732f, 0x32cb6a07629203a2, 0x1eca8957defe56d9,
     0x9fa85e4bc78ff9ed, 0x20ff07224a499ca7, 0x3fa6295ff9682c70, 0xe3d5b1e3ce993eff,
     0xa341209362e0b79a, 0x64bd9eae5712ffe8, 0xceebb537babbd12a, 0x5586ef404315954f,
     0x46c3085c938ab51a, 0xa82ccb9199907cee, 0x8c51b6690a3523c8, 0xc4dbd4c9ae518332,
     0x979898dbb23db7b2, 0x1b5b585e6f672a9d, 0xce284da7c4903810, 0x841166e8bb5f1c4f,
     0xb7d884a3fceca7d0, 0xa76468f5a4572374, 0xc10c45f49ee9513d, 0x68f9a5663c1908c9,
     0x0095a13476a6339d, 0xd1d7516ffbe9c679, 0xfd94ab0c9726f938, 0x627468bbdb27c959,
     0xedc3f8988e4a8c9a, 0x58efd33f0dfaa499, 0x21e37d7e2ef4ac8b, 0x297f9ab5586259c6,
     0xda3ba4dc6cb9617d, 0xae11d8d9de2284d2, 0xcfeed88cb3729865, 0xefc2f9e4f03e2633,
     0x8226393e8f0855a4, 0xd6e25fd7acf3a767, 0x435784c3bfd6d14a, 0xf97142e6343fe757,
     0xd73b9fe826352f85, 0x6c3ac444b5b2bd76, 0xd8e88f3e9fd4a3fd, 0x31e50875c36f3460,
     0xa824f1bf88cf4d44, 0x54a4d2c8f5f25899, 0xbff254637ce3b1e6, 0xa02cfe92561b3caa,
     0x7bedb4edee9f0af7, 0x879c0620ac49a102, 0xa12c4ccd23b332e7, 0x09a5ff47bf94ed1e,
     0x7b62f43cd3046fa0, 0xaa3af0476b9c2fb9, 0x22e55301abebba8e, 0x3a6035c42747bd58,
     0x1705373106c8ec07, 0xb1f660de828d0628, 0x065fe82d89ca563d, 0xf555c2d8074d516d,
     0x6bb6c186b423ee99, 0x54a807be6f3120a8, 0x8a3c7fe2f88860b8, 0xbeffc344f5118e81,
     0xd686e80b7d1bd268, 0x661aef4ef5e5e88b, 0x5bf256c654cd1dda, 0x9adb1ab85d7640f4,
     0x68449238920833a2, 0x843279f4cebcb044, 0xc8710cdefa93f7bb, 0x236943294538f3e6,
     0x80d7d136c486d0b4, 0x61653956b28851d3, 0x3f843be9a9a956b5, 0xf73cfbbf137987e5,
     0xcf0cb6dee8ceac2c, 0x50c401f52f185cae, 0xbdbe89ce735c4c1c, 0xeef3ade9c0570bc7,
     0xbe8b066f8f64cbf6, 0x5238d6131705dcb9, 0x20219086c950e9f6, 0x634468d9ed74de02,
     0x0aba4b3d705c7fa5, 0x3374416f725a6672, 0xe7378bdf7beb3bc6, 0x0f7b6a1b1cee565b,
     0x234e4c41b0c33e64, 0x4efa9a0c3f21fe28, 0x1167fc551643e514, 0x9f81a69d3eb01fa4,
     0xdb75c22b12306ed0, 0xe25055d738fc9686, 0x9f9f167a3f8507bb, 0x195f8336d3fbe4d3,
     0x8442b6feffdcb6f6, 0x1e07ed24746ffde9, 0x140e31462d555266, 0x8bd0ce515ae1406e,
     0x2c0be0042b5584b3, 0x35a23d0e15d45a60, 0xc14f1ba147d9bc83, 0xbbf168691264b23f,
     0xad2cc7b57e589ade, 0x9501963154c7815c, 0x9664afa6b8d67d47, 0x7f9e5101fea0a81c,
     0x45ecffb610d25bfd, 0x3157f7aecf9b6ab3, 0xc43ca6f88d87501d, 0x9576ff838dee38dc,
     0x93f21afe0ce1c7d7, 0xceac699df343d8f9, 0x2fec49e29f03398d, 0x8805ccd5730281ed,
     0xf9fc16fc750a8e59, 0x35308cc771adf736, 0x4a57b7c9ee2b7def, 0x03a4c6cdc937a02a,
     0x6c9a8a269fc8c4fc, 0x4681decec7a03f43, 0x342eecded1353ef9, 0x8be0552d8413a867,
     0xc7b4ac51beda8be8, 0xebcc64fb719842c0, 0xde8e4c7fb6d40c1c, 0xcc8263b62f9738b1,
     0xd3cfc0f86511929a, 0x466024ce8bb226ea, 0x459ff690253a3c18, 0x98b27e9d91284c9c,
     0x75c3ae8aa3af373d, 0xfbf8f8e79a866ffc, 0x32327f59d0662799, 0x8228b57e729e9830,
     0x065ceb7a18381b58, 0xd2177671a31dc5ff, 0x90cd801f2f8701f9, 0x9d714428471c65fe]"

section \<open>Parameters and masks\<close>

function round_log2_loop :: "nat \<Rightarrow> nat \<Rightarrow> nat" where
  "round_log2_loop v b = (if 2 ^ (b + 1) \<le> v then round_log2_loop v (b + 1) else b)"
  by pat_completeness auto
termination
proof (relation "measure (\<lambda>(v, b). v - b)")
  show "((v, b + 1), v, b) \<in> measure (\<lambda>(v, b). v - b)" if "2 ^ (b + 1) \<le> v" for v b :: nat
  proof -
    have "b + 1 < 2 ^ (b + 1)" by (rule less_exp)
    with that have "b < v" by simp
    then show ?thesis by simp
  qed
qed simp

declare round_log2_loop.simps [simp del]

definition round_log2 :: "nat \<Rightarrow> nat" where
  "round_log2 v =
     (let b = round_log2_loop v 0
      in if 2 ^ (2 * b + 1) \<le> v * v then b + 1 else b)"

definition mask_small :: "chunker_params \<Rightarrow> u64" where
  "mask_small p = push_bit (round_log2 (cp_avg p) + 2) 1 - 1"

definition mask_large :: "chunker_params \<Rightarrow> u64" where
  "mask_large p = push_bit (round_log2 (cp_avg p) - 2) 1 - 1"

section \<open>The boundary function\<close>

function scan :: "bytes \<Rightarrow> u64 \<Rightarrow> nat \<Rightarrow> nat \<Rightarrow> u64 \<Rightarrow> nat + (nat \<times> u64)" where
  "scan data msk limit i fp =
     (if i < limit then
        let fp' = push_bit 1 fp + GEAR_TABLE ! unat (data ! i)
        in if fp' AND msk = 0 then Inl (i + 1) else scan data msk limit (i + 1) fp'
      else Inr (i, fp))"
  by pat_completeness auto
termination by (relation "measure (\<lambda>(data, msk, limit, i, fp). limit - i)") auto

declare scan.simps [simp del]

definition boundary :: "bytes \<Rightarrow> nat \<Rightarrow> nat \<Rightarrow> nat \<Rightarrow> u64 \<Rightarrow> u64 \<Rightarrow> nat" where
  "boundary data mn avg mx small large =
     (if length data \<le> mn then length data
      else let limit = min (length data) mx;
               normal = min limit avg
        in case scan data small normal mn 0 of
             Inl n \<Rightarrow> n
           | Inr (i, fp) \<Rightarrow>
               (case scan data large limit i fp of Inl n \<Rightarrow> n | Inr (j, _) \<Rightarrow> j))"

definition next_len :: "chunker_params \<Rightarrow> bytes \<Rightarrow> nat" where
  "next_len p data =
     boundary data (cp_min p) (cp_avg p) (cp_max p) (mask_small p) (mask_large p)"

section \<open>The streaming chunker\<close>

datatype read_op = Data bytes | Interrupted | Failed string

record chunk_state =
  cs_params :: chunker_params
  cs_reader :: "read_op list option"
  cs_buf :: bytes
  cs_len :: nat
  cs_cursor :: nat
  cs_eof :: bool

definition resize :: "nat \<Rightarrow> bytes \<Rightarrow> bytes" where
  "resize n bs = take n (bs @ replicate n 0)"

definition chunks_with_buf :: "chunker_params \<Rightarrow> read_op list \<Rightarrow> bytes \<Rightarrow> chunk_state" where
  "chunks_with_buf p reader buf =
     \<lparr>cs_params = p, cs_reader = Some reader, cs_buf = resize (2 * cp_max p) buf,
      cs_len = 0, cs_cursor = 0, cs_eof = False\<rparr>"

definition take_buf :: "chunk_state \<Rightarrow> chunk_state \<times> bytes" where
  "take_buf s = (s\<lparr>cs_buf := []\<rparr>, cs_buf s)"

text \<open>
  The loop of \<open>fill\<close>: read until the buffer is full or a read returns no bytes. The result
  is the state with the bytes read so far, and the error that stopped it, if one did.
\<close>

function (sequential) read_loop :: "read_op list \<Rightarrow> chunk_state \<Rightarrow> chunk_state \<times> (string + unit)" where
  "read_loop ops s =
     (if length (cs_buf s) \<le> cs_len s then (s\<lparr>cs_reader := Some ops\<rparr>, Inr ())
      else (case ops of
          [] \<Rightarrow> (s\<lparr>cs_reader := None, cs_eof := True\<rparr>, Inr ())
        | Interrupted # rest \<Rightarrow> read_loop rest s
        | Failed e # rest \<Rightarrow> (s\<lparr>cs_reader := Some rest\<rparr>, Inl e)
        | Data bs # rest \<Rightarrow>
            (if bs = [] then (s\<lparr>cs_reader := None, cs_eof := True\<rparr>, Inr ())
             else let space = length (cs_buf s) - cs_len s;
                      n = min (length bs) space;
                      s' = s\<lparr>cs_buf := take (cs_len s) (cs_buf s) @ take n bs
                               @ drop (cs_len s + n) (cs_buf s),
                             cs_len := cs_len s + n\<rparr>
               in read_loop (if n = length bs then rest else Data (drop n bs) # rest) s')))"
  by pat_completeness auto
termination
  by (relation "measures [\<lambda>(ops, s). length ops, \<lambda>(ops, s). length (cs_buf s) - cs_len s]")
    (auto simp: min_def split: if_splits)

declare read_loop.simps [simp del]

definition fill :: "chunk_state \<Rightarrow> chunk_state \<times> (string + unit)" where
  "fill s =
     (let mx = cp_max (cs_params s);
          remaining = cs_len s - cs_cursor s
      in if mx \<le> remaining then (s, Inr ())
         else let s' = s\<lparr>cs_buf := slice (cs_cursor s) (cs_len s) (cs_buf s)
                                    @ drop remaining (cs_buf s),
                         cs_cursor := 0, cs_len := remaining\<rparr>
           in if cs_eof s' then (s', Inr ())
              else (case cs_reader s' of
                  None \<Rightarrow> (s'\<lparr>cs_eof := True\<rparr>, Inr ())
                | Some ops \<Rightarrow> read_loop ops s'))"

definition next_chunk :: "chunk_state \<Rightarrow> chunk_state \<times> (string + bytes option)" where
  "next_chunk s =
     (case fill s of
        (s', Inl e) \<Rightarrow> (s', Inl e)
      | (s', Inr _) \<Rightarrow>
          (if cs_len s' = 0 then (s', Inr None)
           else let data = slice (cs_cursor s') (cs_len s') (cs_buf s');
                    n = next_len (cs_params s') data
             in (s'\<lparr>cs_cursor := cs_cursor s' + n\<rparr>, Inr (Some (take n data)))))"

text \<open>Draining the iterator; the fuel bounds the number of chunks and running out is \<open>None\<close>.\<close>

fun drain :: "nat \<Rightarrow> chunk_state \<Rightarrow> (string + bytes list) option" where
  "drain 0 s = None"
| "drain (Suc fuel) s =
     (case next_chunk s of
        (s', Inl e) \<Rightarrow> Some (Inl e)
      | (s', Inr None) \<Rightarrow> Some (Inr [])
      | (s', Inr (Some c)) \<Rightarrow> map_option (map_sum id ((#) c)) (drain fuel s'))"

section \<open>Bounds on a chunk\<close>

lemma scan_bounds:
  "scan data msk limit i fp = Inl c \<Longrightarrow> i < c \<and> c \<le> limit"
  "scan data msk limit i fp = Inr (j, fp') \<Longrightarrow> j = max i limit"
proof (induction data msk limit i fp rule: scan.induct)
  case (1 data msk limit i fp)
  {
    case 1
    with "1.IH" show ?case
      by (subst (asm) scan.simps) (fastforce simp: Let_def split: if_splits)
  next
    case 2
    with "1.IH" show ?case
      by (subst (asm) scan.simps) (fastforce simp: Let_def split: if_splits)
  }
qed

lemma scan_prefix: "limit \<le> length d \<Longrightarrow> scan (d @ r) msk limit i fp = scan d msk limit i fp"
proof (induction d msk limit i fp rule: scan.induct)
  case (1 data msk limit i fp)
  then show ?case
    by (subst (1 2) scan.simps) (simp add: Let_def nth_append)
qed

lemma next_len_bounds:
  assumes "params_ok p" "data \<noteq> []"
  shows "0 < next_len p data" "next_len p data \<le> length data" "next_len p data \<le> cp_max p"
    "cp_min p < length data \<Longrightarrow> cp_min p \<le> next_len p data"
proof -
  note ok = assms(1) [unfolded params_ok_def]
  have "0 < next_len p data \<and> next_len p data \<le> length data \<and> next_len p data \<le> cp_max p
      \<and> (cp_min p < length data \<longrightarrow> cp_min p \<le> next_len p data)"
    using assms(2) ok unfolding next_len_def boundary_def Let_def
    by (auto split: sum.splits dest!: scan_bounds)
  then show "0 < next_len p data" "next_len p data \<le> length data" "next_len p data \<le> cp_max p"
    "cp_min p < length data \<Longrightarrow> cp_min p \<le> next_len p data" by auto
qed

lemma next_len_short: "length data \<le> cp_min p \<Longrightarrow> next_len p data = length data"
  by (simp add: next_len_def boundary_def)

lemma next_len_prefix:
  assumes "params_ok p" "cp_max p \<le> length d"
  shows "next_len p (d @ r) = next_len p d"
proof -
  note ok = assms(1) [unfolded params_ok_def]
  show ?thesis
  proof (cases "length d \<le> cp_min p")
    case True
    with ok assms have "length d = cp_min p" "cp_max p = cp_min p" "cp_avg p = cp_min p" by auto
    then show ?thesis by (auto simp: next_len_def boundary_def scan.simps)
  next
    case False
    with ok assms show ?thesis
      by (simp add: next_len_def boundary_def min_absorb2 scan_prefix Let_def cong: sum.case_cong)
  qed
qed

section \<open>The stream against the whole input\<close>

text \<open>What a reader delivers, and that no read fails before its end of input.\<close>

fun content :: "read_op list \<Rightarrow> bytes" where
  "content [] = []"
| "content (Interrupted # ops) = content ops"
| "content (Failed e # ops) = []"
| "content (Data bs # ops) = (if bs = [] then [] else bs @ content ops)"

fun no_fail :: "read_op list \<Rightarrow> bool" where
  "no_fail [] = True"
| "no_fail (Interrupted # ops) = no_fail ops"
| "no_fail (Failed e # ops) = False"
| "no_fail (Data bs # ops) = (bs = [] \<or> no_fail ops)"

text \<open>The reference: cut the whole input, one chunk after the other.\<close>

function cut_all :: "chunker_params \<Rightarrow> bytes \<Rightarrow> bytes list" where
  "cut_all p data =
     (if data = [] \<or> next_len p data = 0 then []
      else take (next_len p data) data # cut_all p (drop (next_len p data) data))"
  by pat_completeness auto
termination by (relation "measure (\<lambda>(p, data). length data)") auto

declare cut_all.simps [simp del]

definition view :: "chunk_state \<Rightarrow> bytes" where
  "view s = slice (cs_cursor s) (cs_len s) (cs_buf s)"

definition pending :: "chunk_state \<Rightarrow> bytes" where
  "pending s = (if cs_eof s then [] else case cs_reader s of None \<Rightarrow> [] | Some ops \<Rightarrow> content ops)"

definition readable :: "chunk_state \<Rightarrow> bool" where
  \<comment> \<open>no read will fail\<close>
  "readable s \<longleftrightarrow> (\<not> cs_eof s \<longrightarrow> (case cs_reader s of None \<Rightarrow> True | Some ops \<Rightarrow> no_fail ops))"

definition stream_shape :: "chunk_state \<Rightarrow> bool" where
  "stream_shape s \<longleftrightarrow> params_ok (cs_params s) \<and> length (cs_buf s) = 2 * cp_max (cs_params s)
     \<and> cs_cursor s \<le> cs_len s \<and> cs_len s \<le> length (cs_buf s)"

definition read_step :: "chunk_state \<times> (string + 'a) \<Rightarrow> bool \<Rightarrow> (chunk_state \<Rightarrow> 'a \<Rightarrow> bool) \<Rightarrow> bool" where
  \<comment> \<open>a read can fail only if the reader does; otherwise the result is as promised\<close>
  "read_step r good P \<longleftrightarrow> (case r of (s', Inl e) \<Rightarrow> \<not> good | (s', Inr x) \<Rightarrow> P s' x)"

lemma read_step_mono: "read_step r good P \<Longrightarrow> (\<And>s x. P s x \<Longrightarrow> Q s x) \<Longrightarrow> read_step r good Q"
  by (auto simp: read_step_def split: prod.splits sum.splits)

lemma read_loop_correct:
  assumes "stream_shape s" "\<not> cs_eof s"
  shows "read_step (read_loop ops s) (no_fail ops) (\<lambda>s' _. stream_shape s' \<and> (no_fail ops \<longrightarrow> readable s')
    \<and> view s' @ pending s' = view s @ content ops
    \<and> cs_params s' = cs_params s \<and> cs_cursor s' = cs_cursor s
    \<and> (cs_len s' = length (cs_buf s') \<or> pending s' = []))"
  using assms
proof (induction ops s rule: read_loop.induct)
  case (1 ops s)
  note defs = read_step_def stream_shape_def readable_def view_def pending_def
  show ?case
  proof (cases "length (cs_buf s) \<le> cs_len s")
    case True
    with "1.prems" show ?thesis by (subst read_loop.simps) (auto simp: defs)
  next
    case full: False
    show ?thesis
    proof (cases ops)
      case Nil
      with full "1.prems" show ?thesis by (subst read_loop.simps) (auto simp: defs)
    next
      case (Cons r rest)
      show ?thesis
      proof (cases r)
        case Interrupted
        with Cons full "1.prems" "1.IH"(2) [OF full Cons Interrupted] show ?thesis
          by (subst read_loop.simps) simp
      next
        case (Failed e)
        with Cons full show ?thesis by (subst read_loop.simps) (simp add: read_step_def)
      next
        case (Data bs)
        show ?thesis
        proof (cases "bs = []")
          case True
          with Data Cons full "1.prems" show ?thesis by (subst read_loop.simps) (auto simp: defs)
        next
          case ne: False
          define n where "n = min (length bs) (length (cs_buf s) - cs_len s)"
          define s' where "s' = s\<lparr>cs_buf := take (cs_len s) (cs_buf s) @ take n bs
            @ drop (cs_len s + n) (cs_buf s), cs_len := cs_len s + n\<rparr>"
          define ops' where "ops' = (if n = length bs then rest else Data (drop n bs) # rest)"
          have n: "cs_len s + n \<le> length (cs_buf s)" "n \<le> length bs"
            using full by (auto simp: n_def)
          have step: "read_loop ops s = read_loop ops' s'"
            using full Cons Data ne
            by (subst read_loop.simps) (simp add: Let_def n_def s'_def ops'_def)
          have len': "length (cs_buf s') = length (cs_buf s)"
            using n by (simp add: s'_def)
          have shape': "stream_shape s'" "\<not> cs_eof s'"
            using "1.prems" n len' by (simp_all add: stream_shape_def s'_def)
          have view': "view s' = view s @ take n bs"
            using n "1.prems" by (simp add: view_def s'_def slice_def drop_take stream_shape_def)
          have cont: "content ops = take n bs @ content ops'" "no_fail ops = no_fail ops'"
            using Cons Data ne n by (auto simp: ops'_def append_assoc [symmetric])
          have "read_step (read_loop ops' s') (no_fail ops') (\<lambda>t _. stream_shape t \<and> (no_fail ops' \<longrightarrow> readable t)
            \<and> view t @ pending t = view s' @ content ops'
            \<and> cs_params t = cs_params s' \<and> cs_cursor t = cs_cursor s'
            \<and> (cs_len t = length (cs_buf t) \<or> pending t = []))"
            unfolding s'_def ops'_def n_def
            by (rule "1.IH"(1) [OF full Cons Data ne refl refl refl])
              (use shape' in \<open>simp_all add: s'_def ops'_def n_def\<close>)
          then show ?thesis
            unfolding step view' cont by (simp add: s'_def)
        qed
      qed
    qed
  qed
qed

lemma fill_correct:
  assumes "stream_shape s"
  shows "read_step (fill s) (readable s) (\<lambda>s' _. stream_shape s' \<and> (readable s \<longrightarrow> readable s')
    \<and> view s' @ pending s' = view s @ pending s
    \<and> cs_params s' = cs_params s \<and> (cp_max (cs_params s) \<le> length (view s') \<or> pending s' = [])
    \<and> (cs_len s' = 0 \<longleftrightarrow> view s' = []))"
proof -
  let ?mx = "cp_max (cs_params s)"
  have pos: "0 < ?mx" using assms by (auto simp: stream_shape_def params_ok_def)
  have lv: "length (view t) = cs_len t - cs_cursor t" if "stream_shape t" for t
    using that by (simp add: view_def stream_shape_def length_slice)
  show ?thesis
  proof (cases "?mx \<le> cs_len s - cs_cursor s")
    case True
    then have "fill s = (s, Inr ())" by (simp add: fill_def Let_def)
    with assms True lv [OF assms] pos show ?thesis by (auto simp: read_step_def)
  next
    case False
    define t where "t = s\<lparr>cs_buf := slice (cs_cursor s) (cs_len s) (cs_buf s)
      @ drop (cs_len s - cs_cursor s) (cs_buf s), cs_cursor := 0, cs_len := cs_len s - cs_cursor s\<rparr>"
    have vt: "view t = view s"
      using assms by (auto simp: view_def t_def slice_def stream_shape_def)
    have it: "stream_shape t" using assms by (auto simp: stream_shape_def t_def length_slice)
    have ct: "cs_cursor t = 0" "cs_params t = cs_params s" "cs_eof t = cs_eof s"
      "cs_reader t = cs_reader s" by (simp_all add: t_def)
    show ?thesis
    proof (cases "cs_eof s \<or> cs_reader s = None")
      case True
      then have "fill s = (t\<lparr>cs_eof := True\<rparr>, Inr ())"
        using False by (auto simp: fill_def Let_def t_def)
      with True it vt ct lv [OF it] show ?thesis
        by (auto simp: read_step_def stream_shape_def readable_def view_def pending_def split: option.splits)
    next
      case more: False
      then obtain ops where ops: "cs_reader s = Some ops" "\<not> cs_eof s" by auto
      then have f: "fill s = read_loop ops t"
        using False by (simp add: fill_def Let_def t_def)
      have good: "readable s = no_fail ops" and p: "pending s = content ops" using ops by (simp_all add: readable_def pending_def)
      have "read_step (read_loop ops t) (no_fail ops) (\<lambda>s' _. stream_shape s' \<and> (no_fail ops \<longrightarrow> readable s')
          \<and> view s' @ pending s' = view t @ content ops
          \<and> cs_params s' = cs_params t \<and> cs_cursor s' = cs_cursor t
          \<and> (cs_len s' = length (cs_buf s') \<or> pending s' = []))"
        by (rule read_loop_correct [OF it]) (simp add: ct ops)
      then show ?thesis unfolding f good p vt ct
      proof (rule read_step_mono, elim conjE)
        fix s' and u :: unit
        assume s': "stream_shape s'" "no_fail ops \<longrightarrow> readable s'" "view s' @ pending s' = view s @ content ops"
          "cs_params s' = cs_params s" "cs_cursor s' = 0" "cs_len s' = length (cs_buf s') \<or> pending s' = []"
        have "length (cs_buf s') = 2 * ?mx" using s'(1,4) by (simp add: stream_shape_def)
        with s' lv [OF s'(1)] show "stream_shape s' \<and> (no_fail ops \<longrightarrow> readable s')
            \<and> view s' @ pending s' = view s @ content ops \<and> cs_params s' = cs_params s
            \<and> (?mx \<le> length (view s') \<or> pending s' = []) \<and> (cs_len s' = 0 \<longleftrightarrow> view s' = [])"
          by (auto simp flip: length_0_conv)
      qed
    qed
  qed
qed

text \<open>
  What the next call delivers of the bytes still to come: nothing more, or the next chunk of cutting
  them; and an error only if a read fails.
\<close>

definition next_part :: "chunk_state \<Rightarrow> chunk_state \<Rightarrow> bytes option \<Rightarrow> bool" where
  "next_part s s' ck \<longleftrightarrow>
     (if view s @ pending s = [] then ck = None
      else ck = Some (take (next_len (cs_params s) (view s @ pending s)) (view s @ pending s))
        \<and> stream_shape s' \<and> (readable s \<longrightarrow> readable s') \<and> cs_params s' = cs_params s
        \<and> view s' @ pending s' = drop (next_len (cs_params s) (view s @ pending s)) (view s @ pending s))"

lemma next_chunk_step:
  assumes "stream_shape s"
  shows "read_step (next_chunk s) (readable s) (next_part s)"
proof -
  obtain t q where f: "fill s = (t, q)" by force
  note st = fill_correct [OF assms, unfolded f]
  show ?thesis
  proof (cases q)
    case (Inl e)
    with f st show ?thesis by (simp add: next_chunk_def read_step_def)
  next
    case (Inr u)
    with st have t: "stream_shape t" "readable s \<longrightarrow> readable t" "view t @ pending t = view s @ pending s"
      "cs_params t = cs_params s" "cp_max (cs_params s) \<le> length (view t) \<or> pending t = []"
      "cs_len t = 0 \<longleftrightarrow> view t = []" by (simp_all add: read_step_def)
    have ok: "params_ok (cs_params s)" using assms by (simp add: stream_shape_def)
    then have pos: "0 < cp_max (cs_params s)" by (auto simp: params_ok_def)
    show ?thesis
    proof (cases "view s @ pending s = []")
      case True
      with t f Inr show ?thesis by (auto simp: next_chunk_def read_step_def next_part_def)
    next
      case ne: False
      with t pos have vne: "view t \<noteq> []" by auto
      let ?n = "next_len (cs_params s) (view t)"
      have n: "next_len (cs_params s) (view s @ pending s) = ?n"
        using t(5) next_len_prefix [OF ok, of "view t" "pending t"] by (auto simp flip: t(3))
      have le: "?n \<le> length (view t)" using next_len_bounds(2) [OF ok vne] .
      let ?s' = "t\<lparr>cs_cursor := cs_cursor t + ?n\<rparr>"
      have lv: "length (view t) = cs_len t - cs_cursor t"
        using t(1) by (simp add: view_def stream_shape_def length_slice)
      have "next_chunk s = (?s', Inr (Some (take ?n (view t))))"
        using t f Inr vne by (simp add: next_chunk_def view_def Let_def)
      moreover have "stream_shape ?s'" using t(1) le lv by (auto simp: stream_shape_def)
      moreover have "readable ?s' = readable t" by (simp add: readable_def)
      moreover have "view ?s' @ pending ?s' = drop ?n (view t) @ pending t"
        by (simp add: view_def pending_def slice_def drop_take add.commute)
      moreover have "take ?n (view s @ pending s) = take ?n (view t)"
        "drop ?n (view s @ pending s) = drop ?n (view t) @ pending t"
        using le by (simp_all flip: t(3))
      ultimately show ?thesis using ne t(2,4) unfolding read_step_def next_part_def n by simp
    qed
  qed
qed

definition stream_inv :: "chunk_state \<Rightarrow> bool" where
  "stream_inv s \<longleftrightarrow> stream_shape s \<and> readable s"

lemma next_chunk_correct:
  assumes "stream_inv s"
  shows "view s @ pending s = [] \<Longrightarrow> \<exists>s'. next_chunk s = (s', Inr None)"
    and "view s @ pending s \<noteq> [] \<Longrightarrow>
      \<exists>s'. next_chunk s = (s', Inr (Some (take (next_len (cs_params s) (view s @ pending s)) (view s @ pending s))))
        \<and> stream_inv s' \<and> cs_params s' = cs_params s
        \<and> view s' @ pending s' = drop (next_len (cs_params s) (view s @ pending s)) (view s @ pending s)"
  using next_chunk_step [of s] assms
  by (auto simp: stream_inv_def read_step_def next_part_def split: prod.splits sum.splits)

lemma drain_cut_all:
  "stream_inv s \<Longrightarrow> length (view s @ pending s) < fuel \<Longrightarrow>
     drain fuel s = Some (Inr (cut_all (cs_params s) (view s @ pending s)))"
proof (induction fuel arbitrary: s)
  case 0
  then show ?case by simp
next
  case (Suc fuel)
  let ?d = "view s @ pending s" and ?p = "cs_params s"
  show ?case
  proof (cases "?d = []")
    case True
    with next_chunk_correct(1) [OF Suc.prems(1)] show ?thesis
      by (auto simp: cut_all.simps [of _ "[]"])
  next
    case False
    have ok: "params_ok ?p" using Suc.prems(1) by (simp add: stream_inv_def stream_shape_def)
    obtain s' where s': "next_chunk s = (s', Inr (Some (take (next_len ?p ?d) ?d)))"
      "stream_inv s'" "cs_params s' = ?p" "view s' @ pending s' = drop (next_len ?p ?d) ?d"
      using next_chunk_correct(2) [OF Suc.prems(1) False] by blast
    have pos: "0 < next_len ?p ?d" using next_len_bounds(1) [OF ok False] .
    have "length (view s' @ pending s') < fuel"
      using pos Suc.prems(2) length_greater_0_conv [THEN iffD2, OF False]
      by (simp only: s'(4) length_drop)
    from Suc.IH [OF s'(2) this] show ?thesis
      unfolding s'(3,4) using False pos
      by (simp add: s'(1) cut_all.simps [of ?p ?d])
  qed
qed

lemma concat_cut_all: "params_ok p \<Longrightarrow> concat (cut_all p data) = data"
proof (induction p data rule: cut_all.induct)
  case (1 p data)
  show ?case
  proof (cases "data = []")
    case True
    then show ?thesis by (simp add: cut_all.simps)
  next
    case False
    with next_len_bounds(1) [OF "1.prems" False] "1.IH" "1.prems" show ?thesis
      by (subst cut_all.simps) simp
  qed
qed

lemma cut_all_bounds:
  "params_ok p \<Longrightarrow> c \<in> set (cut_all p data) \<Longrightarrow> 0 < length c \<and> length c \<le> cp_max p"
proof (induction p data rule: cut_all.induct)
  case (1 p data)
  show ?case
  proof (cases "data = []")
    case True
    with "1.prems" show ?thesis by (simp add: cut_all.simps)
  next
    case False
    note b = next_len_bounds [OF "1.prems"(1) False]
    from "1.prems"(2) False b(1) consider "c = take (next_len p data) data"
      | "c \<in> set (cut_all p (drop (next_len p data) data))"
      by (subst (asm) cut_all.simps) auto
    then show ?thesis
      using "1.IH" "1.prems"(1) False b by cases auto
  qed
qed

lemma cut_all_min:
  "params_ok p \<Longrightarrow> cut_all p data = cs @ [c] \<Longrightarrow> d \<in> set cs \<Longrightarrow> cp_min p \<le> length d"
proof (induction p data arbitrary: cs rule: cut_all.induct)
  case (1 p data)
  show ?case
  proof (cases "data = []")
    case True
    with "1.prems" show ?thesis by (simp add: cut_all.simps)
  next
    case False
    let ?n = "next_len p data"
    note b = next_len_bounds [OF "1.prems"(1) False]
    have eq: "cut_all p data = take ?n data # cut_all p (drop ?n data)"
      using False b(1) by (subst cut_all.simps) simp
    with "1.prems"(2,3) obtain cs' where cs: "cs = take ?n data # cs'"
      "cut_all p (drop ?n data) = cs' @ [c]"
      by (cases cs) auto
    show ?thesis
    proof (cases "d = take ?n data")
      case True
      have "drop ?n data \<noteq> []"
        using cs(2) by (auto simp: cut_all.simps [of p "[]"])
      then have "?n < length data" by simp
      moreover have "cp_min p \<le> ?n"
        using b(4) calculation next_len_short [of data p] by (cases "cp_min p < length data") auto
      ultimately show ?thesis using True by simp
    next
      case False
      with "1.prems"(3) cs(1) have "d \<in> set cs'" by simp
      with "1.IH" [OF _ "1.prems"(1) cs(2)] \<open>data \<noteq> []\<close> b(1) show ?thesis by simp
    qed
  qed
qed

lemma start_inv:
  "params_ok p \<Longrightarrow> no_fail ops \<Longrightarrow> stream_inv (chunks_with_buf p ops buf)"
  by (simp add: stream_inv_def stream_shape_def readable_def chunks_with_buf_def resize_def)

text \<open>C6: streaming a file through the chunker gives exactly the chunks of cutting the whole
  contents at once, for every way the reader can split the data into reads and interrupt
  them and for every reused buffer: chunk boundaries depend on the contents alone.\<close>

theorem chunks_independent_of_reads:
  assumes "params_ok p" "no_fail ops" "length (content ops) < fuel"
  shows "drain fuel (chunks_with_buf p ops buf) = Some (Inr (cut_all p (content ops)))"
proof -
  let ?s = "chunks_with_buf p ops buf"
  have "view ?s @ pending ?s = content ops" "cs_params ?s = p"
    by (simp_all add: view_def pending_def chunks_with_buf_def slice_def)
  with drain_cut_all [OF start_inv [OF assms(1,2)], of buf fuel] assms(3) show ?thesis by simp
qed

theorem chunks_independent_of_reads_witness:
  "drain 9 (chunks_with_buf \<lparr>cp_min = 2, cp_avg = 3, cp_max = 4\<rparr>
       [Data [1, 2], Interrupted, Data [3, 4, 5, 6, 7], Data [8]] [0]) =
     Some (Inr (cut_all \<lparr>cp_min = 2, cp_avg = 3, cp_max = 4\<rparr> [1, 2, 3, 4, 5, 6, 7, 8]))"
  using chunks_independent_of_reads [of "\<lparr>cp_min = 2, cp_avg = 3, cp_max = 4\<rparr>"
      "[Data [1, 2], Interrupted, Data [3, 4, 5, 6, 7], Data [8]]" 9 "[0]"]
  by (simp add: params_ok_def)

text \<open>C7: the chunks of an input are its contents in order, none is empty or longer than
  \<open>max\<close>, and all but the last are at least \<open>min\<close> bytes long.\<close>

theorem chunks_partition_input:
  assumes "params_ok p"
  shows "concat (cut_all p data) = data
    \<and> (\<forall>c \<in> set (cut_all p data). 0 < length c \<and> length c \<le> cp_max p)
    \<and> (\<forall>c \<in> set (butlast (cut_all p data)). cp_min p \<le> length c)"
proof (intro conjI ballI)
  show "concat (cut_all p data) = data" using assms by (rule concat_cut_all)
  show "0 < length c" "length c \<le> cp_max p" if "c \<in> set (cut_all p data)" for c
    using cut_all_bounds [OF assms that] by simp_all
  show "cp_min p \<le> length c" if "c \<in> set (butlast (cut_all p data))" for c
  proof (cases "cut_all p data" rule: rev_cases)
    case Nil
    with that show ?thesis by simp
  next
    case (snoc cs l)
    with that cut_all_min [OF assms snoc] show ?thesis by simp
  qed
qed

theorem chunks_partition_input_witness:
  "concat (cut_all \<lparr>cp_min = 2, cp_avg = 3, cp_max = 4\<rparr> [1, 2, 3, 4, 5, 6, 7, 8]) = [1, 2, 3, 4, 5, 6, 7, 8]"
  using chunks_partition_input [of "\<lparr>cp_min = 2, cp_avg = 3, cp_max = 4\<rparr>" "[1, 2, 3, 4, 5, 6, 7, 8]"]
  by (simp add: params_ok_def)

text \<open>C8: a repository configuration that passes its checks makes the chunker safe and its
  chunks storable: whatever the input, cutting loses no byte, every chunk is non-empty, at most
  64 MiB and fits in a pack of the configured size.\<close>

theorem valid_config_chunks_fit:
  assumes "config_validate c = Inr ()"
  shows "concat (cut_all (rc_chunker c) data) = data
    \<and> (\<forall>ch \<in> set (cut_all (rc_chunker c) data).
         0 < length ch \<and> length ch \<le> rc_pack_target_size c \<and> length ch \<le> 64 * 1024 * 1024)"
proof (intro conjI ballI)
  note ok = config_validate_chunker [OF assms]
  show "concat (cut_all (rc_chunker c) data) = data" using ok(1) by (rule concat_cut_all)
  fix ch assume "ch \<in> set (cut_all (rc_chunker c) data)"
  from cut_all_bounds [OF ok(1) this] ok(2,3)
  show "0 < length ch" "length ch \<le> rc_pack_target_size c" "length ch \<le> 64 * 1024 * 1024" by simp_all
qed

theorem valid_config_chunks_fit_witness:
  "concat (cut_all chunker_params_default [1, 2, 3]) = [1, 2, 3]"
proof -
  let ?key = "\<lparr>ks_version = 3, ks_name = [], ks_created_ns = 0,
    ks_kdf = kdf_default_params\<lparr>kp_salt := replicate 16 7\<rparr>, ks_wrapped = []\<rparr>"
  have "config_validate (new_config (replicate 16 1) 0 ?key) = Inr ()"
    by (rule new_config_valid) (simp_all add: kdf_params_validate_def kdf_default_params_def)
  from valid_config_chunks_fit [OF this, of "[1, 2, 3]"] show ?thesis by (simp add: new_config_def)
qed

end
