(* ===== verification/Pack_Format.thy ===== *)
theory Pack_Format
  imports Ids_Keys
begin

text \<open>
  \<open>crates/kist-format/src/pack.rs\<close> and \<open>index.rs\<close>: the byte layout of a pack (magic, sealed
  chunks, sealed trailer, trailer length, magic) and the structures of the trailer and of the
  index blobs. The layout is characterised completely: \<open>trailer_bytes\<close> accepts exactly the
  packs \<open>finish\<close> writes and returns their trailer.
\<close>

definition HEADER_LEN :: nat where "HEADER_LEN = 8"
definition FOOTER_LEN :: nat where "FOOTER_LEN = 8 + 8"
definition CHUNK_NONCE_LEN :: nat where "CHUNK_NONCE_LEN = 24"
definition TAG_LEN :: nat where "TAG_LEN = 16"
definition MIN_ENTRY_LEN :: nat where "MIN_ENTRY_LEN = CHUNK_NONCE_LEN + TAG_LEN + 1"

definition MAGIC_PREFIX :: bytes where "MAGIC_PREFIX = ascii ''kistpk''"

definition magic :: bytes where "magic = MAGIC_PREFIX @ be_bytes 2 FORMAT_VERSION"

record pack_entry =
  pe_id :: chunk_id
  pe_offset :: nat
  pe_length :: nat
  pe_raw_len :: nat

record pack_trailer =
  pt_version :: nat
  pt_entries :: "pack_entry list"

definition new_trailer :: "pack_entry list \<Rightarrow> pack_trailer" where
  "new_trailer es = \<lparr>pt_version = FORMAT_VERSION, pt_entries = es\<rparr>"

record index_pack =
  ip_pack :: object_id
  ip_size :: nat
  ip_entries :: "pack_entry list"

record index_blob =
  ib_version :: nat
  ib_packs :: "index_pack list"
  ib_supersedes :: "object_id list"

definition new_blob :: "index_pack list \<Rightarrow> index_blob" where
  "new_blob ps = \<lparr>ib_version = FORMAT_VERSION, ib_packs = ps, ib_supersedes = []\<rparr>"

definition pack_begin :: bytes where "pack_begin = magic"

definition pack_finish :: "bytes \<Rightarrow> bytes \<Rightarrow> bytes" where
  "pack_finish pack trailer_sealed =
     pack @ trailer_sealed @ be_bytes 8 (length trailer_sealed) @ magic"

definition parse_footer :: "bytes \<Rightarrow> format_error + nat" where
  "parse_footer footer =
     (if length footer < FOOTER_LEN
      then Inl (Truncated ''pack footer'' FOOTER_LEN (length footer))
      else let f = drop (length footer - FOOTER_LEN) footer
        in if drop 8 f \<noteq> magic then Inl (BadMagic ''pack footer'')
           else Inr (of_be (take 8 f)))"

definition trailer_bytes :: "bytes \<Rightarrow> format_error + bytes" where
  "trailer_bytes pack =
     (if length pack < HEADER_LEN + FOOTER_LEN
      then Inl (Truncated ''pack'' (HEADER_LEN + FOOTER_LEN) (length pack))
      else if take HEADER_LEN pack \<noteq> magic then Inl (BadMagic ''pack header'')
      else and_then (parse_footer pack) (\<lambda>trailer_len.
        let data_end = length pack - FOOTER_LEN
        in case checked_sub data_end trailer_len of
             None \<Rightarrow> Inl (Truncated ''pack trailer'' trailer_len (data_end - HEADER_LEN))
           | Some start \<Rightarrow>
               (if HEADER_LEN \<le> start then Inr (slice start data_end pack)
                else Inl (Truncated ''pack trailer'' trailer_len (data_end - HEADER_LEN)))))"

lemmas pack_consts = HEADER_LEN_def FOOTER_LEN_def CHUNK_NONCE_LEN_def TAG_LEN_def MIN_ENTRY_LEN_def

lemma length_ascii [simp]: "length (ascii s) = length s"
  by (simp add: ascii_def)

lemma length_magic [simp, layout_simps]: "length magic = 8"
  by (simp add: magic_def MAGIC_PREFIX_def)

lemma length_pack_finish [layout_simps]:
  "length (pack_finish p t) = length p + length t + FOOTER_LEN"
  by (simp add: pack_finish_def FOOTER_LEN_def)

lemma parse_footer_suffix:
  assumes "n < 2 ^ 64"
  shows "parse_footer (p @ be_bytes 8 n @ magic) = Inr n"
proof -
  have "n < 256 ^ 8" using assms by simp
  then have "of_be (be_bytes 8 n) = n" by (rule of_be_be_bytes)
  then show ?thesis by (simp add: parse_footer_def FOOTER_LEN_def)
qed

lemma parse_footer_sound:
  assumes "parse_footer f = Inr n"
  shows "\<exists>p. f = p @ be_bytes 8 n @ magic \<and> n < 2 ^ 64"
proof -
  let ?f = "drop (length f - FOOTER_LEN) f"
  from assms have len: "FOOTER_LEN \<le> length f" and m: "drop 8 ?f = magic" and n: "n = of_be (take 8 ?f)"
    by (auto simp: parse_footer_def Let_def split: if_splits)
  have l8: "length (take 8 ?f) = 8" using len by (simp add: FOOTER_LEN_def)
  have "take 8 ?f = be_bytes 8 n" using be_bytes_of_be [of "take 8 ?f"] l8 n by simp
  with m have "?f = be_bytes 8 n @ magic" by (metis append_take_drop_id)
  moreover have "n < 2 ^ 64" using of_be_less [of "take 8 ?f"] l8 n by simp
  ultimately show ?thesis by (metis append_take_drop_id)
qed

lemma pack_trailer_roundtrip:
  assumes "addressable (pack_finish (pack_begin @ data) t)"
  shows "trailer_bytes (pack_finish (pack_begin @ data) t) = Inr t"
proof -
  let ?pack = "pack_finish (pack_begin @ data) t"
  have p: "?pack = (magic @ data @ t) @ be_bytes 8 (length t) @ magic"
    by (simp add: pack_finish_def pack_begin_def)
  have "length t < 2 ^ 64" using assms unfolding p by (simp add: addressable_def)
  then have foot: "parse_footer ?pack = Inr (length t)" unfolding p by (rule parse_footer_suffix)
  have "slice (length (magic @ data)) (length (magic @ data) + length t)
      ((magic @ data) @ t @ be_bytes 8 (length t) @ magic) = t" by (rule slice_append_mid)
  then show ?thesis
    using foot by (simp add: trailer_bytes_def p HEADER_LEN_def FOOTER_LEN_def checked_sub_def add.assoc)
qed

text \<open>reading the trailer of a pack inverts writing it, and the reader accepts nothing but
  packs of that layout: header magic, any chunk data, the trailer, its big-endian length, magic.\<close>

theorem trailer_bytes_iff_finish:
  assumes "addressable pack"
  shows "trailer_bytes pack = Inr t \<longleftrightarrow> (\<exists>data. pack = pack_finish (pack_begin @ data) t)"
proof
  assume ok: "trailer_bytes pack = Inr t"
  then obtain n start where
      len: "HEADER_LEN + FOOTER_LEN \<le> length pack" and hd: "take HEADER_LEN pack = magic"
    and foot: "parse_footer pack = Inr n"
    and n: "n \<le> length pack - FOOTER_LEN" and start: "start = length pack - FOOTER_LEN - n"
    and s8: "HEADER_LEN \<le> start" and t: "t = slice start (length pack - FOOTER_LEN) pack"
    by (auto simp: trailer_bytes_def result_simps Let_def split: if_splits option.splits)
  from parse_footer_sound [OF foot] obtain p
    where p: "pack = p @ be_bytes 8 n @ magic" by blast
  have lp: "length pack - FOOTER_LEN = length p" using p by (simp add: FOOTER_LEN_def)
  have t': "t = drop start p" using t p start n by (simp add: slice_def FOOTER_LEN_def)
  have hd': "take 8 p = magic" using hd p s8 start lp by (simp add: HEADER_LEN_def)
  have "drop (start - 8) (drop 8 p) = t" using t' s8 by (simp add: HEADER_LEN_def)
  then have "p = magic @ take (start - 8) (drop 8 p) @ t"
    using hd' append_take_drop_id [of 8 p] append_take_drop_id [of "start - 8" "drop 8 p"] by simp
  moreover have "length t = n" using t' start lp n by simp
  ultimately have "pack = pack_finish (pack_begin @ take (start - 8) (drop 8 p)) t"
    using p by (simp add: pack_finish_def pack_begin_def)
  then show "\<exists>data. pack = pack_finish (pack_begin @ data) t" by blast
next
  assume "\<exists>data. pack = pack_finish (pack_begin @ data) t"
  then show "trailer_bytes pack = Inr t" using pack_trailer_roundtrip assms by blast
qed

theorem trailer_bytes_witness:
  "trailer_bytes (pack_finish (pack_begin @ [1, 2, 3]) [9, 9]) = Inr [9, 9]"
  using trailer_bytes_iff_finish [of "pack_finish (pack_begin @ [1, 2, 3]) [9, 9]" "[9, 9]"]
  by (auto simp: addressable_def layout_simps pack_begin_def FOOTER_LEN_def)

end
