(* ===== verification/Crypto.thy ===== *)
theory Crypto
  imports Config_Format Pack_Format
begin

text \<open>
  \<open>crates/kist-crypto/src/lib.rs\<close>: the key hierarchy (password, key-encryption key, master key,
  four derived keys) and the sealed objects (nonce, ciphertext, tag). The primitives are the
  fields of the \<open>ext\<close> record; the operating system's random bytes are an argument of each
  operation that draws them (\<open>Inl\<close> the error text when the source fails). The nonce, key and
  digest arrays of the code have a fixed size, so \<open>rng_ok\<close> states the length.
\<close>

definition NONCE_LEN :: nat where "NONCE_LEN = 24"
definition MAX_KDF_M_COST_KIB :: nat where "MAX_KDF_M_COST_KIB = 1024 * 1024"
definition MAX_KDF_T_COST :: nat where "MAX_KDF_T_COST = 64"
definition MAX_KDF_P_COST :: nat where "MAX_KDF_P_COST = 64"

definition CTX_HASH_KEY :: string where "CTX_HASH_KEY = ''kist/v3/hash''"
definition CTX_CHUNK_KEY :: string where "CTX_CHUNK_KEY = ''kist/v3/chunk''"
definition CTX_META_KEY :: string where "CTX_META_KEY = ''kist/v3/meta''"
definition CTX_INDEX_KEY :: string where "CTX_INDEX_KEY = ''kist/v3/index''"
definition CTX_CACHE_ID :: string where "CTX_CACHE_ID = ''kist/v3/cache''"

datatype crypto_error =
    WrongPassword
  | UnsupportedSlotVersion nat nat
  | Rng string
  | AuthFailed
  | UnsupportedKdf string
  | BadKdfParams string
  | BadWrappedPayload format_error
  | BadLength string nat nat
  | Compression string

record kdf_cost =
  kc_m_cost_kib :: nat
  kc_t_cost :: nat
  kc_p_cost :: nat

definition kdf_cost_default :: kdf_cost where
  "kdf_cost_default = \<lparr>kc_m_cost_kib = 64 * 1024, kc_t_cost = 3, kc_p_cost = 4\<rparr>"

record key_binding =
  kb_repo_id :: bytes
  kb_chunker :: chunker_params

definition binding_invariants :: "key_binding \<Rightarrow> invariants" where
  "binding_invariants b = new_invariants (kb_repo_id b) (kb_chunker b)"

definition random_bytes :: "string + bytes \<Rightarrow> crypto_error + bytes" where
  "random_bytes os = map_err Rng os"

definition kdf :: "ext \<Rightarrow> bytes \<Rightarrow> kdf_params \<Rightarrow> crypto_error + bytes" where
  "kdf ext password params =
     (if kp_algorithm params \<noteq> KDF_ARGON2ID then Inl (UnsupportedKdf (kp_algorithm params))
      else if kp_m_cost_kib params > MAX_KDF_M_COST_KIB \<or> kp_t_cost params > MAX_KDF_T_COST
        \<or> kp_p_cost params > MAX_KDF_P_COST \<or> length (kp_salt params) \<noteq> 16
      then Inl (BadKdfParams ''exceeds the allowed limits (config tampered?)'')
      else ok_or (BadKdfParams ''argon2'')
             (argon2id ext (kp_m_cost_kib params) (kp_t_cost params) (kp_p_cost params)
                password (kp_salt params)))"

section \<open>Sealed objects\<close>

definition nonce_from_slice :: "bytes \<Rightarrow> crypto_error + bytes" where
  "nonce_from_slice bs =
     (if length bs = NONCE_LEN then Inr bs else Inl (BadLength ''nonce'' NONCE_LEN (length bs)))"

definition seal :: "ext \<Rightarrow> string + bytes \<Rightarrow> bytes \<Rightarrow> bytes \<Rightarrow> bytes \<Rightarrow> crypto_error + bytes" where
  "seal ext os key aad plaintext =
     and_then (random_bytes os) (\<lambda>nonce.
       and_then (ok_or AuthFailed (aead_encrypt ext key nonce aad plaintext))
         (\<lambda>ct. Inr (nonce @ ct)))"

definition open_sealed :: "ext \<Rightarrow> bytes \<Rightarrow> bytes \<Rightarrow> bytes \<Rightarrow> crypto_error + bytes" where
  "open_sealed ext key aad bs =
     (if length bs < NONCE_LEN + TAG_LEN
      then Inl (BadLength ''sealed object'' (NONCE_LEN + TAG_LEN) (length bs))
      else and_then (nonce_from_slice (take NONCE_LEN bs)) (\<lambda>nonce.
        ok_or AuthFailed (aead_decrypt ext key nonce aad (drop NONCE_LEN bs))))"

definition rng_ok :: "string + bytes \<Rightarrow> bool" where
  "rng_ok os \<longleftrightarrow> (\<forall>n. os = Inr n \<longrightarrow> length n = NONCE_LEN)"

lemma open_seal:
  assumes "aead_ok ext" "rng_ok os" "seal ext os key aad m = Inr bs"
  shows "open_sealed ext key aad bs = Inr m" "length bs = NONCE_LEN + length m + TAG_LEN"
proof -
  from assms(3) obtain n ct where os: "os = Inr n" and ct: "aead_encrypt ext key n aad m = Some ct"
    and bs: "bs = n @ ct"
    by (auto simp: seal_def random_bytes_def result_simps)
  have n: "length n = NONCE_LEN" using assms(2) os by (simp add: rng_ok_def)
  have c: "aead_decrypt ext key n aad ct = Some m" "length ct = length m + 16"
    using assms(1) ct by (auto simp: aead_ok_def)
  show "open_sealed ext key aad bs = Inr m"
    using n c by (simp add: open_sealed_def bs nonce_from_slice_def TAG_LEN_def)
  show "length bs = NONCE_LEN + length m + TAG_LEN" using n c by (simp add: bs TAG_LEN_def)
qed

section \<open>The master key and its slots\<close>

definition wrap_master_key ::
  "ext \<Rightarrow> invariants codec \<Rightarrow> string + bytes \<Rightarrow> string + bytes \<Rightarrow> bytes \<Rightarrow> bytes \<Rightarrow> string \<Rightarrow> int \<Rightarrow>
     kdf_cost \<Rightarrow> key_binding \<Rightarrow> crypto_error + key_slot" where
  "wrap_master_key ext codec os_salt os_nonce master password name created_ns cost b =
     and_then (random_bytes os_salt) (\<lambda>salt.
       let params = \<lparr>kp_algorithm = KDF_ARGON2ID, kp_t_cost = kc_t_cost cost,
             kp_m_cost_kib = kc_m_cost_kib cost, kp_p_cost = kc_p_cost cost, kp_salt = salt\<rparr>
       in and_then (kdf ext password params) (\<lambda>kek.
         and_then (map_err BadWrappedPayload (cbor_encode codec (binding_invariants b))) (\<lambda>inv.
           and_then (seal ext os_nonce kek AAD_MASTER (master @ inv)) (\<lambda>sealed.
             Inr \<lparr>ks_version = FORMAT_VERSION, ks_name = name, ks_created_ns = created_ns,
                  ks_kdf = params, ks_wrapped = sealed\<rparr>))))"

definition create_key_slot ::
  "ext \<Rightarrow> invariants codec \<Rightarrow> string + bytes \<Rightarrow> string + bytes \<Rightarrow> string + bytes \<Rightarrow> bytes \<Rightarrow>
     string \<Rightarrow> int \<Rightarrow> kdf_cost \<Rightarrow> key_binding \<Rightarrow> crypto_error + (key_slot \<times> bytes)" where
  "create_key_slot ext codec os_master os_salt os_nonce password name created_ns cost b =
     and_then (random_bytes os_master) (\<lambda>master.
       and_then (wrap_master_key ext codec os_salt os_nonce master password name created_ns cost b)
         (\<lambda>slot. Inr (slot, master)))"

record unlocked_master =
  um_master :: bytes
  um_invariants :: invariants

definition unlock_key_slot ::
  "ext \<Rightarrow> invariants codec \<Rightarrow> bytes \<Rightarrow> key_slot \<Rightarrow> crypto_error + unlocked_master" where
  "unlock_key_slot ext codec password slot =
     (if ks_version slot \<noteq> KEY_SLOT_VERSION
      then Inl (UnsupportedSlotVersion (ks_version slot) KEY_SLOT_VERSION)
      else and_then (kdf ext password (ks_kdf slot)) (\<lambda>kek.
        and_then (map_err (\<lambda>_. WrongPassword) (open_sealed ext kek AAD_MASTER (ks_wrapped slot))) (\<lambda>plain.
          if length plain < 32
          then Inl (BadLength ''unwrapped master payload'' 32 (length plain))
          else and_then (map_err BadWrappedPayload (cbor_decode_as codec (drop 32 plain)))
            (\<lambda>inv. Inr \<lparr>um_master = take 32 plain, um_invariants = inv\<rparr>))))"

section \<open>Derived keys\<close>

record repo_keys =
  rk_hash :: bytes
  rk_chunk :: bytes
  rk_meta :: bytes
  rk_index :: bytes

definition keys_from_master :: "ext \<Rightarrow> bytes \<Rightarrow> repo_keys" where
  "keys_from_master ext m =
     \<lparr>rk_hash = derive_key ext CTX_HASH_KEY m, rk_chunk = derive_key ext CTX_CHUNK_KEY m,
      rk_meta = derive_key ext CTX_META_KEY m, rk_index = derive_key ext CTX_INDEX_KEY m\<rparr>"

definition cache_id :: "ext \<Rightarrow> repo_keys \<Rightarrow> bytes" where
  "cache_id ext k = take 16 (derive_key ext CTX_CACHE_ID (rk_hash k))"

definition chunk_id_of :: "ext \<Rightarrow> repo_keys \<Rightarrow> bytes \<Rightarrow> chunk_id" where
  "chunk_id_of ext k m = ChunkId (keyed_hash ext (rk_hash k) m)"

definition tree_id_of :: "ext \<Rightarrow> repo_keys \<Rightarrow> bytes \<Rightarrow> tree_id" where
  "tree_id_of ext k m = TreeId (keyed_hash ext (rk_hash k) m)"

definition seal_chunk where
  "seal_chunk ext os k i payload = seal ext os (rk_chunk k) (chunk_bytes i) payload"

definition open_chunk :: "ext \<Rightarrow> repo_keys \<Rightarrow> chunk_id \<Rightarrow> bytes \<Rightarrow> crypto_error + bytes" where
  "open_chunk ext k i entry =
     (if length entry < CHUNK_NONCE_LEN + TAG_LEN
      then Inl (BadLength ''chunk entry'' (CHUNK_NONCE_LEN + TAG_LEN) (length entry))
      else and_then (nonce_from_slice (take CHUNK_NONCE_LEN entry)) (\<lambda>nonce.
        ok_or AuthFailed (aead_decrypt ext (rk_chunk k) nonce (chunk_bytes i) (drop CHUNK_NONCE_LEN entry))))"

definition seal_tree where
  "seal_tree ext os k i m = seal ext os (rk_meta k) (tree_bytes i) m"

definition open_tree where
  "open_tree ext k i bs = open_sealed ext (rk_meta k) (tree_bytes i) bs"

definition seal_snapshot where
  "seal_snapshot ext os k path m = seal ext os (rk_meta k) (ascii path) m"

definition open_snapshot where
  "open_snapshot ext k path bs = open_sealed ext (rk_meta k) (ascii path) bs"

definition seal_pack_trailer where
  "seal_pack_trailer ext os k m = seal ext os (rk_index k) AAD_PACK_TRAILER m"

definition open_pack_trailer where
  "open_pack_trailer ext k bs = open_sealed ext (rk_index k) AAD_PACK_TRAILER bs"

definition seal_index_blob_in_place where
  "seal_index_blob_in_place ext os k buf =
     and_then (random_bytes os) (\<lambda>nonce.
       and_then (ok_or AuthFailed (aead_encrypt ext (rk_index k) nonce AAD_INDEX buf))
         (\<lambda>ct. Inr (nonce @ ct)))"

definition open_index_blob where
  "open_index_blob ext k bs = open_sealed ext (rk_index k) AAD_INDEX bs"

lemma demo_aead [simp]:
  "aead_encrypt demo_ext k n a m = Some (m @ demo_tag k a)"
  "aead_decrypt demo_ext k n a (m @ demo_tag k a) = Some m"
  by (simp_all add: demo_ext_def)

lemma demo_seal [simp]: "seal demo_ext (Inr n) k a m = Inr (n @ m @ demo_tag k a)"
  by (simp add: seal_def random_bytes_def)

lemma open_chunk_sealed: "open_chunk ext k i bs = (case open_sealed ext (rk_chunk k) (chunk_bytes i) bs of
    Inl (BadLength w e a) \<Rightarrow> Inl (BadLength ''chunk entry'' e a) | r \<Rightarrow> r)"
  by (simp add: open_chunk_def open_sealed_def CHUNK_NONCE_LEN_def NONCE_LEN_def
      nonce_from_slice_def ok_or_def split: option.splits)

lemma open_chunk_seal:
  assumes "aead_ok ext" "rng_ok os" "seal_chunk ext os k i m = Inr bs"
  shows "open_chunk ext k i bs = Inr m" "length bs = CHUNK_NONCE_LEN + length m + TAG_LEN"
  using open_seal [OF assms(1,2)] assms(3)
  by (simp_all add: open_chunk_sealed seal_chunk_def CHUNK_NONCE_LEN_def NONCE_LEN_def)

lemma open_sealed_objects:
  assumes "aead_ok ext" "rng_ok os"
  shows "seal_tree ext os k t m = Inr bs \<Longrightarrow> open_tree ext k t bs = Inr m"
    and "seal_snapshot ext os k p m = Inr bs \<Longrightarrow> open_snapshot ext k p bs = Inr m"
    and "seal_pack_trailer ext os k m = Inr bs \<Longrightarrow> open_pack_trailer ext k bs = Inr m"
    and "seal_index_blob_in_place ext os k m = Inr bs \<Longrightarrow> open_index_blob ext k bs = Inr m"
  using open_seal [OF assms]
  by (simp_all add: seal_tree_def open_tree_def seal_snapshot_def open_snapshot_def
      seal_pack_trailer_def open_pack_trailer_def seal_index_blob_in_place_def
      open_index_blob_def seal_def)

lemma open_created_slot:
  assumes "aead_ok ext" "rng_ok os_nonce" "\<forall>m. os_master = Inr m \<longrightarrow> length m = 32"
    "codec_ok codec V" "create_key_slot ext codec os_master os_salt os_nonce password name created cost b = Inr (slot, master)"
    "binding_invariants b \<in> V"
  shows "unlock_key_slot ext codec password slot =
           Inr \<lparr>um_master = master, um_invariants = binding_invariants b\<rparr>"
proof -
  from assms(5) obtain salt kek inv params sealed where
      m: "os_master = Inr master"
    and kek: "kdf ext password params = Inr kek"
    and inv: "cbor_encode codec (binding_invariants b) = Inr inv"
    and sealed: "seal ext os_nonce kek AAD_MASTER (master @ inv) = Inr sealed"
    and slot: "slot = \<lparr>ks_version = FORMAT_VERSION, ks_name = name, ks_created_ns = created,
                  ks_kdf = params, ks_wrapped = sealed\<rparr>"
    by (auto simp: create_key_slot_def wrap_master_key_def random_bytes_def result_simps Let_def)
  have "length master = 32" using assms(3) m by simp
  then show ?thesis
    using open_seal(1) [OF assms(1,2) sealed] kek codec_roundtrip [OF assms(4,6) inv]
    by (simp add: unlock_key_slot_def slot KEY_SLOT_VERSION_def FORMAT_VERSION_def)
qed

text \<open>C9: a key slot opens again under the password it was made with: unlocking what
  \<open>create_key_slot\<close> returns gives the same master key and, out of the authenticated
  ciphertext, the invariants it was bound to, which then match the repository's configuration
  exactly when the plaintext identifier and chunker parameters were not changed.\<close>

theorem unlock_created_slot:
  assumes "aead_ok ext" "rng_ok os_nonce" "\<forall>m. os_master = Inr m \<longrightarrow> length m = 32"
    "codec_ok codec {binding_invariants b}"
    "create_key_slot ext codec os_master os_salt os_nonce password name created cost b = Inr (slot, master)"
  shows "unlock_key_slot ext codec password slot =
           Inr \<lparr>um_master = master, um_invariants = binding_invariants b\<rparr>
    \<and> (\<forall>c. check_matches (binding_invariants b) c = Inr () \<longleftrightarrow>
           rc_repo_id c = kb_repo_id b \<and> rc_chunker c = kb_chunker b)"
  using open_created_slot [OF assms]
  by (auto simp: check_matches_def binding_invariants_def new_invariants_def)

theorem unlock_created_slot_witness:
  "let b = \<lparr>kb_repo_id = replicate 16 1, kb_chunker = chunker_params_default\<rparr>;
       codec = demo_codec [binding_invariants b]
   in \<exists>slot. create_key_slot demo_ext codec (Inr (replicate 32 5)) (Inr (replicate 16 6))
        (Inr (replicate 24 7)) (ascii ''pw'') ''d'' 0 kdf_cost_default b = Inr (slot, replicate 32 5)
      \<and> unlock_key_slot demo_ext codec (ascii ''pw'') slot =
          Inr \<lparr>um_master = replicate 32 5, um_invariants = binding_invariants b\<rparr>"
proof -
  define b where "b = \<lparr>kb_repo_id = replicate 16 1, kb_chunker = chunker_params_default\<rparr>"
  define codec where "codec = demo_codec [binding_invariants b]"
  let ?mk = "create_key_slot demo_ext codec (Inr (replicate 32 5)) (Inr (replicate 16 6))
        (Inr (replicate 24 7)) (ascii ''pw'') ''d'' 0 kdf_cost_default b"
  have "\<exists>slot. ?mk = Inr (slot, replicate 32 5)"
    by (simp add: create_key_slot_def wrap_master_key_def random_bytes_def kdf_def seal_def
        codec_def kdf_cost_default_def MAX_KDF_M_COST_KIB_def
        MAX_KDF_T_COST_def MAX_KDF_P_COST_def Let_def)
      (simp add: demo_ext_def)
  then obtain slot where mk: "?mk = Inr (slot, replicate 32 5)" by blast
  have "unlock_key_slot demo_ext codec (ascii ''pw'') slot =
          Inr \<lparr>um_master = replicate 32 5, um_invariants = binding_invariants b\<rparr>"
    using unlock_created_slot [OF demo_aead_ok _ _ _ mk] demo_codec_ok [of "[binding_invariants b]"]
    by (simp add: rng_ok_def NONCE_LEN_def codec_def)
  with mk show ?thesis by (auto simp: b_def [symmetric] codec_def [symmetric] Let_def)
qed

text \<open>a wrong key is never a silent success: opening any sealed object either returns the
  message the cipher authenticates for exactly this key, nonce and associated data, or fails;
  in particular a slot of another schema version is refused before the password is tried.\<close>

theorem unlock_only_authenticated:
  assumes "unlock_key_slot ext codec password slot = Inr u"
  shows "ks_version slot = KEY_SLOT_VERSION
    \<and> (\<exists>kek plain. kdf ext password (ks_kdf slot) = Inr kek
        \<and> aead_decrypt ext kek (take NONCE_LEN (ks_wrapped slot)) AAD_MASTER
            (drop NONCE_LEN (ks_wrapped slot)) = Some plain
        \<and> um_master u = take 32 plain \<and> length (um_master u) = 32
        \<and> cbor_decode_as codec (drop 32 plain) = Inr (um_invariants u))"
  using assms
  by (auto simp: unlock_key_slot_def open_sealed_def nonce_from_slice_def result_simps
      split: if_splits)

theorem unlock_only_authenticated_witness:
  "\<exists>slot. unlock_key_slot demo_ext (demo_codec [new_invariants [] chunker_params_default]) [1] slot
      = Inr \<lparr>um_master = replicate 32 5, um_invariants = new_invariants [] chunker_params_default\<rparr>
    \<and> ks_version slot = KEY_SLOT_VERSION"
proof -
  let ?inv = "new_invariants [] chunker_params_default"
  let ?k = "kdf_default_params\<lparr>kp_salt := replicate 16 0\<rparr>"
  let ?w = "replicate 24 0 @ (replicate 32 5 @ [0]) @ demo_tag (pad32 ([1] @ replicate 16 0)) AAD_MASTER"
  let ?slot = "\<lparr>ks_version = 3, ks_name = [], ks_created_ns = 0, ks_kdf = ?k, ks_wrapped = ?w\<rparr>"
  have u: "unlock_key_slot demo_ext (demo_codec [?inv]) [1] ?slot
      = Inr \<lparr>um_master = replicate 32 5, um_invariants = ?inv\<rparr>"
    by (simp add: unlock_key_slot_def KEY_SLOT_VERSION_def kdf_def kdf_default_params_def
        MAX_KDF_M_COST_KIB_def MAX_KDF_T_COST_def MAX_KDF_P_COST_def open_sealed_def
        NONCE_LEN_def TAG_LEN_def nonce_from_slice_def)
      (simp add: demo_ext_def)
  with unlock_only_authenticated [OF u] show ?thesis by blast
qed

end
