(* ===== verification/Core_Errors.thy ===== *)
theory Core_Errors
  imports Crypto Tree_Format
begin

text \<open>
  \<open>crates/kist-core/src/lib.rs\<close> and the error type of \<open>crates/kist-backend/src/lib.rs\<close>: the
  errors every operation of the core returns, with the transparent wrapping of the lower
  layers' errors, and the depth bound of the tree walks.
\<close>

datatype store_error = StoreNotFound | StoreAlreadyExists | StoreOther string

datatype backend_error =
    ObjNotFound string
  | ObjAlreadyExists string
  | InvalidKey string string
  | InvalidUrl string
  | LocalPath string string
  | SftpError string
  | RcloneError string
  | ConcurrentWrite string
  | StoreError store_error
  | BadObjectTimestamp string
  | SourceError string

datatype core_error =
    NotARepository
  | RepoExists
  | SnapshotNotFound string
  | AmbiguousSnapshot string nat
  | ChunkMissing chunk_id
  | PackMissing object_id "chunk_id option"
  | Corrupt string string
  | Io string string
  | RestoreBlocked string string
  | BadFileName string
  | Join string
  | InvalidConfig string
  | Usage string
  | Unsafe string
  | BackupTooLong int nat
  | TreeMarked object_id
  | BackendE backend_error
  | CryptoE crypto_error
  | FormatE format_error
  | ChunkerE string

definition MAX_TREE_DEPTH :: nat where "MAX_TREE_DEPTH = 256"

end
