(* ===== verification/Pack_Store.thy ===== *)
theory Pack_Store
  imports Core_Errors
begin

text \<open>
  \<open>crates/kist-core/src/pack.rs\<close>: compressing and sealing chunks into packs, reading one chunk
  back, and the trailer checks. The code's debug text of a chunk or a number in a message is
  left out of the modelled messages. \<open>tiles\<close> is the reference for the trailer check: the
  entries cover the data region exactly, one after the other, within the size limits, and
  name no chunk twice.
\<close>

definition compress_chunk :: "ext \<Rightarrow> bytes \<Rightarrow> core_error + bytes" where
  "compress_chunk ext raw =
     and_then (ok_or (Corrupt ''<chunk>'' ''zstd failed'') (zstd_encode ext raw)) (\<lambda>compressed.
       if length compressed < length raw - length raw div 16
       then Inr (algorithm_byte Zstd # compressed)
       else Inr (algorithm_byte Raw # raw))"

definition decompress_chunk :: "ext \<Rightarrow> bytes \<Rightarrow> nat \<Rightarrow> core_error + bytes" where
  "decompress_chunk ext payload limit =
     (case payload of
        [] \<Rightarrow> Inl (Corrupt ''<chunk>'' ''chunk payload is empty (no algorithm byte)'')
      | a # data \<Rightarrow>
          and_then (map_err FormatE (algorithm_from_u8 a)) (\<lambda>alg.
            case alg of
              Raw \<Rightarrow> Inr data
            | Zstd \<Rightarrow>
                and_then (ok_or (Corrupt ''<chunk>'' ''zstd decode failed'')
                   (zstd_take ext (sat_add64 limit 1) data)) (\<lambda>out.
                  if length out > limit then Inl (Corrupt ''<chunk>'' ''over the limit'')
                  else Inr out)))"

record finished_pack =
  fp_id :: object_id
  fp_bytes :: bytes
  fp_entries :: "pack_entry list"

record pack_writer =
  pw_keys :: repo_keys
  pw_target_size :: nat
  pw_max_sealed :: nat
  pw_buf :: bytes
  pw_entries :: "pack_entry list"

definition empty_buf :: bytes where "empty_buf = magic"

definition new_pack_writer :: "repo_keys \<Rightarrow> nat \<Rightarrow> nat \<Rightarrow> pack_writer" where
  "new_pack_writer keys target max_chunk =
     \<lparr>pw_keys = keys, pw_target_size = target,
      pw_max_sealed = max_chunk + 1 + (CHUNK_NONCE_LEN + TAG_LEN),
      pw_buf = empty_buf, pw_entries = []\<rparr>"

definition pw_is_empty :: "pack_writer \<Rightarrow> bool" where "pw_is_empty w \<longleftrightarrow> pw_entries w = []"

definition pw_is_full :: "pack_writer \<Rightarrow> bool" where
  "pw_is_full w \<longleftrightarrow> pw_target_size w \<le> length (pw_buf w)"

definition pw_add ::
  "ext \<Rightarrow> string + bytes \<Rightarrow> pack_writer \<Rightarrow> chunk_id \<Rightarrow> bytes \<Rightarrow> core_error + (pack_entry \<times> pack_writer)" where
  "pw_add ext os w i plaintext =
     and_then (compress_chunk ext plaintext) (\<lambda>payload.
       and_then (map_err CryptoE (seal_chunk ext os (pw_keys w) i payload)) (\<lambda>sealed.
         let entry = \<lparr>pe_id = i, pe_offset = length (pw_buf w), pe_length = length sealed,
                      pe_raw_len = length plaintext\<rparr>
         in Inr (entry, w\<lparr>pw_buf := pw_buf w @ sealed, pw_entries := pw_entries w @ [entry]\<rparr>)))"

definition pw_finish ::
  "ext \<Rightarrow> pack_trailer codec \<Rightarrow> string + bytes \<Rightarrow> pack_writer \<Rightarrow> (core_error + finished_pack option) \<times> pack_writer" where
  \<comment> \<open>the writer is reset before the trailer is encoded and sealed, so it is also when they fail\<close>
  "pw_finish ext codec os w =
     (if pw_entries w = [] then (Inr None, w)
      else (and_then (map_err FormatE (cbor_encode codec (new_trailer (pw_entries w)))) (\<lambda>trailer.
              and_then (map_err CryptoE (seal_pack_trailer ext os (pw_keys w) trailer)) (\<lambda>sealed.
                let bs = pack_finish (pw_buf w) sealed
                in Inr (Some \<lparr>fp_id = object_id_of ext bs, fp_bytes = bs, fp_entries = pw_entries w\<rparr>))),
            w\<lparr>pw_buf := empty_buf, pw_entries := []\<rparr>))"

definition decode_chunk ::
  "ext \<Rightarrow> repo_keys \<Rightarrow> chunk_id \<Rightarrow> bytes \<Rightarrow> nat \<Rightarrow> nat \<Rightarrow> core_error + bytes" where
  "decode_chunk ext keys i entry_bytes raw_len max_chunk =
     and_then (map_err CryptoE (open_chunk ext keys i entry_bytes)) (\<lambda>payload.
       and_then (decompress_chunk ext payload max_chunk) (\<lambda>plaintext.
         if length plaintext \<noteq> raw_len then Inl (Corrupt ''chunk'' ''length does not match index'')
         else if chunk_id_of ext keys plaintext \<noteq> i then Inl (Corrupt ''chunk'' ''content hash mismatch'')
         else Inr plaintext))"

section \<open>The trailer checks\<close>

definition MAX_CHUNKER_MAX :: nat where "MAX_CHUNKER_MAX = 64 * 1024 * 1024"
definition MAX_ENTRY_LEN :: nat where
  "MAX_ENTRY_LEN = MAX_CHUNKER_MAX + 1 + (CHUNK_NONCE_LEN + TAG_LEN)"

fun trailer_loop ::
  "string \<Rightarrow> nat \<Rightarrow> chunk_id set \<Rightarrow> nat \<Rightarrow> pack_entry list \<Rightarrow> core_error + nat" where
  "trailer_loop key data_end seen next [] = Inr next"
| "trailer_loop key data_end seen next (e # es) =
     (if pe_offset e \<noteq> next then Inl (Corrupt key ''entry starts at, expected'')
      else if pe_length e < MIN_ENTRY_LEN
      then Inl (Corrupt key ''entry is shorter than an empty sealed chunk'')
      else if pe_length e > MAX_ENTRY_LEN
      then Inl (Corrupt key ''entry is over what a sealed chunk can be'')
      else if pe_offset e + pe_length e > data_end
      then Inl (Corrupt key ''entry ends past the bytes of chunk data'')
      else if pe_id e \<in> seen then Inl (Corrupt key ''chunk is listed twice'')
      else trailer_loop key data_end (insert (pe_id e) seen) (pe_offset e + pe_length e) es)"

definition validate_trailer :: "string \<Rightarrow> pack_trailer \<Rightarrow> nat \<Rightarrow> core_error + unit" where
  "validate_trailer key trailer data_end =
     (if pt_entries trailer = [] then Inl (Corrupt key ''trailer lists no chunks'')
      else and_then (trailer_loop key data_end {} HEADER_LEN (pt_entries trailer)) (\<lambda>next.
        if next \<noteq> data_end then Inl (Corrupt key ''entries cover fewer bytes than the pack holds'')
        else Inr ()))"

definition decode_trailer ::
  "ext \<Rightarrow> pack_trailer codec \<Rightarrow> repo_keys \<Rightarrow> string \<Rightarrow> bytes \<Rightarrow> nat \<Rightarrow> core_error + pack_trailer" where
  "decode_trailer ext codec keys key sealed data_end =
     and_then (map_err (\<lambda>_. Corrupt key ''trailer'') (open_pack_trailer ext keys sealed)) (\<lambda>plain.
       and_then (map_err (\<lambda>_. Corrupt key ''trailer'') (cbor_decode_as codec plain)) (\<lambda>trailer.
         if pt_version trailer \<noteq> FORMAT_VERSION
         then Inl (Corrupt key ''trailer declares another version'')
         else and_then (validate_trailer key trailer data_end) (\<lambda>_. Inr trailer)))"

definition read_trailer ::
  "ext \<Rightarrow> pack_trailer codec \<Rightarrow> repo_keys \<Rightarrow> string \<Rightarrow> bytes \<Rightarrow> core_error + pack_trailer" where
  "read_trailer ext codec keys key pack_bytes =
     and_then (map_err (\<lambda>_. Corrupt key ''trailer'') (trailer_bytes pack_bytes)) (\<lambda>sealed.
       decode_trailer ext codec keys key sealed (length pack_bytes - FOOTER_LEN - length sealed))"

section \<open>The trailer check against its reference\<close>

fun offsets_from :: "nat \<Rightarrow> pack_entry list \<Rightarrow> bool" where
  "offsets_from next [] = True"
| "offsets_from next (e # es) \<longleftrightarrow> pe_offset e = next \<and> offsets_from (next + pe_length e) es"

definition tiles :: "nat \<Rightarrow> nat \<Rightarrow> pack_entry list \<Rightarrow> bool" where
  "tiles start stop es \<longleftrightarrow> offsets_from start es \<and> stop = start + sum_list (map pe_length es)
     \<and> (\<forall>e \<in> set es. MIN_ENTRY_LEN \<le> pe_length e \<and> pe_length e \<le> MAX_ENTRY_LEN)
     \<and> distinct (map pe_id es)"

lemma trailer_loop_iff:
  "trailer_loop key data_end seen next es = Inr stop \<longleftrightarrow>
     tiles next stop es \<and> (es \<noteq> [] \<longrightarrow> stop \<le> data_end) \<and> seen \<inter> pe_id ` set es = {}"
proof (induction es arbitrary: seen "next")
  case Nil
  then show ?case by (auto simp: tiles_def)
next
  case (Cons e es)
  show ?case
    by (auto simp: Cons.IH tiles_def add.assoc)
qed

lemma validate_trailer_iff:
  "validate_trailer key t data_end = Inr () \<longleftrightarrow>
     pt_entries t \<noteq> [] \<and> tiles HEADER_LEN data_end (pt_entries t)"
  by (auto simp: validate_trailer_def trailer_loop_iff result_simps tiles_def split: if_splits)

text \<open>the trailer check accepts exactly the tables that tile the data region: entries start at
  the header, follow each other without gap or overlap, end where the trailer begins, have a
  length a sealed chunk can have, and name no chunk twice. Two entries of an accepted trailer
  therefore never share a byte.\<close>

theorem validate_trailer_iff_tiles:
  "validate_trailer key t data_end = Inr () \<longleftrightarrow>
     pt_entries t \<noteq> [] \<and> offsets_from HEADER_LEN (pt_entries t)
     \<and> data_end = HEADER_LEN + sum_list (map pe_length (pt_entries t))
     \<and> (\<forall>e \<in> set (pt_entries t). MIN_ENTRY_LEN \<le> pe_length e \<and> pe_length e \<le> MAX_ENTRY_LEN)
     \<and> distinct (map pe_id (pt_entries t))"
  by (simp add: validate_trailer_iff tiles_def)

theorem validate_trailer_witness:
  "validate_trailer ''packs/x''
     (new_trailer [\<lparr>pe_id = ChunkId [1], pe_offset = 8, pe_length = 50, pe_raw_len = 9\<rparr>,
                   \<lparr>pe_id = ChunkId [2], pe_offset = 58, pe_length = 41, pe_raw_len = 0\<rparr>]) 99 = Inr ()"
  by (subst validate_trailer_iff_tiles)
    (simp add: new_trailer_def pack_consts MAX_ENTRY_LEN_def MAX_CHUNKER_MAX_def)

section \<open>Reading back what was written\<close>

lemma compress_chunk_length: "compress_chunk ext raw = Inr p \<Longrightarrow> 1 \<le> length p \<and> length p \<le> 1 + length raw"
  by (auto simp: compress_chunk_def result_simps split: if_splits)

lemma decompress_compress:
  assumes "zstd_ok ext" "compress_chunk ext raw = Inr p" "length raw \<le> limit" "limit < u64_max"
  shows "decompress_chunk ext p limit = Inr raw"
proof -
  have "sat_add64 limit 1 = limit + 1" using assms(4) by (intro sat_add64_small) simp
  with assms show ?thesis
    by (auto simp: compress_chunk_def decompress_chunk_def result_simps zstd_ok_def algorithm_byte_def
        algorithm_from_u8_def split: if_splits)
qed

text \<open>One stored chunk: the bytes an entry points at decode to the plaintext.\<close>

definition holds_chunk :: "ext \<Rightarrow> repo_keys \<Rightarrow> nat \<Rightarrow> bytes \<Rightarrow> pack_entry \<Rightarrow> bytes \<Rightarrow> bool" where
  "holds_chunk ext keys max_chunk data e m \<longleftrightarrow>
     pe_id e = chunk_id_of ext keys m \<and> pe_raw_len e = length m
     \<and> pe_offset e + pe_length e \<le> length data
     \<and> decode_chunk ext keys (pe_id e) (slice (pe_offset e) (pe_offset e + pe_length e) data)
         (pe_raw_len e) max_chunk = Inr m"

lemma slice_append_left: "to \<le> length a \<Longrightarrow> slice from to (a @ b) = slice from to a"
  by (simp add: slice_def)

lemma holds_chunk_append:
  "holds_chunk ext keys mx data e m \<Longrightarrow> holds_chunk ext keys mx (data @ rest) e m"
  by (auto simp: holds_chunk_def slice_append_left)

record write_op =
  wo_rng :: "string + bytes"
  wo_id :: chunk_id
  wo_data :: bytes

fun pw_add_all :: "ext \<Rightarrow> pack_writer \<Rightarrow> write_op list \<Rightarrow> core_error + pack_writer" where
  "pw_add_all ext w [] = Inr w"
| "pw_add_all ext w (op # ops) =
     and_then (pw_add ext (wo_rng op) w (wo_id op) (wo_data op)) (\<lambda>(e, w'). pw_add_all ext w' ops)"

definition op_ok :: "ext \<Rightarrow> repo_keys \<Rightarrow> nat \<Rightarrow> write_op \<Rightarrow> bool" where
  "op_ok ext keys mx op \<longleftrightarrow> rng_ok (wo_rng op) \<and> wo_id op = chunk_id_of ext keys (wo_data op)
     \<and> length (wo_data op) \<le> mx"

definition writer_inv :: "ext \<Rightarrow> nat \<Rightarrow> bytes list \<Rightarrow> pack_writer \<Rightarrow> bool" where
  "writer_inv ext mx ms w \<longleftrightarrow>
     take HEADER_LEN (pw_buf w) = magic \<and> HEADER_LEN \<le> length (pw_buf w)
     \<and> offsets_from HEADER_LEN (pw_entries w)
     \<and> length (pw_buf w) = HEADER_LEN + sum_list (map pe_length (pw_entries w))
     \<and> (\<forall>e \<in> set (pw_entries w). MIN_ENTRY_LEN \<le> pe_length e \<and> pe_length e \<le> MAX_ENTRY_LEN)
     \<and> list_all2 (holds_chunk ext (pw_keys w) mx (pw_buf w)) (pw_entries w) ms"

lemma offsets_from_snoc:
  "offsets_from n (es @ [e]) \<longleftrightarrow> offsets_from n es \<and> pe_offset e = n + sum_list (map pe_length es)"
  by (induction es arbitrary: n) (auto simp: add.assoc)

lemma new_writer_inv: "writer_inv ext mx [] (new_pack_writer keys target max_chunk)"
  by (simp add: writer_inv_def new_pack_writer_def empty_buf_def HEADER_LEN_def)

lemma pw_add_inv:
  assumes "aead_ok ext" "zstd_ok ext" "mx \<le> MAX_CHUNKER_MAX" "writer_inv ext mx ms w"
    "op_ok ext (pw_keys w) mx op" "pw_add ext (wo_rng op) w (wo_id op) (wo_data op) = Inr (e, w')"
  shows "writer_inv ext mx (ms @ [wo_data op]) w'" "pw_keys w' = pw_keys w"
    "pw_entries w' = pw_entries w @ [e]" "pe_id e = wo_id op"
proof -
  let ?m = "wo_data op" and ?i = "wo_id op"
  from assms(6) obtain payload sealed where p: "compress_chunk ext ?m = Inr payload"
    and s: "seal_chunk ext (wo_rng op) (pw_keys w) ?i payload = Inr sealed"
    and e: "e = \<lparr>pe_id = ?i, pe_offset = length (pw_buf w), pe_length = length sealed, pe_raw_len = length ?m\<rparr>"
    and w': "w' = w\<lparr>pw_buf := pw_buf w @ sealed, pw_entries := pw_entries w @ [e]\<rparr>"
    by (auto simp: pw_add_def result_simps Let_def)
  show "pw_keys w' = pw_keys w" "pw_entries w' = pw_entries w @ [e]" "pe_id e = ?i"
    using w' e by simp_all
  have op: "rng_ok (wo_rng op)" "?i = chunk_id_of ext (pw_keys w) ?m" "length ?m \<le> mx"
    using assms(5) by (auto simp: op_ok_def)
  note os = open_chunk_seal [OF assms(1) op(1) s]
  note pl = compress_chunk_length [OF p]
  have mx: "mx < u64_max" using assms(3) by (simp add: MAX_CHUNKER_MAX_def u64_max_def)
  have dec: "decode_chunk ext (pw_keys w) ?i sealed (length ?m) mx = Inr ?m"
    using os(1) decompress_compress [OF assms(2) p op(3) mx] op(2) by (simp add: decode_chunk_def)
  have sl: "slice (length (pw_buf w)) (length (pw_buf w) + length sealed) (pw_buf w @ sealed) = sealed"
    by (simp add: slice_def)
  have here: "holds_chunk ext (pw_keys w) mx (pw_buf w @ sealed) e ?m"
    using dec op(2) by (simp add: holds_chunk_def e sl)
  have "list_all2 (holds_chunk ext (pw_keys w) mx (pw_buf w @ sealed)) (pw_entries w) ms"
    using assms(4) holds_chunk_append
    by (auto simp: writer_inv_def intro: list_all2_mono)
  moreover have "MIN_ENTRY_LEN \<le> length sealed" "length sealed \<le> MAX_ENTRY_LEN"
    using pl os(2) op(3) assms(3) by (simp_all add: pack_consts MAX_ENTRY_LEN_def)
  ultimately show "writer_inv ext mx (ms @ [?m]) w'"
    using assms(4) here
    by (auto simp: writer_inv_def w' e offsets_from_snoc list_all2_appendI)
qed

lemma pw_add_all_inv:
  assumes "aead_ok ext" "zstd_ok ext" "mx \<le> MAX_CHUNKER_MAX"
  shows "writer_inv ext mx ms w \<Longrightarrow> \<forall>op \<in> set ops. op_ok ext (pw_keys w) mx op \<Longrightarrow>
    pw_add_all ext w ops = Inr w' \<Longrightarrow>
    writer_inv ext mx (ms @ map wo_data ops) w' \<and> pw_keys w' = pw_keys w
    \<and> map pe_id (pw_entries w') = map pe_id (pw_entries w) @ map wo_id ops"
proof (induction ops arbitrary: w ms)
  case Nil
  then show ?case by simp
next
  case (Cons op ops)
  from Cons.prems(3) obtain e w1
    where a: "pw_add ext (wo_rng op) w (wo_id op) (wo_data op) = Inr (e, w1)"
    and r: "pw_add_all ext w1 ops = Inr w'" by (auto simp: result_simps)
  have "op_ok ext (pw_keys w) mx op" using Cons.prems(2) by simp
  note inv = pw_add_inv [OF assms Cons.prems(1) this a]
  from Cons.IH [OF inv(1) _ r] Cons.prems(2) inv(2-4) show ?case by auto
qed

text \<open>C1: a pack reads back as it was written: sealing distinct chunks of at most
  \<open>chunker.max\<close> bytes into a pack, the finished bytes hash to the pack's name, their trailer
  passes every check and lists the chunks in order, and decoding the bytes each entry points at
  returns the chunk's plaintext.\<close>

theorem pack_roundtrip:
  assumes "aead_ok ext" "zstd_ok ext" "codec_ok codec UNIV" "rng_ok os" "mx \<le> MAX_CHUNKER_MAX"
    "\<forall>op \<in> set ops. op_ok ext keys mx op" "distinct (map wo_id ops)"
    "pw_add_all ext (new_pack_writer keys target mx) ops = Inr w"
    "pw_finish ext codec os w = (Inr (Some fp), w')" "addressable (fp_bytes fp)"
  shows "fp_id fp = object_id_of ext (fp_bytes fp)
    \<and> read_trailer ext codec keys key (fp_bytes fp) = Inr (new_trailer (fp_entries fp))
    \<and> list_all2 (holds_chunk ext keys mx (fp_bytes fp)) (fp_entries fp) (map wo_data ops)
    \<and> pw_buf w' = empty_buf \<and> pw_entries w' = []"
proof -
  have inv: "writer_inv ext mx (map wo_data ops) w" and keys: "pw_keys w = keys"
    and ids: "map pe_id (pw_entries w) = map wo_id ops"
    using pw_add_all_inv [OF assms(1,2,5) new_writer_inv _ assms(8)] assms(6)
    by (auto simp: new_pack_writer_def)
  from assms(9) obtain trailer sealed where ne: "pw_entries w \<noteq> []"
    and enc: "cbor_encode codec (new_trailer (pw_entries w)) = Inr trailer"
    and seal: "seal_pack_trailer ext os keys trailer = Inr sealed"
    and fp: "fp = \<lparr>fp_id = object_id_of ext (pack_finish (pw_buf w) sealed),
       fp_bytes = pack_finish (pw_buf w) sealed, fp_entries = pw_entries w\<rparr>"
    and w': "w' = w\<lparr>pw_buf := empty_buf, pw_entries := []\<rparr>"
    by (auto simp: pw_finish_def keys result_simps Let_def split: if_splits)
  obtain data where buf: "pw_buf w = pack_begin @ data"
    using inv by (metis writer_inv_def append_take_drop_id pack_begin_def)
  have tb: "trailer_bytes (fp_bytes fp) = Inr sealed"
    using assms(10) pack_trailer_roundtrip [of data sealed]
    by (simp add: fp buf)
  have "open_pack_trailer ext keys sealed = Inr trailer"
    using open_sealed_objects(3) [OF assms(1,4) seal] .
  moreover have "cbor_decode_as codec trailer = Inr (new_trailer (pw_entries w))"
    using codec_roundtrip [OF assms(3) _ enc] by simp
  moreover have "validate_trailer key (new_trailer (pw_entries w)) (length (pw_buf w)) = Inr ()"
    using inv ne assms(7) ids
    by (simp add: validate_trailer_iff tiles_def writer_inv_def new_trailer_def)
  moreover have "length (fp_bytes fp) - FOOTER_LEN - length sealed = length (pw_buf w)"
    by (simp add: fp length_pack_finish)
  ultimately have "read_trailer ext codec keys key (fp_bytes fp) = Inr (new_trailer (fp_entries fp))"
    using tb by (simp add: read_trailer_def decode_trailer_def fp new_trailer_def)
  moreover have "list_all2 (holds_chunk ext keys mx (fp_bytes fp)) (fp_entries fp) (map wo_data ops)"
    using inv holds_chunk_append
    by (auto simp: writer_inv_def keys fp pack_finish_def intro: list_all2_mono)
  ultimately show ?thesis by (simp add: fp w')
qed

theorem pack_roundtrip_witness:
  "\<exists>w w' fp codec. let keys = keys_from_master demo_ext (replicate 32 1);
      ops = [\<lparr>wo_rng = Inr (replicate 24 0), wo_id = ChunkId (pad32 [1, 2, 3]), wo_data = [1, 2, 3]\<rparr>]
    in pw_add_all demo_ext (new_pack_writer keys 100 10) ops = Inr w
     \<and> pw_finish demo_ext codec (Inr (replicate 24 0)) w = (Inr (Some fp), w')
     \<and> read_trailer demo_ext codec keys ''packs/x'' (fp_bytes fp) = Inr (new_trailer (fp_entries fp))"
proof -
  define keys where "keys = keys_from_master demo_ext (replicate 32 1)"
  define op where "op = \<lparr>wo_rng = Inr (replicate 24 0), wo_id = ChunkId (pad32 [1, 2, 3]), wo_data = [1, 2, 3 :: u8]\<rparr>"
  let ?ops = "[op]"
  define e where "e = \<lparr>pe_id = ChunkId (pad32 [1, 2, 3]), pe_offset = 8, pe_length = 44, pe_raw_len = 3\<rparr>"
  define codec where "codec = demo_codec [new_trailer [e]]"
  have enc: "aead_encrypt demo_ext k n a m = Some (m @ demo_tag k a)" for k n a m
    by (simp add: demo_ext_def)
  obtain w where w: "pw_add_all demo_ext (new_pack_writer keys 100 10) ?ops = Inr w"
      "pw_entries w = [e]" "length (pw_buf w) = 52"
    by (simp add: op_def pw_add_def compress_chunk_def seal_chunk_def seal_def random_bytes_def enc
        new_pack_writer_def empty_buf_def e_def Let_def)
  obtain fp w' where fp: "pw_finish demo_ext codec (Inr (replicate 24 0)) w = (Inr (Some fp), w')"
      "length (fp_bytes fp) \<le> 200"
    using w(2,3) by (simp add: pw_finish_def seal_pack_trailer_def seal_def random_bytes_def enc
        codec_def Let_def pack_finish_def)
  have "\<forall>op \<in> set ?ops. op_ok demo_ext keys 10 op"
    by (simp add: op_def op_ok_def rng_ok_def NONCE_LEN_def chunk_id_of_def)
  moreover have "rng_ok (Inr (replicate 24 0))" by (simp add: rng_ok_def NONCE_LEN_def)
  moreover have "codec_ok codec UNIV" unfolding codec_def by (rule demo_codec_ok)
  moreover have "addressable (fp_bytes fp)" using fp(2) by (simp add: addressable_def)
  ultimately have "read_trailer demo_ext codec keys ''packs/x'' (fp_bytes fp) = Inr (new_trailer (fp_entries fp))"
    using pack_roundtrip [OF demo_aead_ok demo_zstd_ok, of codec "Inr (replicate 24 0)" 10 ?ops keys 100 w fp w' "''packs/x''"]
      w fp by (simp add: MAX_CHUNKER_MAX_def)
  then show ?thesis using w(1) fp(1) unfolding Let_def keys_def [symmetric] op_def [symmetric] by blast
qed

text \<open>a decoded chunk is the chunk that was asked for: whatever bytes the storage returns,
  the plaintext has the length the index records and hashes to the requested identifier, and it
  never exceeds \<open>chunker.max\<close> when it was compressed.\<close>

theorem decode_chunk_authentic:
  assumes "decode_chunk ext keys i data raw_len mx = Inr m"
  shows "chunk_id_of ext keys m = i \<and> length m = raw_len
    \<and> (\<exists>payload. open_chunk ext keys i data = Inr payload \<and>
         (payload = algorithm_byte Raw # m \<or>
          (\<exists>z. payload = algorithm_byte Zstd # z \<and> length m \<le> mx
             \<and> zstd_take ext (sat_add64 mx 1) z = Some m)))"
  using assms
  by (auto simp: decode_chunk_def decompress_chunk_def result_simps algorithm_from_u8_def
      algorithm_byte_def split: if_splits list.splits algorithm.splits)

theorem decode_chunk_authentic_witness:
  "chunk_id_of demo_ext (keys_from_master demo_ext [1]) [5, 6] = ChunkId (pad32 [5, 6])"
proof -
  let ?k = "keys_from_master demo_ext [1]" and ?i = "ChunkId (pad32 [5, 6])"
  let ?data = "replicate 24 0 @ [1, 5, 6] @ demo_tag (rk_chunk ?k) (pad32 [5, 6])"
  have "decode_chunk demo_ext ?k ?i ?data 2 10 = Inr [5, 6]"
    by (simp add: decode_chunk_def open_chunk_def pack_consts nonce_from_slice_def NONCE_LEN_def
        decompress_chunk_def algorithm_from_u8_def chunk_id_of_def sat_add64_def u64_max_def)
      (simp add: demo_ext_def decompress_chunk_def algorithm_from_u8_def chunk_id_of_def sat_add64_def u64_max_def)
  from decode_chunk_authentic [OF this] show ?thesis by simp
qed

end
