(* ===== verification/Chunk_Index.thy ===== *)
theory Chunk_Index
  imports Pack_Store "HOL-Library.AList" "HOL-Library.Product_Lexorder"
begin

text \<open>
  \<open>crates/kist-core/src/index.rs\<close>: where each chunk is stored. A \<open>DiskTable\<close> is a file of fixed
  96-byte records sorted by chunk identifier and searched by bisection; a \<open>ChunkIndex\<close> is a
  hash map over an optional table. A hash map is an association list updated by
  \<open>AList.update\<close>, an open file its \<open>read_exact_at\<close> (which can fail). The merge rule
  \<open>add_pack\<close> and \<open>add_pack_ranked\<close> share is the locale \<open>merge_rule\<close>: its result depends on the
  set of offered locations only, not on their order.
\<close>

record chunk_location =
  lo_pack :: object_id
  lo_offset :: nat
  lo_length :: nat
  lo_raw_len :: nat

definition PENDING_PACK :: object_id where "PENDING_PACK = OBJECT_ZERO"

record table_record =
  tb_id :: chunk_id
  tb_location :: chunk_location

definition TABLE_MAGIC :: bytes where "TABLE_MAGIC = ascii ''KISTIDX1''"
definition TABLE_VERSION :: nat where "TABLE_VERSION = 2"
definition TABLE_HEADER_LEN :: nat where "TABLE_HEADER_LEN = 32"
definition RECORD_LEN :: nat where "RECORD_LEN = 96"

definition record_encode :: "table_record \<Rightarrow> bytes" where
  "record_encode r =
     (let l = tb_location r
      in chunk_bytes (tb_id r) @ object_bytes (lo_pack l) @ le_bytes 8 (lo_offset l)
         @ le_bytes 8 (lo_length l) @ le_bytes 8 (lo_raw_len l) @ replicate 8 0)"

definition record_decode :: "bytes \<Rightarrow> table_record" where
  "record_decode b =
     \<lparr>tb_id = ChunkId (slice 0 32 b),
      tb_location = \<lparr>lo_pack = ObjectId (slice 32 64 b), lo_offset = of_le (slice 64 72 b),
        lo_length = of_le (slice 72 80 b), lo_raw_len = of_le (slice 80 88 b)\<rparr>\<rparr>"

section \<open>The table file\<close>

type_synonym file_handle = "nat \<Rightarrow> nat \<Rightarrow> string + bytes" \<comment> \<open>offset, length\<close>

record disk_table =
  dt_file :: file_handle
  dt_len :: nat

definition bytes_file :: "bytes \<Rightarrow> file_handle" where
  "bytes_file bs off n =
     (if off + n \<le> length bs then Inr (slice off (off + n) bs) else Inl ''failed to fill whole buffer'')"

definition table_header :: "nat \<Rightarrow> bytes" where
  "table_header n = TABLE_MAGIC @ le_bytes 4 TABLE_VERSION @ replicate 4 0 @ le_bytes 8 n @ replicate 8 0"

fun write_records :: "(core_error + table_record) list \<Rightarrow> core_error + (bytes \<times> nat)" where
  "write_records [] = Inr ([], 0)"
| "write_records (Inl e # rs) = Inl e"
| "write_records (Inr r # rs) =
     and_then (write_records rs) (\<lambda>(bs, n). Inr (record_encode r @ bs, n + 1))"

definition table_open :: "string \<Rightarrow> bytes \<Rightarrow> core_error + disk_table" where
  "table_open path contents =
     (let header = take TABLE_HEADER_LEN contents; len = of_le (slice 16 24 header)
      in if length contents < TABLE_HEADER_LEN then Inl (Corrupt path ''index cache too short'')
         else if take 8 header \<noteq> TABLE_MAGIC then Inl (Corrupt path ''not an index cache table'')
         else if of_le (slice 8 12 header) \<noteq> TABLE_VERSION
         then Inl (Corrupt path ''unsupported index cache version'')
         else if length contents \<noteq> TABLE_HEADER_LEN + len * RECORD_LEN
         then Inl (Corrupt path ''index cache size does not match its record count'')
         else Inr \<lparr>dt_file = bytes_file contents, dt_len = len\<rparr>)"

definition table_build_sorted :: "string \<Rightarrow> (core_error + table_record) list \<Rightarrow> core_error + disk_table" where
  \<comment> \<open>the header is written again once the record count is known\<close>
  "table_build_sorted path rs =
     and_then (write_records rs) (\<lambda>(bs, n). table_open path (table_header n @ bs))"

definition table_build :: "string \<Rightarrow> table_record list \<Rightarrow> core_error + disk_table" where
  "table_build path rs =
     table_build_sorted path
       (map Inr (dedup_by (\<lambda>later earlier. tb_id later = tb_id earlier) (sort_key tb_id rs)))"

definition read_record :: "disk_table \<Rightarrow> nat \<Rightarrow> core_error + table_record" where
  "read_record t i =
     and_then (map_err (Io ''<index cache>'') (dt_file t (TABLE_HEADER_LEN + i * RECORD_LEN) RECORD_LEN))
       (\<lambda>b. Inr (record_decode b))"

function table_search :: "disk_table \<Rightarrow> chunk_id \<Rightarrow> nat \<Rightarrow> nat \<Rightarrow> core_error + chunk_location option" where
  "table_search t i lo hi =
     (if lo < hi then
        (let m = lo + (hi - lo) div 2
         in and_then (read_record t m) (\<lambda>r.
              if tb_id r < i then table_search t i (m + 1) hi
              else if tb_id r > i then table_search t i lo m
              else Inr (Some (tb_location r))))
      else Inr None)"
  by pat_completeness auto
termination
  by (relation "measure (\<lambda>(t, i, lo, hi). hi - lo)") auto

declare table_search.simps [simp del]

definition table_get :: "disk_table \<Rightarrow> chunk_id \<Rightarrow> core_error + chunk_location option" where
  "table_get t i = table_search t i 0 (dt_len t)"

definition table_iter :: "disk_table \<Rightarrow> (core_error + table_record) list" where
  "table_iter t = map (read_record t) [0..<dt_len t]"

section \<open>The index\<close>

record chunk_index =
  ci_overlay :: "(chunk_id \<times> chunk_location) list"
  ci_base :: "disk_table option"
  ci_packs :: "(object_id \<times> nat) list"

definition new_index :: chunk_index where
  "new_index = \<lparr>ci_overlay = [], ci_base = None, ci_packs = []\<rparr>"

definition with_base :: "disk_table \<Rightarrow> (object_id \<times> nat) list \<Rightarrow> chunk_index" where
  "with_base t packs = \<lparr>ci_overlay = [], ci_base = Some t, ci_packs = packs\<rparr>"

definition base_get :: "chunk_index \<Rightarrow> chunk_id \<Rightarrow> chunk_location option" where
  "base_get x i =
     (case ci_base x of None \<Rightarrow> None
      | Some t \<Rightarrow> (case table_get t i of Inr loc \<Rightarrow> loc | Inl e \<Rightarrow> None))"

definition index_contains :: "chunk_index \<Rightarrow> chunk_id \<Rightarrow> bool" where
  "index_contains x i \<longleftrightarrow> map_of (ci_overlay x) i \<noteq> None \<or> base_get x i \<noteq> None"

definition index_get :: "chunk_index \<Rightarrow> chunk_id \<Rightarrow> chunk_location option" where
  "index_get x i = (case map_of (ci_overlay x) i of Some l \<Rightarrow> Some l | None \<Rightarrow> base_get x i)"

definition index_len :: "chunk_index \<Rightarrow> nat" where
  "index_len x =
     (let base_len = (case ci_base x of None \<Rightarrow> 0 | Some t \<Rightarrow> dt_len t);
          overlap = (case ci_base x of None \<Rightarrow> 0
            | Some t \<Rightarrow> length (filter (\<lambda>i. base_get x i \<noteq> None) (map fst (ci_overlay x))))
      in base_len + length (ci_overlay x) - overlap)"

fun keep_ok :: "('e + 'a) list \<Rightarrow> 'a list" where
  \<comment> \<open>\<open>Iterator::flatten\<close> over results\<close>
  "keep_ok [] = []"
| "keep_ok (Inl e # rs) = keep_ok rs"
| "keep_ok (Inr x # rs) = x # keep_ok rs"

definition index_chunks :: "chunk_index \<Rightarrow> (chunk_id \<times> chunk_location) list" where
  "index_chunks x =
     ci_overlay x @ (case ci_base x of None \<Rightarrow> []
       | Some t \<Rightarrow> map (\<lambda>r. (tb_id r, tb_location r))
           (filter (\<lambda>r. map_of (ci_overlay x) (tb_id r) = None) (keep_ok (table_iter t))))"

definition location :: "object_id \<Rightarrow> pack_entry \<Rightarrow> chunk_location" where
  "location pack e =
     \<lparr>lo_pack = pack, lo_offset = pe_offset e, lo_length = pe_length e, lo_raw_len = pe_raw_len e\<rparr>"

definition canonical_rank :: "object_id \<Rightarrow> (object_id \<Rightarrow> bool) \<Rightarrow> bool \<times> object_id" where
  "canonical_rank pack is_marked = (is_marked pack, pack)"

fun add_entries :: "object_id \<Rightarrow> pack_entry list \<Rightarrow> (chunk_id \<times> chunk_location) list
    \<Rightarrow> (chunk_id \<times> chunk_location) list" where
  "add_entries pack [] ov = ov"
| "add_entries pack (e # es) ov =
     add_entries pack es
       (case map_of ov (pe_id e) of
          Some existing \<Rightarrow> if lo_pack existing \<le> pack then ov
             else AList.update (pe_id e) (location pack e) ov
        | None \<Rightarrow> AList.update (pe_id e) (location pack e) ov)"

definition add_pack :: "chunk_index \<Rightarrow> index_pack \<Rightarrow> chunk_index" where
  "add_pack x p =
     x\<lparr>ci_packs := AList.update (ip_pack p) (ip_size p) (ci_packs x),
       ci_overlay := add_entries (ip_pack p) (ip_entries p) (ci_overlay x)\<rparr>"

fun add_entries_ranked :: "(object_id \<Rightarrow> bool) \<Rightarrow> object_id \<Rightarrow> pack_entry list
    \<Rightarrow> (chunk_id \<times> chunk_location) list \<Rightarrow> (chunk_id \<times> chunk_location) list" where
  "add_entries_ranked rank pack [] ov = ov"
| "add_entries_ranked rank pack (e # es) ov =
     add_entries_ranked rank pack es
       (case map_of ov (pe_id e) of
          Some existing \<Rightarrow>
            if canonical_rank (lo_pack existing) rank \<le> canonical_rank pack rank then ov
            else AList.update (pe_id e) (location pack e) ov
        | None \<Rightarrow> AList.update (pe_id e) (location pack e) ov)"

definition add_pack_ranked :: "chunk_index \<Rightarrow> index_pack \<Rightarrow> (object_id \<Rightarrow> bool) \<Rightarrow> chunk_index" where
  "add_pack_ranked x p rank =
     x\<lparr>ci_packs := AList.update (ip_pack p) (ip_size p) (ci_packs x),
       ci_overlay := add_entries_ranked rank (ip_pack p) (ip_entries p) (ci_overlay x)\<rparr>"

definition add_pending :: "chunk_index \<Rightarrow> pack_entry \<Rightarrow> chunk_index" where
  "add_pending x e =
     (case map_of (ci_overlay x) (pe_id e) of
        Some l \<Rightarrow> x
      | None \<Rightarrow> x\<lparr>ci_overlay := AList.update (pe_id e) (location PENDING_PACK e) (ci_overlay x)\<rparr>)"

definition replace_pending :: "chunk_index \<Rightarrow> pack_entry \<Rightarrow> chunk_index" where
  "replace_pending x e =
     x\<lparr>ci_overlay := AList.update (pe_id e) (location PENDING_PACK e) (ci_overlay x)\<rparr>"

fun resolve_entries :: "object_id \<Rightarrow> pack_entry list \<Rightarrow> (chunk_id \<times> chunk_location) list
    \<Rightarrow> (chunk_id \<times> chunk_location) list" where
  "resolve_entries pack [] ov = ov"
| "resolve_entries pack (e # es) ov =
     resolve_entries pack es
       (case map_of ov (pe_id e) of
          Some l \<Rightarrow> if lo_pack l = PENDING_PACK then AList.update (pe_id e) (location pack e) ov else ov
        | None \<Rightarrow> ov)"

definition resolve_pending :: "chunk_index \<Rightarrow> object_id \<Rightarrow> nat \<Rightarrow> pack_entry list \<Rightarrow> chunk_index" where
  "resolve_pending x pack sz es =
     x\<lparr>ci_packs := AList.update pack sz (ci_packs x),
       ci_overlay := resolve_entries pack es (ci_overlay x)\<rparr>"

section \<open>The interface of a lookup\<close>

text \<open>What the walks of \<open>check\<close> and \<open>prune\<close> use of an index: the trait \<open>ChunkLocator\<close>.\<close>

locale chunk_locator =
  fixes contains :: "'i \<Rightarrow> chunk_id \<Rightarrow> bool"
    and get :: "'i \<Rightarrow> chunk_id \<Rightarrow> chunk_location option"
  assumes contains_get: "contains x i \<longleftrightarrow> get x i \<noteq> None"
begin

lemma missing_iff: "\<not> contains x i \<longleftrightarrow> get x i = None"
  by (simp add: contains_get)

lemma found: "contains x i \<Longrightarrow> \<exists>l. get x i = Some l"
  by (simp add: contains_get)

end

interpretation index_locator: chunk_locator index_contains index_get
  by unfold_locales (auto simp: index_contains_def index_get_def split: option.splits)

section \<open>The merge rule\<close>

locale merge_rule =
  fixes keeps :: "'l \<Rightarrow> 'l \<Rightarrow> bool" \<comment> \<open>the location already there stays\<close>
  assumes keeps_trans: "keeps a b \<Longrightarrow> keeps b c \<Longrightarrow> keeps a c"
    and keeps_total: "keeps a b \<or> keeps b a"
begin

definition offer :: "('k \<times> 'l) list \<Rightarrow> 'k \<times> 'l \<Rightarrow> ('k \<times> 'l) list" where
  "offer ov kl = (case map_of ov (fst kl) of
     Some l \<Rightarrow> if keeps l (snd kl) then ov else AList.update (fst kl) (snd kl) ov
   | None \<Rightarrow> AList.update (fst kl) (snd kl) ov)"

lemma keeps_refl: "keeps a a"
  using keeps_total by blast

lemma offer_other: "k \<noteq> fst kl \<Longrightarrow> map_of (offer ov kl) k = map_of ov k"
  by (auto simp: offer_def update_conv' split: option.splits)

lemma offer_same:
  "map_of (offer ov (k, l)) k = Some (case map_of ov k of
     Some l' \<Rightarrow> if keeps l' l then l' else l | None \<Rightarrow> l)"
  by (auto simp: offer_def update_conv' split: option.splits)

text \<open>The outcome: a location that was offered (or was there before) and that keeps its place
  against all of them.\<close>

lemma fold_offer_best:
  "map_of (foldl offer ov kls) k = Some l \<Longrightarrow>
     ((k, l) \<in> set kls \<or> map_of ov k = Some l)
     \<and> (\<forall>l'. ((k, l') \<in> set kls \<or> map_of ov k = Some l') \<longrightarrow> keeps l l')"
proof (induction kls arbitrary: ov)
  case Nil
  then show ?case by (auto simp: keeps_refl)
next
  case (Cons kl kls)
  obtain k' l' where kl: "kl = (k', l')" by force
  from Cons have IH: "((k, l) \<in> set kls \<or> map_of (offer ov kl) k = Some l)
     \<and> (\<forall>l'. ((k, l') \<in> set kls \<or> map_of (offer ov kl) k = Some l') \<longrightarrow> keeps l l')"
    by simp
  show ?case
  proof (cases "k' = k")
    case False
    with IH offer_other [of k kl ov] kl show ?thesis by auto
  next
    case True
    define w where "w = (case map_of ov k of Some l2 \<Rightarrow> if keeps l2 l' then l2 else l' | None \<Rightarrow> l')"
    have o: "map_of (offer ov kl) k = Some w" using offer_same [of ov k l'] kl True by (simp add: w_def)
    have w: "keeps w l'" "\<And>l2. map_of ov k = Some l2 \<Longrightarrow> keeps w l2"
      "w = l' \<or> map_of ov k = Some w"
      using keeps_total keeps_refl by (auto simp: w_def split: option.splits if_splits)
    have lw: "keeps l w" using IH o by blast
    have "(k, l) \<in> set (kl # kls) \<or> map_of ov k = Some l"
      using IH o w(3) kl True by auto
    moreover have "keeps l l3" if "(k, l3) \<in> set (kl # kls) \<or> map_of ov k = Some l3" for l3
    proof -
      from that kl True consider "l3 = l'" | "(k, l3) \<in> set kls" | "map_of ov k = Some l3"
        by auto
      then show ?thesis using IH o w lw keeps_trans by cases blast+
    qed
    ultimately show ?thesis by blast
  qed
qed

lemma fold_offer_None:
  "map_of (foldl offer ov kls) k = None \<longleftrightarrow> map_of ov k = None \<and> k \<notin> fst ` set kls"
proof (induction kls arbitrary: ov)
  case Nil
  then show ?case by simp
next
  case (Cons kl kls)
  show ?case
    using offer_other [of k kl ov] offer_same [of ov "fst kl" "snd kl"]
      Cons.IH [of "offer ov kl"]
    by (cases "k = fst kl") (auto simp: split: option.splits)
qed

text \<open>Hence the order of the offers is irrelevant as soon as ties are.\<close>

lemma fold_offer_set:
  assumes "set kls = set kls'"
    "\<And>k l l'. (k, l) \<in> set kls \<Longrightarrow> (k, l') \<in> set kls \<Longrightarrow> keeps l l' \<Longrightarrow> keeps l' l \<Longrightarrow> l = l'"
  shows "map_of (foldl offer [] kls) k = map_of (foldl offer [] kls') k"
proof (cases "map_of (foldl offer [] kls) k")
  case None
  then show ?thesis using fold_offer_None [of "[]" kls k] fold_offer_None [of "[]" kls' k] assms(1) by auto
next
  case (Some l)
  then obtain l' where l': "map_of (foldl offer [] kls') k = Some l'"
    using fold_offer_None [of "[]" kls k] fold_offer_None [of "[]" kls' k] assms(1) by fastforce
  from fold_offer_best [OF Some] fold_offer_best [OF l'] assms(1)
  have "(k, l) \<in> set kls" "(k, l') \<in> set kls" "keeps l l'" "keeps l' l" by auto
  with assms(2) Some l' show ?thesis by metis
qed

end

interpretation name_rule: merge_rule "\<lambda>a b. lo_pack a \<le> lo_pack b"
  by unfold_locales auto

interpretation ranked_rule: merge_rule
  "\<lambda>a b. canonical_rank (lo_pack a) rank \<le> canonical_rank (lo_pack b) rank" for rank
  by unfold_locales auto

definition pack_offers :: "index_pack \<Rightarrow> (chunk_id \<times> chunk_location) list" where
  "pack_offers p = map (\<lambda>e. (pe_id e, location (ip_pack p) e)) (ip_entries p)"

definition all_offers :: "index_pack list \<Rightarrow> (chunk_id \<times> chunk_location) list" where
  "all_offers ps = concat (map pack_offers ps)"

lemma add_entries_offers:
  "add_entries pack es ov = foldl name_rule.offer ov (map (\<lambda>e. (pe_id e, location pack e)) es)"
  by (induction es arbitrary: ov) (auto simp: name_rule.offer_def location_def split: option.splits)

lemma add_entries_ranked_offers:
  "add_entries_ranked rank pack es ov =
     foldl (ranked_rule.offer rank) ov (map (\<lambda>e. (pe_id e, location pack e)) es)"
  by (induction es arbitrary: ov) (auto simp: ranked_rule.offer_def location_def split: option.splits)

lemma foldl_add_pack:
  "ci_overlay (foldl add_pack x ps) = foldl name_rule.offer (ci_overlay x) (all_offers ps)
     \<and> ci_base (foldl add_pack x ps) = ci_base x"
  by (induction ps arbitrary: x)
    (simp_all add: all_offers_def pack_offers_def add_pack_def add_entries_offers)

lemma foldl_add_pack_ranked:
  "ci_overlay (foldl (\<lambda>x p. add_pack_ranked x p rank) x ps) =
     foldl (ranked_rule.offer rank) (ci_overlay x) (all_offers ps)
     \<and> ci_base (foldl (\<lambda>x p. add_pack_ranked x p rank) x ps) = ci_base x"
  by (induction ps arbitrary: x)
    (simp_all add: all_offers_def pack_offers_def add_pack_ranked_def add_entries_ranked_offers)

lemma index_get_no_base: "ci_base x = None \<Longrightarrow> index_get x i = map_of (ci_overlay x) i"
  by (simp add: index_get_def base_get_def split: option.splits)

lemma all_offers_iff:
  "(i, l) \<in> set (all_offers ps) \<longleftrightarrow>
     (\<exists>p \<in> set ps. \<exists>e \<in> set (ip_entries p). pe_id e = i \<and> l = location (ip_pack p) e)"
  by (auto simp: all_offers_def pack_offers_def)

lemma fst_all_offers: "fst ` set (all_offers ps) = (\<Union>p \<in> set ps. pe_id ` set (ip_entries p))"
  by (simp add: all_offers_def pack_offers_def image_UN image_image)

text \<open>A pack's name is the hash of its contents, so one name lists one set of entries.\<close>

definition packs_consistent :: "index_pack list \<Rightarrow> bool" where
  "packs_consistent ps \<longleftrightarrow> (\<forall>p \<in> set ps. \<forall>q \<in> set ps. ip_pack p = ip_pack q \<longrightarrow> ip_entries p = ip_entries q)
     \<and> (\<forall>p \<in> set ps. distinct (map pe_id (ip_entries p)))"

lemma consistent_location:
  assumes "packs_consistent ps" "(i, l) \<in> set (all_offers ps)" "(i, l') \<in> set (all_offers ps)"
    "lo_pack l = lo_pack l'"
  shows "l = l'"
proof -
  obtain p e where 1: "p \<in> set ps" "e \<in> set (ip_entries p)" "pe_id e = i" "l = location (ip_pack p) e"
    using assms(2) unfolding all_offers_iff by blast
  obtain p' e' where 2: "p' \<in> set ps" "e' \<in> set (ip_entries p')" "pe_id e' = i" "l' = location (ip_pack p') e'"
    using assms(3) unfolding all_offers_iff by blast
  note f = 1 2
  have pp: "ip_pack p = ip_pack p'" using assms(4) f(4,8) by (simp add: location_def)
  then have "ip_entries p = ip_entries p'" and d: "distinct (map pe_id (ip_entries p))"
    using assms(1) f(1,5) unfolding packs_consistent_def by blast+
  with f(2,3,6,7) have "e = e'" by (simp add: distinct_map inj_on_def)
  with f(4,8) pp show ?thesis by simp
qed

lemma set_all_offers: "set ps = set qs \<Longrightarrow> set (all_offers ps) = set (all_offers qs)"
  by (auto simp: all_offers_def)

text \<open>C3: the index is a function of the set of packs: loading the same packs in another order,
  or some of them twice, gives the same location for every chunk, under the plain rule
  (smallest pack name) and under the ranked rule (unmarked packs first).\<close>

theorem index_merge_order_free:
  assumes "packs_consistent ps" "set ps = set qs"
  shows "index_get (foldl add_pack new_index ps) i = index_get (foldl add_pack new_index qs) i
    \<and> index_get (foldl (\<lambda>x p. add_pack_ranked x p marked) new_index ps) i
      = index_get (foldl (\<lambda>x p. add_pack_ranked x p marked) new_index qs) i"
proof -
  note eq = set_all_offers [OF assms(2)]
  have tie: "l = l'" if "(k, l) \<in> set (all_offers ps)" "(k, l') \<in> set (all_offers ps)"
    "lo_pack l \<le> lo_pack l'" "lo_pack l' \<le> lo_pack l" for k l l'
    using that consistent_location [OF assms(1)] by (meson antisym)
  have tie': "l = l'" if "(k, l) \<in> set (all_offers ps)" "(k, l') \<in> set (all_offers ps)"
    "canonical_rank (lo_pack l) marked \<le> canonical_rank (lo_pack l') marked"
    "canonical_rank (lo_pack l') marked \<le> canonical_rank (lo_pack l) marked" for k l l'
    using that consistent_location [OF assms(1)]
    by (metis antisym canonical_rank_def prod.inject)
  have base: "ci_base (foldl add_pack new_index xs) = None"
    "ci_base (foldl (\<lambda>x p. add_pack_ranked x p marked) new_index xs) = None" for xs
    by (simp_all add: foldl_add_pack foldl_add_pack_ranked new_index_def)
  show ?thesis
    unfolding index_get_no_base [OF base(1)] index_get_no_base [OF base(2)]
      foldl_add_pack [THEN conjunct1] foldl_add_pack_ranked [THEN conjunct1]
    using name_rule.fold_offer_set [OF eq tie] ranked_rule.fold_offer_set [OF eq tie']
    by (simp add: new_index_def)
qed

theorem index_merge_order_free_witness:
  "let e = \<lparr>pe_id = ChunkId [1], pe_offset = 8, pe_length = 50, pe_raw_len = 9\<rparr>;
       p = \<lparr>ip_pack = ObjectId [1], ip_size = 99, ip_entries = [e]\<rparr>;
       q = \<lparr>ip_pack = ObjectId [2], ip_size = 98, ip_entries = [e]\<rparr>
   in index_get (foldl (\<lambda>x p. add_pack_ranked x p (\<lambda>i. i = ObjectId [1])) new_index [p, q]) (ChunkId [1])
    = index_get (foldl (\<lambda>x p. add_pack_ranked x p (\<lambda>i. i = ObjectId [1])) new_index [q, p, q]) (ChunkId [1])"
  unfolding Let_def
  by (rule index_merge_order_free [THEN conjunct2]) (auto simp: packs_consistent_def)

text \<open>C4: the ranked rule picks the canonical copy: a chunk is found exactly when some loaded pack
  lists it, and then in the pack of least rank among those that do - an unmarked one whenever
  there is one - at the place that pack lists.\<close>

theorem ranked_index_canonical:
  "(index_get (foldl (\<lambda>x p. add_pack_ranked x p marked) new_index ps) i = None
      \<longleftrightarrow> (\<forall>p \<in> set ps. i \<notin> pe_id ` set (ip_entries p)))
   \<and> (\<forall>l. index_get (foldl (\<lambda>x p. add_pack_ranked x p marked) new_index ps) i = Some l \<longrightarrow>
        (\<exists>p \<in> set ps. \<exists>e \<in> set (ip_entries p). pe_id e = i \<and> l = location (ip_pack p) e)
        \<and> (\<forall>q \<in> set ps. i \<in> pe_id ` set (ip_entries q) \<longrightarrow>
             canonical_rank (lo_pack l) marked \<le> canonical_rank (ip_pack q) marked
             \<and> (marked (lo_pack l) \<longrightarrow> marked (ip_pack q))))"
proof -
  let ?x = "foldl (\<lambda>x p. add_pack_ranked x p marked) new_index ps"
  have g: "index_get ?x i = map_of (foldl (ranked_rule.offer marked) [] (all_offers ps)) i"
    by (simp add: index_get_no_base foldl_add_pack_ranked new_index_def)
  have none: "index_get ?x i = None \<longleftrightarrow> (\<forall>p \<in> set ps. i \<notin> pe_id ` set (ip_entries p))"
    unfolding g ranked_rule.fold_offer_None fst_all_offers by auto
  have best: "(\<exists>p \<in> set ps. \<exists>e \<in> set (ip_entries p). pe_id e = i \<and> l = location (ip_pack p) e)
      \<and> (\<forall>q \<in> set ps. i \<in> pe_id ` set (ip_entries q) \<longrightarrow>
             canonical_rank (lo_pack l) marked \<le> canonical_rank (ip_pack q) marked
             \<and> (marked (lo_pack l) \<longrightarrow> marked (ip_pack q)))"
    if "index_get ?x i = Some l" for l
  proof -
    from ranked_rule.fold_offer_best [OF that [unfolded g]]
    have off: "(i, l) \<in> set (all_offers ps)"
      and le: "\<And>l'. (i, l') \<in> set (all_offers ps) \<Longrightarrow>
        canonical_rank (lo_pack l) marked \<le> canonical_rank (lo_pack l') marked" by auto
    have "canonical_rank (lo_pack l) marked \<le> canonical_rank (ip_pack q) marked"
      if "q \<in> set ps" "i \<in> pe_id ` set (ip_entries q)" for q
    proof -
      from that obtain e where "e \<in> set (ip_entries q)" "pe_id e = i" by auto
      then show ?thesis
        using le [of "location (ip_pack q) e"] that(1) by (auto simp: all_offers_iff location_def)
    qed
    moreover from this have "marked (lo_pack l) \<longrightarrow> marked (ip_pack q)"
      if "q \<in> set ps" "i \<in> pe_id ` set (ip_entries q)" for q
      using that by (fastforce simp: canonical_rank_def less_eq_prod_def)
    ultimately show ?thesis using off by (auto simp: all_offers_iff)
  qed
  from none best show ?thesis by blast
qed

theorem ranked_index_canonical_witness:
  "let e = \<lparr>pe_id = ChunkId [1], pe_offset = 8, pe_length = 50, pe_raw_len = 9\<rparr>;
       p = \<lparr>ip_pack = ObjectId [1], ip_size = 99, ip_entries = [e]\<rparr>;
       q = \<lparr>ip_pack = ObjectId [2], ip_size = 98, ip_entries = [e]\<rparr>
   in index_get (foldl (\<lambda>x p. add_pack_ranked x p (\<lambda>i. i = ObjectId [1])) new_index [p, q]) (ChunkId [1])
      \<noteq> None"
  unfolding Let_def ranked_index_canonical [THEN conjunct1] by simp

section \<open>The table file\<close>

definition record_fits :: "table_record \<Rightarrow> bool" where
  "record_fits r \<longleftrightarrow> length (chunk_bytes (tb_id r)) = 32
     \<and> length (object_bytes (lo_pack (tb_location r))) = 32 \<and> lo_offset (tb_location r) \<le> u64_max
     \<and> lo_length (tb_location r) \<le> u64_max \<and> lo_raw_len (tb_location r) \<le> u64_max"

lemma length_record_encode: "record_fits r \<Longrightarrow> length (record_encode r) = RECORD_LEN"
  by (simp add: record_fits_def record_encode_def RECORD_LEN_def Let_def)

lemma record_decode_encode: "record_fits r \<Longrightarrow> record_decode (record_encode r) = r"
proof -
  assume fits: "record_fits r"
  let ?l = "tb_location r"
  have n: "of_le (le_bytes 8 n) = n" if "n \<le> u64_max" for n
    using that by (intro of_le_le_bytes) (simp add: u64_max_def)
  have s: "slice 0 32 (record_encode r) = chunk_bytes (tb_id r)"
    "slice 32 64 (record_encode r) = object_bytes (lo_pack ?l)"
    "slice 64 72 (record_encode r) = le_bytes 8 (lo_offset ?l)"
    "slice 72 80 (record_encode r) = le_bytes 8 (lo_length ?l)"
    "slice 80 88 (record_encode r) = le_bytes 8 (lo_raw_len ?l)"
    using fits by (simp_all add: record_fits_def record_encode_def slice_def Let_def)
  show ?thesis
    unfolding record_decode_def s using fits n by (simp add: record_fits_def)
qed

definition table_contents :: "table_record list \<Rightarrow> bytes" where
  "table_contents rs = table_header (length rs) @ concat (map record_encode rs)"

lemma write_records_ok: "write_records (map Inr rs) = Inr (concat (map record_encode rs), length rs)"
  by (induction rs) simp_all

lemma length_table_header [simp]: "length (table_header n) = TABLE_HEADER_LEN"
  by (simp add: table_header_def TABLE_MAGIC_def TABLE_HEADER_LEN_def)

lemma length_concat_blocks: "\<forall>b \<in> set bs. length b = n \<Longrightarrow> length (concat bs) = length bs * n"
  by (induction bs) simp_all

lemma slice_concat_blocks:
  "\<forall>b \<in> set bs. length b = n \<Longrightarrow> i < length bs \<Longrightarrow> slice (i * n) (i * n + n) (concat bs) = bs ! i"
proof (induction bs arbitrary: i)
  case Nil
  then show ?case by simp
next
  case (Cons b bs)
  show ?case
  proof (cases i)
    case 0
    with Cons.prems show ?thesis by (simp add: slice_def)
  next
    case (Suc j)
    with Cons.prems have "drop (i * n) (concat (b # bs)) = drop (j * n) (concat bs)" by simp
    with Suc Cons.prems Cons.IH [of j] show ?thesis by (simp add: slice_def drop_take)
  qed
qed

lemma table_open_contents:
  assumes "length rs < 2 ^ 64" "\<forall>r \<in> set rs. record_fits r"
  shows "table_open path (table_contents rs) =
     Inr \<lparr>dt_file = bytes_file (table_contents rs), dt_len = length rs\<rparr>"
proof -
  let ?h = "table_header (length rs)"
  have h: "take TABLE_HEADER_LEN (table_contents rs) = ?h"
    by (simp add: table_contents_def)
  have body: "length (concat (map record_encode rs)) = length rs * RECORD_LEN"
    using length_concat_blocks [of "map record_encode rs" RECORD_LEN] assms(2)
    by (auto simp: length_record_encode)
  have m: "take 8 ?h = TABLE_MAGIC" by (simp add: table_header_def TABLE_MAGIC_def)
  have v: "slice 8 12 ?h = le_bytes 4 TABLE_VERSION" "slice 16 24 ?h = le_bytes 8 (length rs)"
    by (simp_all add: table_header_def TABLE_MAGIC_def slice_def)
  have n: "of_le (le_bytes 4 TABLE_VERSION) = TABLE_VERSION" "of_le (le_bytes 8 (length rs)) = length rs"
    using assms(1) by (intro of_le_le_bytes; simp add: TABLE_VERSION_def)+
  have len: "length (table_contents rs) = TABLE_HEADER_LEN + length rs * RECORD_LEN"
    using body by (simp add: table_contents_def)
  show ?thesis
    unfolding table_open_def h Let_def m v n len by simp
qed

lemma read_record_contents:
  assumes "\<forall>r \<in> set rs. record_fits r" "i < length rs" "dt_file t = bytes_file (table_contents rs)"
  shows "read_record t i = Inr (rs ! i)"
proof -
  let ?bs = "map record_encode rs"
  have bl: "\<forall>b \<in> set ?bs. length b = RECORD_LEN" using assms(1) by (auto simp: length_record_encode)
  have "(i + 1) * RECORD_LEN \<le> length rs * RECORD_LEN" using assms(2) by (intro mult_right_mono) auto
  then have "dt_file t (TABLE_HEADER_LEN + i * RECORD_LEN) RECORD_LEN =
      Inr (slice (i * RECORD_LEN) (i * RECORD_LEN + RECORD_LEN) (concat ?bs))"
    using length_concat_blocks [OF bl]
    by (simp add: assms(3) bytes_file_def table_contents_def slice_def drop_take)
  also have "slice (i * RECORD_LEN) (i * RECORD_LEN + RECORD_LEN) (concat ?bs) = record_encode (rs ! i)"
    using slice_concat_blocks [OF bl] assms(2) by simp
  finally show ?thesis
    using assms(1,2) by (simp add: read_record_def record_decode_encode)
qed

lemma map_of_records_nth:
  assumes "sorted_wrt (<) (map tb_id rs)" "k < length rs"
  shows "map_of (map (\<lambda>r. (tb_id r, tb_location r)) rs) (tb_id (rs ! k)) = Some (tb_location (rs ! k))"
proof -
  have "distinct (map fst (map (\<lambda>r. (tb_id r, tb_location r)) rs))"
    using sorted_names_distinct [OF assms(1)] by (simp add: comp_def)
  then show ?thesis using assms(2) by (intro map_of_is_SomeI) auto
qed

lemma table_search_correct:
  assumes "\<And>k. k < length rs \<Longrightarrow> read_record t k = Inr (rs ! k)" "sorted_wrt (<) (map tb_id rs)"
  shows "lo \<le> hi \<Longrightarrow> hi \<le> length rs \<Longrightarrow> \<forall>k < lo. tb_id (rs ! k) < i \<Longrightarrow>
    \<forall>k. hi \<le> k \<longrightarrow> k < length rs \<longrightarrow> i < tb_id (rs ! k) \<Longrightarrow>
    table_search t i lo hi = Inr (map_of (map (\<lambda>r. (tb_id r, tb_location r)) rs) i)"
proof (induction "hi - lo" arbitrary: lo hi rule: less_induct)
  case less
  show ?case
  proof (cases "lo < hi")
    case False
    with less.prems have "\<forall>k < length rs. tb_id (rs ! k) \<noteq> i"
      by (metis less_irrefl not_le order.trans)
    then have "map_of (map (\<lambda>r. (tb_id r, tb_location r)) rs) i = None"
      by (auto simp: map_of_eq_None_iff in_set_conv_nth)
    with False show ?thesis by (simp add: table_search.simps)
  next
    case True
    let ?m = "lo + (hi - lo) div 2"
    have m: "lo \<le> ?m" "?m < hi" "?m < length rs" using True less.prems(2) by auto
    have mono: "tb_id (rs ! a) < tb_id (rs ! b)" if "a < b" "b < length rs" for a b
      using assms(2) that by (simp add: sorted_wrt_iff_nth_less)
    have below: "\<forall>k < ?m + 1. tb_id (rs ! k) < i" if "tb_id (rs ! ?m) < i"
    proof (intro allI impI)
      fix k assume "k < ?m + 1"
      then show "tb_id (rs ! k) < i" using that mono [of k ?m] m(3) by (cases "k = ?m") auto
    qed
    have above: "\<forall>k. ?m \<le> k \<longrightarrow> k < length rs \<longrightarrow> i < tb_id (rs ! k)" if "i < tb_id (rs ! ?m)"
    proof (intro allI impI)
      fix k assume "?m \<le> k" "k < length rs"
      then show "i < tb_id (rs ! k)" using that mono [of ?m k] by (cases "k = ?m") auto
    qed
    have unf: "table_search t i lo hi = and_then (read_record t ?m) (\<lambda>r.
        if tb_id r < i then table_search t i (?m + 1) hi
        else if tb_id r > i then table_search t i lo ?m else Inr (Some (tb_location r)))"
      using True by (subst table_search.simps) (simp add: Let_def)
    note unf' = unf [unfolded assms(1) [OF m(3)] and_then_simps]
    consider "tb_id (rs ! ?m) < i" | "i < tb_id (rs ! ?m)" | "tb_id (rs ! ?m) = i"
      using less_linear by blast
    then show ?thesis
    proof cases
      case 1
      have "table_search t i (?m + 1) hi = Inr (map_of (map (\<lambda>r. (tb_id r, tb_location r)) rs) i)"
        using m less.prems(2,4) below [OF 1] by (intro less.hyps) auto
      with unf' 1 show ?thesis by simp
    next
      case 2
      have "table_search t i lo ?m = Inr (map_of (map (\<lambda>r. (tb_id r, tb_location r)) rs) i)"
        using m less.prems(2,3) above [OF 2] by (intro less.hyps) auto
      moreover have "\<not> tb_id (rs ! ?m) < i" using 2 by (rule less_not_sym)
      ultimately show ?thesis using unf' 2 by (simp only: if_False if_True)
    next
      case 3
      with unf' map_of_records_nth [OF assms(2) m(3)] show ?thesis by simp
    qed
  qed
qed

lemma map_of_dedup_from:
  "map_of (map (\<lambda>r. (f r, g r)) (dedup_from (\<lambda>later earlier. f later = f earlier) x xs)) =
     map_of (map (\<lambda>r. (f r, g r)) (x # xs))"
proof (induction "\<lambda>later earlier. f later = f earlier" x xs rule: dedup_from.induct)
  case (1 x)
  then show ?case by simp
next
  case (2 x y ys)
  then show ?case by (auto simp: fun_eq_iff)
qed

lemma map_of_dedup_by:
  "map_of (map (\<lambda>r. (f r, g r)) (dedup_by (\<lambda>later earlier. f later = f earlier) xs)) =
     map_of (map (\<lambda>r. (f r, g r)) xs)"
  using map_of_dedup_from [of f g] by (cases xs) simp_all

lemma map_of_filter:
  "map_of (map (\<lambda>r. (f r, g r)) xs) k =
     (case filter (\<lambda>r. f r = k) xs of [] \<Rightarrow> None | r # rs \<Rightarrow> Some (g r))"
  by (induction xs) auto

lemma map_of_sort_key:
  "map_of (map (\<lambda>r. (f r, g r)) (sort_key f xs)) = map_of (map (\<lambda>r. (f r, g r)) xs)"
  unfolding fun_eq_iff map_of_filter by (simp add: sort_key_stable)

lemma table_built:
  assumes "\<forall>r \<in> set rs. record_fits r" "length rs < 2 ^ 64" "sorted_wrt (<) (map tb_id rs)"
  shows "\<exists>t. table_build_sorted path (map Inr rs) = Inr t \<and> dt_len t = length rs
    \<and> (\<forall>i. table_get t i = Inr (map_of (map (\<lambda>r. (tb_id r, tb_location r)) rs) i))
    \<and> table_iter t = map Inr rs"
proof -
  let ?t = "\<lparr>dt_file = bytes_file (table_contents rs), dt_len = length rs\<rparr>"
  have rr: "read_record ?t k = Inr (rs ! k)" if "k < length rs" for k
    using assms(1) that by (rule read_record_contents) simp
  have "table_build_sorted path (map Inr rs) = Inr ?t"
    using table_open_contents [OF assms(2,1), of path]
    by (simp add: table_build_sorted_def write_records_ok table_contents_def)
  moreover have "table_get ?t i = Inr (map_of (map (\<lambda>r. (tb_id r, tb_location r)) rs) i)" for i
    unfolding table_get_def by (rule table_search_correct [OF rr assms(3)]) simp_all
  moreover have "table_iter ?t = map Inr rs"
    using rr by (intro nth_equalityI) (simp_all add: table_iter_def)
  ultimately show ?thesis by auto
qed

text \<open>C5: the index cache answers like the list it was built from: building a table out of any
  records, in any order, and opening it succeeds, and bisecting the file for a chunk returns the
  first location recorded for it, or nothing when it was not recorded - never a read error.\<close>

theorem table_lookup_built:
  assumes "\<forall>r \<in> set rs. record_fits r" "length rs < 2 ^ 64"
  shows "\<exists>t. table_build path rs = Inr t
    \<and> (\<forall>i. table_get t i = Inr (map_of (map (\<lambda>r. (tb_id r, tb_location r)) rs) i))"
proof -
  let ?s = "sort_key tb_id rs"
  let ?d = "dedup_by (\<lambda>later earlier. tb_id later = tb_id earlier) ?s"
  have sub: "set ?d \<subseteq> set rs" using set_dedup_by [of _ ?s] by auto
  have srt: "sorted_wrt (<) (map tb_id ?d)" by (rule dedup_by_key_strict) simp
  have "length ?d \<le> length ?s" by (rule length_dedup_by)
  then obtain t where "table_build_sorted path (map Inr ?d) = Inr t"
    "\<forall>i. table_get t i = Inr (map_of (map (\<lambda>r. (tb_id r, tb_location r)) ?d) i)"
    using table_built [OF _ _ srt] sub assms by fastforce
  then show ?thesis by (auto simp: table_build_def map_of_dedup_by map_of_sort_key)
qed

theorem table_lookup_built_witness:
  "let l = \<lparr>lo_pack = ObjectId (replicate 32 1), lo_offset = 8, lo_length = 50, lo_raw_len = 9\<rparr>;
       a = \<lparr>tb_id = ChunkId (replicate 32 7), tb_location = l\<rparr>;
       b = \<lparr>tb_id = ChunkId (replicate 32 3), tb_location = l\<lparr>lo_offset := 60\<rparr>\<rparr>
   in \<exists>t. table_build ''index.tbl'' [a, b] = Inr t \<and> table_get t (ChunkId (replicate 32 7)) = Inr (Some l)"
proof -
  define l where "l = \<lparr>lo_pack = ObjectId (replicate 32 1), lo_offset = 8, lo_length = 50, lo_raw_len = 9\<rparr>"
  define a where "a = \<lparr>tb_id = ChunkId (replicate 32 7), tb_location = l\<rparr>"
  define b where "b = \<lparr>tb_id = ChunkId (replicate 32 3), tb_location = l\<lparr>lo_offset := 60\<rparr>\<rparr>"
  have "\<forall>r \<in> set [a, b]. record_fits r" by (simp add: a_def b_def l_def record_fits_def u64_max_def)
  from table_lookup_built [OF this, of "''index.tbl''"] show ?thesis
    unfolding Let_def l_def [symmetric] a_def [symmetric] b_def [symmetric]
    by (auto simp: a_def)
qed

end
