(* ===== verification/Backend.thy ===== *)
theory Backend
  imports Core_Errors "HOL-Library.AList"
begin

text \<open>
  \<open>crates/kist-backend/src/lib.rs\<close>: the handful of storage operations the program uses. The
  \<open>object_store\<close> crate behind them is a parameter (\<open>store_ops\<close>, over a state type that stands
  for the remote store); the wrappers of \<open>Backend\<close> translate its errors. \<open>store_ok\<close> states the
  documented behaviour the program relies on, against \<open>objs\<close>, the map from keys to contents and
  modification time: a successful operation does what it says, a failed write either had no
  effect or was applied although the acknowledgement was lost. \<open>map_store\<close> is a store that
  keeps these laws; it exists for the witnesses.

  The keys the program builds never begin or end with a slash and are their own paths, so
  \<open>StorePath::parse\<close> is only asked whether it accepts a key.
\<close>

section \<open>State passing with errors\<close>

type_synonym ('e, 's, 'a) io = "'s \<Rightarrow> ('e + 'a) \<times> 's"

definition io_then :: "('e, 's, 'a) io \<Rightarrow> ('a \<Rightarrow> ('e, 's, 'b) io) \<Rightarrow> ('e, 's, 'b) io" where
  "io_then m f = (\<lambda>s. case m s of (Inl e, s') \<Rightarrow> (Inl e, s') | (Inr x, s') \<Rightarrow> f x s')"

definition io_lift :: "'e + 'a \<Rightarrow> ('e, 's, 'a) io" where
  "io_lift r = (\<lambda>s. (r, s))"

definition io_read :: "('s \<Rightarrow> 'e + 'a) \<Rightarrow> ('e, 's, 'a) io" where
  "io_read q = (\<lambda>s. (q s, s))"

definition io_err :: "('e \<Rightarrow> 'f) \<Rightarrow> ('e, 's, 'a) io \<Rightarrow> ('f, 's, 'a) io" where
  "io_err h m = (\<lambda>s. case m s of (r, s') \<Rightarrow> (map_err h r, s'))"

fun io_each :: "('x \<Rightarrow> ('e, 's, unit) io) \<Rightarrow> 'x list \<Rightarrow> ('e, 's, unit) io" where
  \<comment> \<open>a \<open>for\<close> loop whose body may fail\<close>
  "io_each f [] = io_lift (Inr ())"
| "io_each f (x # xs) = io_then (f x) (\<lambda>_. io_each f xs)"

lemma io_then_Inr [result_simps]:
  "io_then m f s = (Inr y, t) \<longleftrightarrow> (\<exists>x s'. m s = (Inr x, s') \<and> f x s' = (Inr y, t))"
  by (auto simp: io_then_def split: prod.splits sum.splits)

lemma io_then_Inl [result_simps]:
  "io_then m f s = (Inl e, t) \<longleftrightarrow>
     m s = (Inl e, t) \<or> (\<exists>x s'. m s = (Inr x, s') \<and> f x s' = (Inl e, t))"
  by (auto simp: io_then_def split: prod.splits sum.splits)

lemma io_lift_iff [result_simps]: "io_lift r s = (q, t) \<longleftrightarrow> r = q \<and> t = s"
  by (auto simp: io_lift_def)

lemma io_then_lift: "io_then (io_lift (Inr x)) f = f x"
  by (simp add: io_then_def io_lift_def fun_eq_iff)

lemma io_read_iff [result_simps]: "io_read q s = (r, t) \<longleftrightarrow> q s = r \<and> t = s"
  by (auto simp: io_read_def)

lemma io_err_Inr [result_simps]: "io_err h m s = (Inr x, t) \<longleftrightarrow> m s = (Inr x, t)"
  by (auto simp: io_err_def result_simps split: prod.splits)

lemma io_err_Inl [result_simps]: "io_err h m s = (Inl e, t) \<longleftrightarrow> (\<exists>e'. m s = (Inl e', t) \<and> e = h e')"
  by (auto simp: io_err_def map_err_def split: prod.splits sum.splits)

section \<open>The object store\<close>

record object_meta =
  om_location :: string
  om_size :: nat
  om_modified :: int \<comment> \<open>seconds since the epoch\<close>

record 's store_ops =
  so_parse :: "string \<Rightarrow> string option" \<comment> \<open>the error of a key that is not a path\<close>
  so_put :: "string \<Rightarrow> bytes \<Rightarrow> (store_error, 's, unit) io"
  so_put_create :: "string \<Rightarrow> bytes \<Rightarrow> (store_error, 's, unit) io"
  so_get :: "'s \<Rightarrow> string \<Rightarrow> store_error + bytes"
  so_get_range :: "'s \<Rightarrow> string \<Rightarrow> nat \<Rightarrow> nat \<Rightarrow> store_error + bytes"
  so_head :: "'s \<Rightarrow> string \<Rightarrow> store_error + object_meta"
  so_list :: "'s \<Rightarrow> string \<Rightarrow> store_error + object_meta list"
  so_delete :: "string \<Rightarrow> (store_error, 's, unit) io"

record object_info =
  oi_key :: string
  oi_size :: nat
  oi_modified :: int

definition MIN_TIMESTAMP :: int where "MIN_TIMESTAMP = - 377705116800"
definition MAX_TIMESTAMP :: int where "MAX_TIMESTAMP = 253402300799"

definition timestamp_ok :: "int \<Rightarrow> bool" where
  \<comment> \<open>the range of \<open>OffsetDateTime::from_unix_timestamp\<close>: years -9999 to 9999\<close>
  "timestamp_ok t \<longleftrightarrow> MIN_TIMESTAMP \<le> t \<and> t \<le> MAX_TIMESTAMP"

definition from_meta :: "object_meta \<Rightarrow> backend_error + object_info" where
  "from_meta m =
     (if timestamp_ok (om_modified m)
      then Inr \<lparr>oi_key = om_location m, oi_size = om_size m, oi_modified = om_modified m\<rparr>
      else Inl (BadObjectTimestamp (om_location m)))"

fun from_metas :: "object_meta list \<Rightarrow> backend_error + object_info list" where
  "from_metas [] = Inr []"
| "from_metas (m # ms) = and_then (from_meta m) (\<lambda>i. and_then (from_metas ms) (\<lambda>is. Inr (i # is)))"

section \<open>The operations\<close>

definition backend_path :: "'s store_ops \<Rightarrow> string \<Rightarrow> backend_error + unit" where
  "backend_path ops key =
     (case so_parse ops key of None \<Rightarrow> Inr () | Some e \<Rightarrow> Inl (InvalidKey key e))"

definition map_store_err :: "string \<Rightarrow> store_error \<Rightarrow> backend_error" where
  "map_store_err key e =
     (case e of StoreNotFound \<Rightarrow> ObjNotFound key | StoreAlreadyExists \<Rightarrow> ObjAlreadyExists key
      | StoreOther m \<Rightarrow> StoreError e)"

definition backend_put :: "'s store_ops \<Rightarrow> string \<Rightarrow> bytes \<Rightarrow> (backend_error, 's, unit) io" where
  "backend_put ops key bs =
     io_then (io_lift (backend_path ops key)) (\<lambda>_. io_err (map_store_err key) (so_put ops key bs))"

definition backend_put_if_absent :: "'s store_ops \<Rightarrow> string \<Rightarrow> bytes \<Rightarrow> (backend_error, 's, unit) io" where
  "backend_put_if_absent ops key bs =
     io_then (io_lift (backend_path ops key)) (\<lambda>_. io_err (map_store_err key) (so_put_create ops key bs))"

definition backend_get :: "'s store_ops \<Rightarrow> string \<Rightarrow> 's \<Rightarrow> backend_error + bytes" where
  "backend_get ops key s =
     and_then (backend_path ops key) (\<lambda>_. map_err (map_store_err key) (so_get ops s key))"

definition backend_put_if_absent_verified ::
  "'s store_ops \<Rightarrow> string \<Rightarrow> bytes \<Rightarrow> (backend_error, 's, unit) io" where
  "backend_put_if_absent_verified ops key bs =
     io_then (backend_put_if_absent ops key bs) (\<lambda>_.
       io_then (io_read (backend_get ops key)) (\<lambda>stored.
         io_lift (if stored \<noteq> bs then Inl (ConcurrentWrite key) else Inr ())))"

definition backend_get_range :: "'s store_ops \<Rightarrow> string \<Rightarrow> nat \<Rightarrow> nat \<Rightarrow> 's \<Rightarrow> backend_error + bytes" where
  "backend_get_range ops key lo hi s =
     and_then (backend_path ops key) (\<lambda>_. map_err (map_store_err key) (so_get_range ops s key lo hi))"

definition backend_head :: "'s store_ops \<Rightarrow> string \<Rightarrow> 's \<Rightarrow> backend_error + object_info" where
  "backend_head ops key s =
     and_then (backend_path ops key) (\<lambda>_.
       and_then (map_err (map_store_err key) (so_head ops s key)) from_meta)"

definition backend_size :: "'s store_ops \<Rightarrow> string \<Rightarrow> 's \<Rightarrow> backend_error + nat" where
  "backend_size ops key s = and_then (backend_head ops key s) (\<lambda>i. Inr (oi_size i))"

definition backend_exists :: "'s store_ops \<Rightarrow> string \<Rightarrow> 's \<Rightarrow> backend_error + bool" where
  "backend_exists ops key s =
     (case backend_size ops key s of
        Inr n \<Rightarrow> Inr True
      | Inl (ObjNotFound k) \<Rightarrow> Inr False
      | Inl e \<Rightarrow> Inl e)"

definition backend_list :: "'s store_ops \<Rightarrow> string \<Rightarrow> 's \<Rightarrow> backend_error + object_info list" where
  "backend_list ops prefix s =
     and_then (backend_path ops prefix) (\<lambda>_.
       and_then (map_err StoreError (so_list ops s prefix)) from_metas)"

definition backend_delete :: "'s store_ops \<Rightarrow> string \<Rightarrow> (backend_error, 's, unit) io" where
  "backend_delete ops key =
     io_then (io_lift (backend_path ops key)) (\<lambda>_. io_err (map_store_err key) (so_delete ops key))"

section \<open>The store's contract\<close>

type_synonym objects = "string \<Rightarrow> (bytes \<times> int) option"

definition put_ok :: "(string \<Rightarrow> bytes \<Rightarrow> (store_error, 's, unit) io) \<Rightarrow> ('s \<Rightarrow> objects) \<Rightarrow> bool" where
  "put_ok put objs \<longleftrightarrow> (\<forall>k bs s r s'. put k bs s = (r, s') \<longrightarrow>
     (r = Inr () \<longrightarrow> (\<exists>t. timestamp_ok t \<and> objs s' = (objs s)(k \<mapsto> (bs, t))))
     \<and> (r \<noteq> Inr () \<longrightarrow> objs s' = objs s \<or> (\<exists>t. timestamp_ok t \<and> objs s' = (objs s)(k \<mapsto> (bs, t)))))"

definition put_create_ok :: "(string \<Rightarrow> bytes \<Rightarrow> (store_error, 's, unit) io) \<Rightarrow> ('s \<Rightarrow> objects) \<Rightarrow> bool" where
  "put_create_ok put objs \<longleftrightarrow> (\<forall>k bs s r s'. put k bs s = (r, s') \<longrightarrow>
     (r = Inr () \<longrightarrow> objs s k = None \<and> (\<exists>t. timestamp_ok t \<and> objs s' = (objs s)(k \<mapsto> (bs, t))))
     \<and> (r = Inl StoreAlreadyExists \<longrightarrow> objs s k \<noteq> None)
     \<and> (r \<noteq> Inr () \<longrightarrow> objs s' = objs s
          \<or> objs s k = None \<and> (\<exists>t. timestamp_ok t \<and> objs s' = (objs s)(k \<mapsto> (bs, t)))))"

definition delete_ok :: "(string \<Rightarrow> (store_error, 's, unit) io) \<Rightarrow> ('s \<Rightarrow> objects) \<Rightarrow> bool" where
  "delete_ok del objs \<longleftrightarrow> (\<forall>k s r s'. del k s = (r, s') \<longrightarrow>
     (r = Inr () \<longrightarrow> objs s' = (objs s)(k := None))
     \<and> (r = Inl StoreNotFound \<longrightarrow> objs s k = None)
     \<and> (r \<noteq> Inr () \<longrightarrow> objs s' = objs s \<or> objs s' = (objs s)(k := None)))"

definition under_prefix :: "string \<Rightarrow> string \<Rightarrow> bool" where
  "under_prefix prefix k \<longleftrightarrow> starts_with k (prefix @ ''/'')"

definition meta_of :: "objects \<Rightarrow> string \<Rightarrow> object_meta \<Rightarrow> bool" where
  "meta_of ob k m \<longleftrightarrow> (\<exists>bs t. ob k = Some (bs, t) \<and> m = \<lparr>om_location = k, om_size = length bs, om_modified = t\<rparr>)"

definition reads_ok :: "'s store_ops \<Rightarrow> ('s \<Rightarrow> objects) \<Rightarrow> bool" where
  "reads_ok ops objs \<longleftrightarrow>
     (\<forall>s k. (\<forall>bs. so_get ops s k = Inr bs \<longrightarrow> (\<exists>t. objs s k = Some (bs, t)))
        \<and> (so_get ops s k = Inl StoreNotFound \<longrightarrow> objs s k = None)
        \<and> (\<forall>m. so_head ops s k = Inr m \<longrightarrow> meta_of (objs s) k m)
        \<and> (so_head ops s k = Inl StoreNotFound \<longrightarrow> objs s k = None)
        \<and> (\<forall>lo hi bs. so_get_range ops s k lo hi = Inr bs \<longrightarrow>
             (\<exists>b t. objs s k = Some (b, t) \<and> bs = slice lo hi b))
        \<and> (\<forall>ms. so_list ops s k = Inr ms \<longrightarrow>
             distinct (map om_location ms) \<and> (\<forall>m \<in> set ms. meta_of (objs s) (om_location m) m)
             \<and> om_location ` set ms = {x. objs s x \<noteq> None \<and> under_prefix k x}))"

definition store_ok :: "'s store_ops \<Rightarrow> ('s \<Rightarrow> objects) \<Rightarrow> bool" where
  "store_ok ops objs \<longleftrightarrow> reads_ok ops objs \<and> put_ok (so_put ops) objs
     \<and> put_create_ok (so_put_create ops) objs \<and> delete_ok (so_delete ops) objs"

text \<open>An operation that never fails for a reason of its own: what a healthy store does.\<close>

definition store_live :: "'s store_ops \<Rightarrow> ('s \<Rightarrow> objects) \<Rightarrow> bool" where
  "store_live ops objs \<longleftrightarrow>
     (\<forall>k. so_parse ops k = None)
     \<and> (\<forall>s k. objs s k \<noteq> None \<longrightarrow> (\<exists>bs. so_get ops s k = Inr bs) \<and> (\<exists>m. so_head ops s k = Inr m))
     \<and> (\<forall>s k. objs s k = None \<longrightarrow> so_get ops s k = Inl StoreNotFound \<and> so_head ops s k = Inl StoreNotFound)
     \<and> (\<forall>s k. \<exists>ms. so_list ops s k = Inr ms)
     \<and> (\<forall>k bs s. fst (so_put ops k bs s) = Inr ())
     \<and> (\<forall>k bs s. objs s k = None \<longrightarrow> fst (so_put_create ops k bs s) = Inr ())
     \<and> (\<forall>k bs s. objs s k \<noteq> None \<longrightarrow> fst (so_put_create ops k bs s) = Inl StoreAlreadyExists)
     \<and> (\<forall>k s. fst (so_delete ops k s) = Inr () \<or> (objs s k = None \<and> fst (so_delete ops k s) = Inl StoreNotFound))"

section \<open>What the wrappers promise\<close>

lemma meta_ofD:
  "meta_of ob k m \<Longrightarrow> om_location m = k \<and> (\<exists>bs. ob k = Some (bs, om_modified m) \<and> om_size m = length bs)"
  by (auto simp: meta_of_def)

lemma map_store_err_simps [simp]:
  "map_store_err k e = ObjNotFound k' \<longleftrightarrow> e = StoreNotFound \<and> k' = k"
  "map_store_err k e = ObjAlreadyExists k' \<longleftrightarrow> e = StoreAlreadyExists \<and> k' = k"
  "ObjNotFound k' = map_store_err k e \<longleftrightarrow> e = StoreNotFound \<and> k' = k"
  "ObjAlreadyExists k' = map_store_err k e \<longleftrightarrow> e = StoreAlreadyExists \<and> k' = k"
  by (auto simp: map_store_err_def split: store_error.splits)

lemma map_err_Inl_iff [result_simps]: "map_err h r = Inl e \<longleftrightarrow> (\<exists>e'. r = Inl e' \<and> e = h e')"
  by (cases r) auto

lemma and_then_Inl_iff [result_simps]:
  "and_then r f = Inl e \<longleftrightarrow> r = Inl e \<or> (\<exists>x. r = Inr x \<and> f x = Inl e)"
  by (cases r) auto

lemma backend_path_Inl: "backend_path ops k = Inl e \<Longrightarrow> \<exists>m. e = InvalidKey k m"
  by (auto simp: backend_path_def split: option.splits)

lemma path_then:
  assumes "io_then (io_lift (backend_path ops k)) (\<lambda>_. io_err h m) s = (r, s')"
  shows "(\<exists>e. r = Inl (InvalidKey k e) \<and> s' = s) \<or> (\<exists>q. m s = (q, s') \<and> r = map_err h q)"
proof (cases "backend_path ops k")
  case (Inl e)
  with assms backend_path_Inl [OF Inl] show ?thesis by (auto simp: io_then_def io_lift_def)
next
  case (Inr u)
  with assms show ?thesis by (cases "m s") (auto simp: io_then_def io_lift_def io_err_def)
qed

lemma store_reads:
  assumes "store_ok ops objs"
  shows "so_get ops s k = Inr bs \<Longrightarrow> \<exists>t. objs s k = Some (bs, t)"
    and "so_get ops s k = Inl StoreNotFound \<Longrightarrow> objs s k = None"
    and "so_head ops s k = Inr m \<Longrightarrow> meta_of (objs s) k m"
    and "so_head ops s k = Inl StoreNotFound \<Longrightarrow> objs s k = None"
    and "so_get_range ops s k lo hi = Inr bs \<Longrightarrow> \<exists>b t. objs s k = Some (b, t) \<and> bs = slice lo hi b"
    and "so_list ops s k = Inr ms \<Longrightarrow> distinct (map om_location ms)
      \<and> (\<forall>m \<in> set ms. meta_of (objs s) (om_location m) m)
      \<and> om_location ` set ms = {x. objs s x \<noteq> None \<and> under_prefix k x}"
  using assms unfolding store_ok_def reads_ok_def by blast+

lemma backend_get_objs:
  assumes "store_ok ops objs"
  shows "backend_get ops k s = Inr bs \<Longrightarrow> \<exists>t. objs s k = Some (bs, t)"
    and "backend_get ops k s = Inl (ObjNotFound k') \<Longrightarrow> objs s k = None \<and> k' = k"
proof -
  assume "backend_get ops k s = Inr bs"
  then have "so_get ops s k = Inr bs" by (auto simp: backend_get_def result_simps)
  then show "\<exists>t. objs s k = Some (bs, t)" by (rule store_reads(1) [OF assms])
next
  assume "backend_get ops k s = Inl (ObjNotFound k')"
  then have "so_get ops s k = Inl StoreNotFound \<and> k' = k"
    by (auto simp: backend_get_def result_simps dest: backend_path_Inl)
  then show "objs s k = None \<and> k' = k" using store_reads(2) [OF assms] by blast
qed

lemma backend_get_range_objs:
  assumes "store_ok ops objs" "backend_get_range ops k lo hi s = Inr bs"
  shows "\<exists>b t. objs s k = Some (b, t) \<and> bs = slice lo hi b"
  using assms(2) by (intro store_reads(5) [OF assms(1)]) (auto simp: backend_get_range_def result_simps)

lemma from_meta_Inr:
  "from_meta m = Inr i \<longleftrightarrow> timestamp_ok (om_modified m)
     \<and> i = \<lparr>oi_key = om_location m, oi_size = om_size m, oi_modified = om_modified m\<rparr>"
  by (auto simp: from_meta_def)

lemma backend_head_objs:
  assumes "store_ok ops objs"
  shows "backend_head ops k s = Inr i \<Longrightarrow>
      \<exists>bs. objs s k = Some (bs, oi_modified i) \<and> oi_size i = length bs \<and> oi_key i = k"
    and "backend_head ops k s = Inl (ObjNotFound k') \<Longrightarrow> objs s k = None \<and> k' = k"
proof -
  assume "backend_head ops k s = Inr i"
  then obtain m where "so_head ops s k = Inr m"
    "i = \<lparr>oi_key = om_location m, oi_size = om_size m, oi_modified = om_modified m\<rparr>"
    by (auto simp: backend_head_def result_simps from_meta_Inr)
  with store_reads(3) [OF assms this(1), THEN meta_ofD]
  show "\<exists>bs. objs s k = Some (bs, oi_modified i) \<and> oi_size i = length bs \<and> oi_key i = k"
    by auto
next
  assume "backend_head ops k s = Inl (ObjNotFound k')"
  then have "so_head ops s k = Inl StoreNotFound \<and> k' = k"
    by (auto simp: backend_head_def result_simps from_meta_def dest: backend_path_Inl split: if_splits)
  then show "objs s k = None \<and> k' = k" using store_reads(4) [OF assms] by blast
qed

lemma from_metas_Inr:
  "from_metas ms = Inr is \<longleftrightarrow> (\<forall>m \<in> set ms. timestamp_ok (om_modified m))
     \<and> is = map (\<lambda>m. \<lparr>oi_key = om_location m, oi_size = om_size m, oi_modified = om_modified m\<rparr>) ms"
  by (induction ms arbitrary: "is") (auto simp: result_simps from_meta_Inr)

lemma backend_list_objs:
  assumes "store_ok ops objs" "backend_list ops p s = Inr is"
  shows "distinct (map oi_key is)" "oi_key ` set is = {k. objs s k \<noteq> None \<and> under_prefix p k}"
    "\<forall>i \<in> set is. \<exists>bs. objs s (oi_key i) = Some (bs, oi_modified i) \<and> oi_size i = length bs"
proof -
  from assms(2) obtain ms where l: "so_list ops s p = Inr ms"
    and i: "is = map (\<lambda>m. \<lparr>oi_key = om_location m, oi_size = om_size m, oi_modified = om_modified m\<rparr>) ms"
    by (auto simp: backend_list_def result_simps from_metas_Inr)
  have a: "distinct (map om_location ms)" "\<forall>m \<in> set ms. meta_of (objs s) (om_location m) m"
    "om_location ` set ms = {x. objs s x \<noteq> None \<and> under_prefix p x}"
    using store_reads(6) [OF assms(1) l] by blast+
  show "distinct (map oi_key is)" using a(1) by (simp add: i comp_def)
  show "oi_key ` set is = {k. objs s k \<noteq> None \<and> under_prefix p k}"
    using a(3) by (simp add: i image_image)
  show "\<forall>i \<in> set is. \<exists>bs. objs s (oi_key i) = Some (bs, oi_modified i) \<and> oi_size i = length bs"
    using a(2) meta_ofD by (simp add: i)
qed

lemma backend_put_objs:
  assumes "store_ok ops objs" "backend_put ops k bs s = (r, s')"
  shows "r = Inr () \<Longrightarrow> \<exists>t. timestamp_ok t \<and> objs s' = (objs s)(k \<mapsto> (bs, t))"
    and "objs s' = objs s \<or> (\<exists>t. timestamp_ok t \<and> objs s' = (objs s)(k \<mapsto> (bs, t)))"
proof -
  from path_then [OF assms(2) [unfolded backend_put_def]] consider e where "r = Inl e" "s' = s"
    | q where "so_put ops k bs s = (q, s')" "r = map_err (map_store_err k) q"
    by blast
  moreover have "put_ok (so_put ops) objs" using assms(1) by (simp add: store_ok_def)
  ultimately have "(r = Inr () \<longrightarrow> (\<exists>t. timestamp_ok t \<and> objs s' = (objs s)(k \<mapsto> (bs, t))))
      \<and> (objs s' = objs s \<or> (\<exists>t. timestamp_ok t \<and> objs s' = (objs s)(k \<mapsto> (bs, t))))"
    unfolding put_ok_def by cases (simp, metis map_err_Inr_iff)
  then show "r = Inr () \<Longrightarrow> \<exists>t. timestamp_ok t \<and> objs s' = (objs s)(k \<mapsto> (bs, t))"
    and "objs s' = objs s \<or> (\<exists>t. timestamp_ok t \<and> objs s' = (objs s)(k \<mapsto> (bs, t)))" by blast+
qed

lemma backend_put_if_absent_objs:
  assumes "store_ok ops objs" "backend_put_if_absent ops k bs s = (r, s')"
  shows "r = Inr () \<Longrightarrow> objs s k = None \<and> (\<exists>t. timestamp_ok t \<and> objs s' = (objs s)(k \<mapsto> (bs, t)))"
    and "r = Inl (ObjAlreadyExists k') \<Longrightarrow> objs s k \<noteq> None"
    and "objs s' = objs s \<or> objs s k = None \<and> (\<exists>t. timestamp_ok t \<and> objs s' = (objs s)(k \<mapsto> (bs, t)))"
proof -
  from path_then [OF assms(2) [unfolded backend_put_if_absent_def]] consider m where "r = Inl (InvalidKey k m)" "s' = s"
    | q where "so_put_create ops k bs s = (q, s')" "r = map_err (map_store_err k) q"
    by blast
  moreover have "put_create_ok (so_put_create ops) objs" using assms(1) by (simp add: store_ok_def)
  ultimately have "(r = Inr () \<longrightarrow> objs s k = None \<and> (\<exists>t. timestamp_ok t \<and> objs s' = (objs s)(k \<mapsto> (bs, t))))
      \<and> (\<forall>k'. r = Inl (ObjAlreadyExists k') \<longrightarrow> objs s k \<noteq> None)
      \<and> (objs s' = objs s \<or> objs s k = None \<and> (\<exists>t. timestamp_ok t \<and> objs s' = (objs s)(k \<mapsto> (bs, t))))"
  proof cases
    case 1
    then show ?thesis by simp
  next
    case 2
    then have a: "(q = Inr () \<longrightarrow> objs s k = None \<and> (\<exists>t. timestamp_ok t \<and> objs s' = (objs s)(k \<mapsto> (bs, t))))"
      "q = Inl StoreAlreadyExists \<longrightarrow> objs s k \<noteq> None"
      "q \<noteq> Inr () \<longrightarrow> objs s' = objs s \<or> objs s k = None \<and> (\<exists>t. timestamp_ok t \<and> objs s' = (objs s)(k \<mapsto> (bs, t)))"
      using \<open>put_create_ok (so_put_create ops) objs\<close> unfolding put_create_ok_def by blast+
    show ?thesis
    proof (cases q)
      case (Inl e)
      with a(2,3) 2(2) show ?thesis by (auto simp: map_err_def)
    next
      case (Inr u)
      with a(1) 2(2) show ?thesis by auto
    qed
  qed
  then show "r = Inr () \<Longrightarrow> objs s k = None \<and> (\<exists>t. timestamp_ok t \<and> objs s' = (objs s)(k \<mapsto> (bs, t)))"
    and "r = Inl (ObjAlreadyExists k') \<Longrightarrow> objs s k \<noteq> None"
    and "objs s' = objs s \<or> objs s k = None \<and> (\<exists>t. timestamp_ok t \<and> objs s' = (objs s)(k \<mapsto> (bs, t)))"
    by blast+
qed

lemma backend_delete_objs:
  assumes "store_ok ops objs" "backend_delete ops k s = (r, s')"
  shows "r = Inr () \<Longrightarrow> objs s' = (objs s)(k := None)"
    and "r = Inl (ObjNotFound k') \<Longrightarrow> objs s k = None"
    and "objs s' = objs s \<or> objs s' = (objs s)(k := None)"
proof -
  from path_then [OF assms(2) [unfolded backend_delete_def]] consider m where "r = Inl (InvalidKey k m)" "s' = s"
    | q where "so_delete ops k s = (q, s')" "r = map_err (map_store_err k) q"
    by blast
  moreover have d: "delete_ok (so_delete ops) objs" using assms(1) by (simp add: store_ok_def)
  ultimately have "(r = Inr () \<longrightarrow> objs s' = (objs s)(k := None))
      \<and> (\<forall>k'. r = Inl (ObjNotFound k') \<longrightarrow> objs s k = None)
      \<and> (objs s' = objs s \<or> objs s' = (objs s)(k := None))"
  proof cases
    case 1
    then show ?thesis by simp
  next
    case 2
    then have a: "q = Inr () \<longrightarrow> objs s' = (objs s)(k := None)" "q = Inl StoreNotFound \<longrightarrow> objs s k = None"
      "q \<noteq> Inr () \<longrightarrow> objs s' = objs s \<or> objs s' = (objs s)(k := None)"
      using d unfolding delete_ok_def by blast+
    show ?thesis
    proof (cases q)
      case (Inl e)
      with a(2,3) 2(2) show ?thesis by (auto simp: map_err_def)
    next
      case (Inr u)
      with a(1) 2(2) show ?thesis by auto
    qed
  qed
  then show "r = Inr () \<Longrightarrow> objs s' = (objs s)(k := None)"
    and "r = Inl (ObjNotFound k') \<Longrightarrow> objs s k = None"
    and "objs s' = objs s \<or> objs s' = (objs s)(k := None)" by blast+
qed

section \<open>A store for witnesses\<close>

type_synonym map_state = "(string \<times> bytes \<times> int) list \<times> int" \<comment> \<open>objects, clock\<close>

definition map_objs :: "map_state \<Rightarrow> objects" where
  "map_objs s = map_of (fst s)"

definition map_time :: "map_state \<Rightarrow> int" where
  "map_time s = max MIN_TIMESTAMP (min MAX_TIMESTAMP (snd s))"

definition map_meta :: "string \<times> bytes \<times> int \<Rightarrow> object_meta" where
  "map_meta kv = \<lparr>om_location = fst kv, om_size = length (fst (snd kv)), om_modified = snd (snd kv)\<rparr>"

definition map_put :: "string \<Rightarrow> bytes \<Rightarrow> (store_error, map_state, unit) io" where
  "map_put k bs s = (Inr (), (AList.update k (bs, map_time s) (fst s), snd s + 1))"

definition map_delete :: "string \<Rightarrow> (store_error, map_state, unit) io" where
  "map_delete k s = (if map_objs s k = None then (Inl StoreNotFound, s)
     else (Inr (), (AList.delete k (fst s), snd s)))"

definition map_store :: "map_state store_ops" where
  "map_store = \<lparr>
     so_parse = (\<lambda>k. None),
     so_put = map_put,
     so_put_create = (\<lambda>k bs s. if map_objs s k \<noteq> None then (Inl StoreAlreadyExists, s) else map_put k bs s),
     so_get = (\<lambda>s k. case map_objs s k of None \<Rightarrow> Inl StoreNotFound | Some (bs, t) \<Rightarrow> Inr bs),
     so_get_range = (\<lambda>s k lo hi. case map_objs s k of None \<Rightarrow> Inl StoreNotFound
        | Some (bs, t) \<Rightarrow> Inr (slice lo hi bs)),
     so_head = (\<lambda>s k. case map_objs s k of None \<Rightarrow> Inl StoreNotFound
        | Some v \<Rightarrow> Inr (map_meta (k, v))),
     so_list = (\<lambda>s p. Inr (map map_meta (filter (\<lambda>kv. under_prefix p (fst kv)) (AList.clearjunk (fst s))))),
     so_delete = map_delete\<rparr>"

lemma map_time_ok: "timestamp_ok (map_time s)"
  by (auto simp: timestamp_ok_def map_time_def MIN_TIMESTAMP_def MAX_TIMESTAMP_def)

lemma map_put_objs: "map_put k bs s = (r, s') \<Longrightarrow>
    r = Inr () \<and> map_objs s' = (map_objs s)(k \<mapsto> (bs, map_time s))"
  by (auto simp: map_put_def map_objs_def update_conv')

lemma map_delete_objs: "map_delete k s = (r, s') \<Longrightarrow>
    (map_objs s k \<noteq> None \<longrightarrow> r = Inr ()) \<and> (map_objs s k = None \<longrightarrow> r = Inl StoreNotFound)
    \<and> map_objs s' = (map_objs s)(k := None)"
  by (auto simp: map_delete_def map_objs_def delete_conv' fun_eq_iff split: if_splits)

lemma map_store_list:
  assumes "ms = map map_meta (filter (\<lambda>kv. under_prefix p (fst kv)) (AList.clearjunk al))"
  shows "distinct (map om_location ms) \<and> (\<forall>m \<in> set ms. meta_of (map_of al) (om_location m) m)
      \<and> om_location ` set ms = {x. map_of al x \<noteq> None \<and> under_prefix p x}"
proof (intro conjI ballI)
  have loc: "om_location \<circ> map_meta = fst" by (simp add: fun_eq_iff map_meta_def)
  have d: "distinct (map fst (AList.clearjunk al))" by (rule distinct_clearjunk)
  then show "distinct (map om_location ms)"
    by (simp add: assms loc distinct_map_filter)
  fix m assume "m \<in> set ms"
  then obtain k v where "(k, v) \<in> set (AList.clearjunk al)" and m: "m = map_meta (k, v)"
    by (auto simp: assms)
  then have "map_of al k = Some v" using d map_of_clearjunk by (metis map_of_is_SomeI)
  then show "meta_of (map_of al) (om_location m) m" by (cases v) (simp add: m map_meta_def meta_of_def)
next
  have "om_location ` set ms = {x \<in> fst ` set (AList.clearjunk al). under_prefix p x}"
    unfolding assms by (force simp: map_meta_def)
  also have "\<dots> = {x. map_of al x \<noteq> None \<and> under_prefix p x}"
    by (simp add: dom_clearjunk map_of_eq_None_iff) 
  finally show "om_location ` set ms = {x. map_of al x \<noteq> None \<and> under_prefix p x}" .
qed

lemma map_store_reads_ok: "reads_ok map_store map_objs"
  unfolding reads_ok_def
proof (intro allI conjI impI)
  fix s k ms assume "so_list map_store s k = Inr ms"
  then have "ms = map map_meta (filter (\<lambda>kv. under_prefix k (fst kv)) (AList.clearjunk (fst s)))"
    by (simp add: map_store_def)
  from map_store_list [OF this]
  show "distinct (map om_location ms)" "\<forall>m \<in> set ms. meta_of (map_objs s) (om_location m) m"
    "om_location ` set ms = {x. map_objs s x \<noteq> None \<and> under_prefix k x}"
    by (simp_all add: map_objs_def)
qed (auto simp: map_store_def meta_of_def map_meta_def split: option.splits)

lemma map_store_ok: "store_ok map_store map_objs"
proof -
  have "put_ok map_put map_objs"
    using map_put_objs map_time_ok unfolding put_ok_def by blast
  moreover have "put_create_ok (so_put_create map_store) map_objs"
    unfolding put_create_ok_def
  proof (intro allI impI)
    fix k bs s r s'
    assume "so_put_create map_store k bs s = (r, s')"
    then consider "map_objs s k \<noteq> None" "r = Inl StoreAlreadyExists" "s' = s"
      | "map_objs s k = None" "map_put k bs s = (r, s')"
      by (cases "map_objs s k = None") (auto simp: map_store_def)
    then show "(r = Inr () \<longrightarrow> map_objs s k = None \<and> (\<exists>t. timestamp_ok t \<and> map_objs s' = (map_objs s)(k \<mapsto> (bs, t))))
      \<and> (r = Inl StoreAlreadyExists \<longrightarrow> map_objs s k \<noteq> None)
      \<and> (r \<noteq> Inr () \<longrightarrow> map_objs s' = map_objs s
          \<or> map_objs s k = None \<and> (\<exists>t. timestamp_ok t \<and> map_objs s' = (map_objs s)(k \<mapsto> (bs, t))))"
      by cases (auto dest!: map_put_objs intro: map_time_ok)
  qed
  moreover have "delete_ok map_delete map_objs"
    using map_delete_objs unfolding delete_ok_def by blast
  ultimately show ?thesis using map_store_reads_ok by (simp add: store_ok_def map_store_def)
qed

lemma map_store_live: "store_live map_store map_objs"
proof -
  have d: "fst (map_delete k s) = Inr () \<or> map_objs s k = None \<and> fst (map_delete k s) = Inl StoreNotFound" for k s
    by (simp add: map_delete_def)
  show ?thesis
    using d by (auto simp: store_live_def map_store_def map_put_def split: option.splits)
qed

end
