(* ===== verification/Repo_Objects.thy ===== *)
theory Repo_Objects
  imports Backend Chunk_Index
begin

text \<open>
  \<open>crates/kist-core/src/repo.rs\<close>: opening and creating a repository and reading and writing its
  objects. An \<open>env\<close> bundles what a repository is used with: the external functions, the store,
  the codecs of the structures and the timestamp format of the \<open>time\<close> crate. Operations that
  only read are functions of the store's state; the others pass it on. The thread pool
  (\<open>blocking\<close>) only moves work and is not modelled; the local index cache is left out, as when
  no cache directory is given.
\<close>

record 's env =
  ev_ext :: ext
  ev_ops :: "'s store_ops"
  ev_tree :: "tree codec"
  ev_snapshot :: "snapshot codec"
  ev_trailer :: "pack_trailer codec"
  ev_index :: "index_blob codec"
  ev_config :: "repo_config codec"
  ev_invariants :: "invariants codec"
  ev_chunk_list :: "chunk_list codec"
  ev_format_ts :: "int \<Rightarrow> string + string" \<comment> \<open>\<open>KEY_TS_FORMAT\<close> of a time in nanoseconds\<close>
  ev_parse_ts :: "string \<Rightarrow> string + int"

record 's repository =
  rp_env :: "'s env"
  rp_config :: repo_config
  rp_keys :: repo_keys

abbreviation rp_ext :: "'s repository \<Rightarrow> ext" where "rp_ext r \<equiv> ev_ext (rp_env r)"
abbreviation rp_ops :: "'s repository \<Rightarrow> 's store_ops" where "rp_ops r \<equiv> ev_ops (rp_env r)"

definition format_key_timestamp :: "'s env \<Rightarrow> int \<Rightarrow> format_error + string" where
  "format_key_timestamp env t = map_err BadTimestamp (ev_format_ts env t)"

definition parse_key_timestamp :: "'s env \<Rightarrow> string \<Rightarrow> format_error + int" where
  "parse_key_timestamp env ts = map_err BadTimestamp (ev_parse_ts env ts)"

definition fits_i64 :: "int \<Rightarrow> bool" where
  "fits_i64 t \<longleftrightarrow> - (2 ^ 63) \<le> t \<and> t < 2 ^ 63"

section \<open>Index blobs\<close>

record index_blobs =
  ibs_effective :: "(object_id \<times> index_blob) list"
  ibs_superseded :: "object_id list"

definition MAX_INDEX_PLAIN :: nat where "MAX_INDEX_PLAIN = 2 ^ 30"

definition encode_index_blob :: "ext \<Rightarrow> index_blob codec \<Rightarrow> index_blob \<Rightarrow> core_error + bytes" where
  "encode_index_blob ext codec blob =
     and_then (map_err FormatE (cbor_encode codec blob)) (\<lambda>plain.
       and_then (ok_or (Corrupt ''index'' ''zstd failed'') (zstd_encode ext plain)) (\<lambda>compressed.
         if length compressed < length plain - length plain div 16
         then Inr (algorithm_byte Zstd # compressed)
         else Inr (algorithm_byte Raw # plain)))"

definition decode_index_blob_limited ::
  "ext \<Rightarrow> index_blob codec \<Rightarrow> bytes \<Rightarrow> nat \<Rightarrow> core_error + index_blob" where
  "decode_index_blob_limited ext codec payload limit =
     (case payload of
        [] \<Rightarrow> Inl (Corrupt ''index'' ''index blob payload is empty (no algorithm byte)'')
      | a # data \<Rightarrow>
          and_then (map_err FormatE (algorithm_from_u8 a)) (\<lambda>alg.
            and_then
              (case alg of
                 Raw \<Rightarrow> Inr data
               | Zstd \<Rightarrow>
                   and_then (ok_or (Corrupt ''index'' ''zstd decode failed'')
                      (zstd_take ext (sat_add64 limit 1) data)) (\<lambda>out.
                     if length out > limit then Inl (Corrupt ''index'' ''over the limit'') else Inr out))
              (\<lambda>plain. map_err FormatE (cbor_decode_as codec plain))))"

definition decode_index_blob :: "ext \<Rightarrow> index_blob codec \<Rightarrow> bytes \<Rightarrow> core_error + index_blob" where
  "decode_index_blob ext codec payload = decode_index_blob_limited ext codec payload MAX_INDEX_PLAIN"

definition index_load_error :: "core_error \<Rightarrow> core_error" where
  "index_load_error e =
     (case e of BackendE b \<Rightarrow> e | Io p m \<Rightarrow> e | Join m \<Rightarrow> e
      | other \<Rightarrow> Corrupt ''index'' ''run `kist rebuild-index`'')"

definition read_index_blob :: "'s repository \<Rightarrow> 's \<Rightarrow> object_id \<Rightarrow> core_error + index_blob" where
  "read_index_blob r s i =
     (let key = index_key (rp_ext r) i
      in and_then (map_err BackendE (backend_get (rp_ops r) key s)) (\<lambda>bs.
           if object_id_of (rp_ext r) bs \<noteq> i
           then Inl (Corrupt key ''content hash does not match its name'')
           else and_then (map_err (\<lambda>_. Corrupt key ''open'') (open_index_blob (rp_ext r) (rp_keys r) bs)) (\<lambda>payload.
             and_then (map_err (\<lambda>_. Corrupt key ''decode'')
                 (decode_index_blob (rp_ext r) (ev_index (rp_env r)) payload)) (\<lambda>blob.
               if ib_version blob \<noteq> FORMAT_VERSION
               then Inl (Corrupt key ''index blob declares another version'') else Inr blob))))"

definition write_index ::
  "'s repository \<Rightarrow> string + bytes \<Rightarrow> index_blob \<Rightarrow> (core_error, 's, object_id) io" where
  "write_index r os blob =
     io_then (io_lift
        (and_then (encode_index_blob (rp_ext r) (ev_index (rp_env r)) blob) (\<lambda>payload.
           map_err CryptoE (seal_index_blob_in_place (rp_ext r) os (rp_keys r) payload)))) (\<lambda>bs.
       let i = object_id_of (rp_ext r) bs
       in io_then (io_err BackendE (backend_put (rp_ops r) (index_key (rp_ext r) i) bs))
            (\<lambda>_. io_lift (Inr i)))"

fun read_listed_blobs ::
  "'s repository \<Rightarrow> 's \<Rightarrow> object_info list \<Rightarrow> (object_id \<times> index_blob) list \<times> core_error list" where
  "read_listed_blobs r s [] = ([], [])"
| "read_listed_blobs r s (o' # os) =
     (let (all, errors) = read_listed_blobs r s os
      in case object_id_from_key (rp_ext r) (oi_key o') of
           Inl e \<Rightarrow> (all, FormatE e # errors)
         | Inr i \<Rightarrow>
             (case read_index_blob r s i of
                Inr blob \<Rightarrow> ((i, blob) # all, errors)
              | Inl e \<Rightarrow> (all, e # errors)))"

definition split_superseded :: "(object_id \<times> index_blob) list \<Rightarrow> index_blobs" where
  "split_superseded all =
     (let superseded = set (concat (map (\<lambda>(i, b). ib_supersedes b) all))
      in \<lparr>ibs_effective = filter (\<lambda>(i, b). i \<notin> superseded) all,
          ibs_superseded = map fst (filter (\<lambda>(i, b). i \<in> superseded) all)\<rparr>)"

definition load_index_blobs :: "'s repository \<Rightarrow> 's \<Rightarrow> core_error + (index_blobs \<times> core_error list)" where
  "load_index_blobs r s =
     and_then (map_err BackendE (backend_list (rp_ops r) INDEXES_PREFIX s)) (\<lambda>listed.
       let read = read_listed_blobs r s listed in Inr (split_superseded (fst read), snd read))"

definition effective_packs :: "index_blobs \<Rightarrow> index_pack list" where
  "effective_packs b = concat (map (\<lambda>(i, blob). ib_packs blob) (ibs_effective b))"

definition load_index_lenient :: "'s repository \<Rightarrow> 's \<Rightarrow> core_error + (chunk_index \<times> core_error list)" where
  "load_index_lenient r s =
     and_then (load_index_blobs r s) (\<lambda>(blobs, errors).
       Inr (foldl add_pack new_index (effective_packs blobs), errors))"

definition load_index :: "'s repository \<Rightarrow> 's \<Rightarrow> core_error + chunk_index" where
  "load_index r s =
     and_then (load_index_lenient r s) (\<lambda>(x, errors).
       case errors of [] \<Rightarrow> Inr x | e # es \<Rightarrow> Inl (index_load_error e))"

definition load_index_for_backup ::
  "'s repository \<Rightarrow> 's \<Rightarrow> (object_id \<Rightarrow> bool) \<Rightarrow> core_error + chunk_index" where
  "load_index_for_backup r s marks =
     and_then (load_index_blobs r s) (\<lambda>(blobs, errors).
       case errors of
         [] \<Rightarrow> Inr (foldl (\<lambda>x p. add_pack_ranked x p marks) new_index (effective_packs blobs))
       | e # es \<Rightarrow> Inl (index_load_error e))"

section \<open>Trees\<close>

definition read_tree_once :: "'s repository \<Rightarrow> 's \<Rightarrow> string \<Rightarrow> tree_id \<Rightarrow> core_error + tree" where
  "read_tree_once r s key t =
     and_then (map_err BackendE (backend_get (rp_ops r) key s)) (\<lambda>bs.
       and_then (map_err (\<lambda>_. Corrupt key ''open'') (open_tree (rp_ext r) (rp_keys r) t bs)) (\<lambda>plain.
         if tree_id_of (rp_ext r) (rp_keys r) plain \<noteq> t
         then Inl (Corrupt key ''content hash does not match its name'')
         else map_err (\<lambda>_. Corrupt key ''parse'') (parse_tree (ev_tree (rp_env r)) plain)))"

definition replica_helps :: "core_error \<Rightarrow> bool" where
  "replica_helps e = (case e of BackendE (ObjNotFound k) \<Rightarrow> True | Corrupt k m \<Rightarrow> True | _ \<Rightarrow> False)"

definition read_tree :: "'s repository \<Rightarrow> 's \<Rightarrow> tree_id \<Rightarrow> core_error + tree" where
  "read_tree r s t =
     (case read_tree_once r s (tree_key (rp_ext r) t) t of
        Inr tree \<Rightarrow> Inr tree
      | Inl e \<Rightarrow>
          (if replica_helps e then
             (case read_tree_once r s (tree_replica_key (rp_ext r) t) t of
                Inr tree \<Rightarrow> Inr tree | Inl e' \<Rightarrow> Inl e)
           else Inl e))"

definition touch_tree :: "'s repository \<Rightarrow> tree_id \<Rightarrow> (core_error, 's, unit) io" where
  "touch_tree r t = io_err BackendE (backend_put (rp_ops r) (touch_key (rp_ext r) t) TOUCH_MAGIC)"

definition repo_seal_tree :: "'s repository \<Rightarrow> string + bytes \<Rightarrow> tree \<Rightarrow> core_error + (tree_id \<times> bytes)" where
  "repo_seal_tree r os t =
     and_then (map_err FormatE (tree_validate t)) (\<lambda>_.
       and_then (map_err FormatE (cbor_encode (ev_tree (rp_env r)) t)) (\<lambda>plain.
         let i = tree_id_of (rp_ext r) (rp_keys r) plain
         in and_then (map_err CryptoE (seal_tree (rp_ext r) os (rp_keys r) i plain)) (\<lambda>bs. Inr (i, bs))))"

partial_function (option) chain_loop ::
  "'s repository \<Rightarrow> 's \<Rightarrow> tree_id option \<Rightarrow> tree_id set \<Rightarrow> entry list list \<Rightarrow> (core_error + entry list) option" where
  "chain_loop r s next_id seen parts =
     (case next_id of
        None \<Rightarrow> Some (Inr (concat (rev parts)))
      | Some t \<Rightarrow>
          (if t \<in> seen then Some (Inl (Corrupt (tree_key (rp_ext r) t) ''tree chain loops''))
           else case read_tree r s t of
               Inl e \<Rightarrow> Some (Inl e)
             | Inr tree \<Rightarrow> chain_loop r s (tr_prev tree) (insert t seen) (parts @ [tr_entries tree])))"

definition read_tree_chain :: "'s repository \<Rightarrow> 's \<Rightarrow> tree_id \<Rightarrow> (core_error + entry list) option" where
  "read_tree_chain r s last_id = chain_loop r s (Some last_id) {} []"

section \<open>Snapshots\<close>

definition put_replica :: "'s repository \<Rightarrow> string \<Rightarrow> bytes \<Rightarrow> (core_error, 's, unit) io" where
  \<comment> \<open>a copy that is already there is as good as one just written\<close>
  "put_replica r key bs s =
     (case backend_put_if_absent (rp_ops r) (key @ REPLICA_SUFFIX) bs s of
        (Inr u, s') \<Rightarrow> (Inr (), s')
      | (Inl (ObjAlreadyExists k), s') \<Rightarrow> (Inr (), s')
      | (Inl e, s') \<Rightarrow> (Inl (BackendE e), s'))"

definition write_snapshot ::
  "'s repository \<Rightarrow> string + bytes \<Rightarrow> string \<Rightarrow> snapshot \<Rightarrow> (core_error, 's, unit) io" where
  "write_snapshot r os key snap =
     io_then (io_lift
        (and_then (map_err (\<lambda>_. Corrupt key ''invalid snapshot'') (snapshot_validate snap)) (\<lambda>_.
           and_then (map_err FormatE (cbor_encode (ev_snapshot (rp_env r)) snap)) (\<lambda>plain.
             map_err CryptoE (seal_snapshot (rp_ext r) os (rp_keys r) key plain))))) (\<lambda>bs.
       io_then
         (if rc_replicas (rp_config r) > 0 then put_replica r key bs else io_lift (Inr ()))
         (\<lambda>_. io_err BackendE (backend_put_if_absent (rp_ops r) key bs)))"

definition timestamp_of :: "string \<Rightarrow> string" where
  "timestamp_of key = last_segment key"

definition get_snapshot_bytes :: "'s repository \<Rightarrow> 's \<Rightarrow> string \<Rightarrow> core_error + bytes" where
  "get_snapshot_bytes r s key =
     (case backend_get (rp_ops r) key s of
        Inr bs \<Rightarrow> Inr bs
      | Inl (ObjNotFound k) \<Rightarrow>
          (case backend_get (rp_ops r) (key @ REPLICA_SUFFIX) s of
             Inr bs \<Rightarrow> Inr bs
           | Inl (ObjNotFound k') \<Rightarrow> Inl (SnapshotNotFound key)
           | Inl e \<Rightarrow> Inl (BackendE e))
      | Inl e \<Rightarrow> Inl (BackendE e))"

definition read_snapshot :: "'s repository \<Rightarrow> 's \<Rightarrow> string \<Rightarrow> core_error + snapshot" where
  "read_snapshot r s key =
     and_then (get_snapshot_bytes r s key) (\<lambda>bs.
       and_then (map_err (\<lambda>_. Corrupt key ''open'') (open_snapshot (rp_ext r) (rp_keys r) key bs)) (\<lambda>plain.
         and_then (map_err (\<lambda>_. Corrupt key ''parse'') (parse_snapshot (ev_snapshot (rp_env r)) plain)) (\<lambda>snap.
           and_then (map_err FormatE (parse_key_timestamp (rp_env r) (timestamp_of key))) (\<lambda>t.
             if \<not> fits_i64 t then Inl (Corrupt key ''timestamp out of range'')
             else if length (sn_client_id snap) \<noteq> 16
               \<or> snapshot_key (rp_ext r) (sn_client_id snap) (timestamp_of key) \<noteq> key
               \<or> sn_time_ns snap \<noteq> t
             then Inl (Corrupt key ''snapshot content does not belong under this key'')
             else Inr snap))))"

section \<open>Creating and opening\<close>

record init_options =
  io_chunker :: chunker_params
  io_pack_target_size :: nat
  io_kdf_cost :: kdf_cost
  io_replicas :: "nat option"

definition init_options_default :: init_options where
  "init_options_default = \<lparr>io_chunker = chunker_params_default, io_pack_target_size = 64 * 1024 * 1024,
     io_kdf_cost = kdf_cost_default, io_replicas = None\<rparr>"

text \<open>The sources of randomness one \<open>init\<close> draws from: repository identifier, master key, salt, nonce.\<close>

record init_random =
  ir_repo_id :: "string + bytes"
  ir_master :: "string + bytes"
  ir_salt :: "string + bytes"
  ir_nonce :: "string + bytes"

definition init_config :: "bool \<Rightarrow> int \<Rightarrow> init_options \<Rightarrow> bytes \<Rightarrow> key_slot \<Rightarrow> repo_config" where
  "init_config is_local now opts repo_id slot =
     (new_config repo_id now slot)\<lparr>rc_chunker := io_chunker opts,
       rc_pack_target_size := io_pack_target_size opts,
       rc_replicas := (case io_replicas opts of Some n \<Rightarrow> n | None \<Rightarrow> if is_local then 1 else 0)\<rparr>"

definition store_config :: "'s env \<Rightarrow> bytes \<Rightarrow> (core_error, 's, unit) io" where
  "store_config env bs s =
     (case backend_put_if_absent_verified (ev_ops env) CONFIG bs s of
        (Inr u, s') \<Rightarrow> (Inr (), s')
      | (Inl (ObjAlreadyExists k), s') \<Rightarrow> (Inl RepoExists, s')
      | (Inl e, s') \<Rightarrow> (Inl (BackendE e), s'))"

definition repo_init ::
  "'s env \<Rightarrow> bool \<Rightarrow> int \<Rightarrow> init_random \<Rightarrow> bytes \<Rightarrow> init_options \<Rightarrow> (core_error, 's, 's repository) io" where
  \<comment> \<open>whether the location is a local directory; the clock in nanoseconds\<close>
  "repo_init env is_local now rnd password opts =
     (if \<not> fits_i64 now then io_lift (Inl (InvalidConfig ''clock out of range''))
      else io_then (io_lift (map_err CryptoE (random_bytes (ir_repo_id rnd)))) (\<lambda>repo_id.
        let binding = \<lparr>kb_repo_id = repo_id, kb_chunker = io_chunker opts\<rparr>
        in io_then (io_lift (map_err CryptoE
              (create_key_slot (ev_ext env) (ev_invariants env) (ir_master rnd) (ir_salt rnd) (ir_nonce rnd)
                 password ''default'' now (io_kdf_cost opts) binding))) (\<lambda>(slot, master).
          let config = init_config is_local now opts repo_id slot
          in io_then (io_lift (map_err (\<lambda>_. InvalidConfig ''validate'') (config_validate config))) (\<lambda>_.
            io_then (io_lift (map_err FormatE (cbor_encode (ev_config env) config))) (\<lambda>bs.
              io_then (store_config env bs) (\<lambda>_.
                io_lift (Inr \<lparr>rp_env = env, rp_config = config,
                  rp_keys = keys_from_master (ev_ext env) master\<rparr>)))))))"

definition repo_open :: "'s env \<Rightarrow> bytes \<Rightarrow> 's \<Rightarrow> core_error + 's repository" where
  "repo_open env password s =
     and_then (case backend_get (ev_ops env) CONFIG s of
         Inr bs \<Rightarrow> Inr bs
       | Inl (ObjNotFound k) \<Rightarrow> Inl NotARepository
       | Inl e \<Rightarrow> Inl (BackendE e)) (\<lambda>bs.
       and_then (map_err FormatE (cbor_decode_as (ev_config env) bs)) (\<lambda>config.
         and_then (map_err (\<lambda>_. InvalidConfig ''validate'') (config_validate config)) (\<lambda>_.
           if rc_min_reader config > FORMAT_VERSION
           then Inl (InvalidConfig ''repository requires a newer reader'')
           else and_then (map_err CryptoE
                (unlock_key_slot (ev_ext env) (ev_invariants env) password (rc_key config))) (\<lambda>unlocked.
             and_then (map_err (\<lambda>_. InvalidConfig ''invariants'') (invariants_validate (um_invariants unlocked))) (\<lambda>_.
               and_then (map_err (\<lambda>_. InvalidConfig ''tampered'') (check_matches (um_invariants unlocked) config)) (\<lambda>_.
                 Inr \<lparr>rp_env = env, rp_config = config,
                      rp_keys = keys_from_master (ev_ext env) (um_master unlocked)\<rparr>))))))"

section \<open>A concrete repository for witnesses\<close>

definition demo_env :: "tree list \<Rightarrow> snapshot list \<Rightarrow> index_blob list \<Rightarrow> repo_config list \<Rightarrow> invariants list \<Rightarrow> map_state env" where
  "demo_env ts sns is cs vs = \<lparr>ev_ext = demo_ext, ev_ops = map_store, ev_tree = demo_codec ts,
     ev_snapshot = demo_codec sns, ev_trailer = demo_codec [], ev_index = demo_codec is,
     ev_config = demo_codec cs, ev_invariants = demo_codec vs, ev_chunk_list = demo_codec [],
     ev_format_ts = (\<lambda>t. Inr ''t''), ev_parse_ts = (\<lambda>ts. Inr 0)\<rparr>"

definition demo_repo :: "nat \<Rightarrow> tree list \<Rightarrow> snapshot list \<Rightarrow> index_blob list \<Rightarrow> map_state repository" where
  "demo_repo replicas ts sns is = \<lparr>rp_env = demo_env ts sns is [] [],
     rp_config = new_config (replicate 16 0) 0 \<lparr>ks_version = KEY_SLOT_VERSION, ks_name = [], ks_created_ns = 0,
        ks_kdf = kdf_default_params, ks_wrapped = []\<rparr>\<lparr>rc_replicas := replicas\<rparr>,
     rp_keys = keys_from_master demo_ext (replicate 32 1)\<rparr>"

lemma demo_repo_simps [simp]:
  "rp_ext (demo_repo n ts sns is) = demo_ext" "rp_ops (demo_repo n ts sns is) = map_store"
  "ev_tree (rp_env (demo_repo n ts sns is)) = demo_codec ts"
  "ev_snapshot (rp_env (demo_repo n ts sns is)) = demo_codec sns"
  "ev_index (rp_env (demo_repo n ts sns is)) = demo_codec is"
  "ev_parse_ts (rp_env (demo_repo n ts sns is)) tx = Inr 0"
  "rc_replicas (rp_config (demo_repo n ts sns is)) = n"
  "rp_keys (demo_repo n ts sns is) = keys_from_master demo_ext (replicate 32 1)"
  by (simp_all add: demo_repo_def demo_env_def)

abbreviation demo_nonce :: "string + bytes" where "demo_nonce \<equiv> Inr (replicate 24 0)"

definition demo_tree_repo :: "map_state repository" where
  "demo_tree_repo = demo_repo 0 [new_tree [] None] [] []"

definition demo_tree_bytes :: bytes where
  "demo_tree_bytes = replicate 24 0 @ [0] @ demo_tag (rk_meta (rp_keys demo_tree_repo)) (pad32 [0])"

lemma demo_nonce_ok: "rng_ok demo_nonce"
  by (simp add: rng_ok_def NONCE_LEN_def)

lemma demo_tree_seal: "repo_seal_tree demo_tree_repo demo_nonce (new_tree [] None) = Inr (TreeId (pad32 [0]), demo_tree_bytes)"
  by (simp add: repo_seal_tree_def demo_tree_repo_def demo_tree_bytes_def tree_validate_def new_tree_def
      tree_id_of_def seal_tree_def Let_def)

section \<open>Reading trees\<close>

abbreviation rp_open_tree :: "'s repository \<Rightarrow> tree_id \<Rightarrow> bytes \<Rightarrow> crypto_error + bytes" where
  "rp_open_tree r \<equiv> open_tree (rp_ext r) (rp_keys r)"

text \<open>The bytes of a stored copy that a reader accepts for a tree identifier.\<close>

definition tree_copy :: "'s repository \<Rightarrow> tree_id \<Rightarrow> bytes \<Rightarrow> tree \<Rightarrow> bool" where
  "tree_copy r t bs tree \<longleftrightarrow> (\<exists>plain. rp_open_tree r t bs = Inr plain
     \<and> tree_id_of (rp_ext r) (rp_keys r) plain = t
     \<and> cbor_decode_as (ev_tree (rp_env r)) plain = Inr tree \<and> tree_validate tree = Inr ())"

lemma tree_copy_unique: "tree_copy r t bs a \<Longrightarrow> tree_copy r t bs b \<Longrightarrow> a = b"
  by (auto simp: tree_copy_def)

lemma parse_tree_Inr: "parse_tree c plain = Inr t \<longleftrightarrow> cbor_decode_as c plain = Inr t \<and> tree_validate t = Inr ()"
  by (auto simp: parse_tree_def result_simps)

lemma read_tree_once_Inr:
  "read_tree_once r s key t = Inr tree \<longleftrightarrow>
     (\<exists>bs. backend_get (rp_ops r) key s = Inr bs \<and> tree_copy r t bs tree)"
  by (auto simp: read_tree_once_def tree_copy_def result_simps parse_tree_Inr split: if_splits)

lemma read_tree_once_Inl:
  "read_tree_once r s key t = Inl e \<Longrightarrow>
     (\<exists>b. e = BackendE b \<and> backend_get (rp_ops r) key s = Inl b) \<or> (\<exists>m. e = Corrupt key m)"
  by (auto simp: read_tree_once_def result_simps split: if_splits)

lemma read_tree_Inr:
  assumes "read_tree r s t = Inr tree"
  shows "\<exists>key bs. key \<in> {tree_key (rp_ext r) t, tree_replica_key (rp_ext r) t}
    \<and> backend_get (rp_ops r) key s = Inr bs \<and> tree_copy r t bs tree"
  using assms by (auto simp: read_tree_def read_tree_once_Inr split: sum.splits if_splits)

lemma live_get:
  assumes "store_ok ops objs" "store_live ops objs"
  shows "objs s k = Some (bs, tm) \<Longrightarrow> backend_get ops k s = Inr bs"
    and "objs s k = None \<Longrightarrow> backend_get ops k s = Inl (ObjNotFound k)"
proof -
  have p: "backend_path ops k = Inr ()" using assms(2) by (simp add: store_live_def backend_path_def)
  assume "objs s k = Some (bs, tm)"
  moreover from this assms(2) obtain b where b: "so_get ops s k = Inr b"
    unfolding store_live_def by (metis option.distinct(1))
  ultimately have "b = bs" using store_reads(1) [OF assms(1) b] by simp
  with p b show "backend_get ops k s = Inr bs" by (simp add: backend_get_def)
next
  assume "objs s k = None"
  moreover have "backend_path ops k = Inr ()" using assms(2) by (simp add: store_live_def backend_path_def)
  ultimately show "backend_get ops k s = Inl (ObjNotFound k)"
    using assms(2) by (simp add: store_live_def backend_get_def map_store_err_def)
qed

text \<open>a tree that is read is the tree that was asked for: its plaintext opened under the
  identifier as associated data, hashes (keyed) to the identifier, and passes the structural
  checks; it came from the primary copy or from its replica.\<close>

theorem read_tree_authentic:
  assumes "store_ok (rp_ops r) objs" "read_tree r s t = Inr tree"
  shows "\<exists>key bs tm plain. key \<in> {tree_key (rp_ext r) t, tree_replica_key (rp_ext r) t}
    \<and> objs s key = Some (bs, tm)
    \<and> open_tree (rp_ext r) (rp_keys r) t bs = Inr plain \<and> tree_id_of (rp_ext r) (rp_keys r) plain = t
    \<and> parse_tree (ev_tree (rp_env r)) plain = Inr tree"
proof -
  obtain key bs where k: "key \<in> {tree_key (rp_ext r) t, tree_replica_key (rp_ext r) t}"
    and g: "backend_get (rp_ops r) key s = Inr bs" and c: "tree_copy r t bs tree"
    using read_tree_Inr [OF assms(2)] by blast
  obtain tm where "objs s key = Some (bs, tm)" using backend_get_objs(1) [OF assms(1) g] by blast
  moreover obtain plain where "rp_open_tree r t bs = Inr plain"
    "tree_id_of (rp_ext r) (rp_keys r) plain = t" "parse_tree (ev_tree (rp_env r)) plain = Inr tree"
    using c by (auto simp: tree_copy_def parse_tree_Inr)
  ultimately show ?thesis using k by blast
qed

lemma seal_tree_copy:
  assumes "aead_ok (rp_ext r)" "rng_ok os" "codec_ok (ev_tree (rp_env r)) {t}"
    "repo_seal_tree r os t = Inr (i, bs)"
  shows "tree_copy r i bs t"
proof -
  from assms(4) obtain plain where v: "tree_validate t = Inr ()"
    and enc: "cbor_encode (ev_tree (rp_env r)) t = Inr plain"
    and i: "i = tree_id_of (rp_ext r) (rp_keys r) plain"
    and sl: "seal_tree (rp_ext r) os (rp_keys r) i plain = Inr bs"
    by (auto simp: repo_seal_tree_def result_simps Let_def)
  have "cbor_decode_as (ev_tree (rp_env r)) plain = Inr t" using codec_roundtrip [OF assms(3) _ enc] by simp
  with open_sealed_objects(1) [OF assms(1,2) sl] v i show ?thesis unfolding tree_copy_def by blast
qed

text \<open>The stored copies of a tree do not collide with the bytes \<open>bs\<close>: a copy whose plaintext
  hashes to the same identifier has the same plaintext.\<close>

definition copies_agree :: "'s repository \<Rightarrow> objects \<Rightarrow> tree_id \<Rightarrow> bytes \<Rightarrow> bool" where
  "copies_agree r ob i bs \<longleftrightarrow>
     (\<forall>k \<in> {tree_key (rp_ext r) i, tree_replica_key (rp_ext r) i}. \<forall>b tm pl pl'.
        ob k = Some (b, tm) \<longrightarrow> rp_open_tree r i b = Inr pl \<longrightarrow> rp_open_tree r i bs = Inr pl'
        \<longrightarrow> tree_id_of (rp_ext r) (rp_keys r) pl = i \<longrightarrow> pl = pl')"

lemma copies_agree_same:
  assumes "copies_agree r ob i bs" "tree_copy r i bs t" "tree_copy r i b tree"
    "k \<in> {tree_key (rp_ext r) i, tree_replica_key (rp_ext r) i}" "ob k = Some (b, tm)"
  shows "tree = t"
proof -
  from assms(2) obtain pl' where p': "rp_open_tree r i bs = Inr pl'" "cbor_decode_as (ev_tree (rp_env r)) pl' = Inr t"
    by (auto simp: tree_copy_def)
  from assms(3) obtain pl where p: "rp_open_tree r i b = Inr pl" "tree_id_of (rp_ext r) (rp_keys r) pl = i"
    "cbor_decode_as (ev_tree (rp_env r)) pl = Inr tree" by (auto simp: tree_copy_def)
  have "pl = pl'" using assms(1,4,5) p(1,2) p'(1) unfolding copies_agree_def by blast
  with p(3) p'(2) show ?thesis by simp
qed

text \<open>C13: one good copy is enough: after a tree is sealed and its bytes are stored as the primary
  or as the replica, reading it succeeds whatever has become of the other copy - missing, or any
  bytes at all - and gives the sealed tree back unless two plaintexts share a keyed hash.\<close>

theorem one_tree_copy_is_enough:
  assumes "store_ok (rp_ops r) objs" "store_live (rp_ops r) objs" "aead_ok (rp_ext r)" "rng_ok os"
    "codec_ok (ev_tree (rp_env r)) {t}" "repo_seal_tree r os t = Inr (i, bs)"
    "objs s (tree_key (rp_ext r) i) = Some (bs, tm) \<or> objs s (tree_replica_key (rp_ext r) i) = Some (bs, tm)"
    "copies_agree r (objs s) i bs"
  shows "read_tree r s i = Inr t"
proof -
  note copy = seal_tree_copy [OF assms(3-6)]
  show ?thesis
  proof (cases "objs s (tree_key (rp_ext r) i)")
    case None
    then have "objs s (tree_replica_key (rp_ext r) i) = Some (bs, tm)" using assms(7) by simp
    from live_get(1) [OF assms(1,2) this] live_get(2) [OF assms(1,2) None] copy
    have "read_tree_once r s (tree_replica_key (rp_ext r) i) i = Inr t"
      and "read_tree_once r s (tree_key (rp_ext r) i) i = Inl (BackendE (ObjNotFound (tree_key (rp_ext r) i)))"
      by (auto simp: read_tree_once_Inr) (simp add: read_tree_once_def)
    then show ?thesis by (simp add: read_tree_def replica_helps_def)
  next
    case (Some v)
    then obtain b tm' where v: "objs s (tree_key (rp_ext r) i) = Some (b, tm')" by (cases v) auto
    note g = live_get(1) [OF assms(1,2) v]
    show ?thesis
    proof (cases "read_tree_once r s (tree_key (rp_ext r) i) i")
      case (Inr tree)
      with g have "tree_copy r i b tree" by (auto simp: read_tree_once_Inr)
      from copies_agree_same [OF assms(8) copy this _ v] Inr show ?thesis by (simp add: read_tree_def)
    next
      case (Inl e)
      with read_tree_once_Inl [OF Inl] g obtain m where e: "e = Corrupt (tree_key (rp_ext r) i) m" by auto
      have "b \<noteq> bs" using Inl copy read_tree_once_Inr [of r s "tree_key (rp_ext r) i" i t] g by auto
      then have "objs s (tree_replica_key (rp_ext r) i) = Some (bs, tm)" using assms(7) v by auto
      from live_get(1) [OF assms(1,2) this] copy
      have "read_tree_once r s (tree_replica_key (rp_ext r) i) i = Inr t"
        by (auto simp: read_tree_once_Inr)
      with Inl e show ?thesis by (simp add: read_tree_def replica_helps_def)
    qed
  qed
qed

text \<open>A repository whose primary copy of the empty directory is damaged and whose replica is intact.\<close>

definition demo_tree_state :: map_state where
  "demo_tree_state = ([(tree_key demo_ext (TreeId (pad32 [0])), [1, 2, 3], 0),
     (tree_replica_key demo_ext (TreeId (pad32 [0])), demo_tree_bytes, 0)], 5)"

lemma demo_tree_objs:
  "map_objs demo_tree_state (tree_key demo_ext (TreeId (pad32 [0]))) = Some ([1, 2, 3], 0)"
  "map_objs demo_tree_state (tree_replica_key demo_ext (TreeId (pad32 [0]))) = Some (demo_tree_bytes, 0)"
  using tree_key_replica_differ [OF demo_hex_ok] by (simp_all add: map_objs_def demo_tree_state_def)

lemma demo_tree_agree:
  "copies_agree demo_tree_repo (map_objs demo_tree_state) (TreeId (pad32 [0])) demo_tree_bytes"
  using demo_tree_objs
  by (auto simp: copies_agree_def demo_tree_repo_def open_tree_def open_sealed_def NONCE_LEN_def pack_consts)

theorem one_tree_copy_is_enough_witness:
  "read_tree demo_tree_repo demo_tree_state (TreeId (pad32 [0])) = Inr (new_tree [] None)"
  by (rule one_tree_copy_is_enough [where objs = map_objs and tm = 0, OF _ _ _ demo_nonce_ok _ demo_tree_seal _ demo_tree_agree])
    (simp_all add: demo_tree_repo_def map_store_ok map_store_live demo_aead_ok demo_codec_ok demo_tree_objs)

theorem read_tree_authentic_witness:
  "\<exists>key bs tm plain. map_objs demo_tree_state key = Some (bs, tm)
     \<and> open_tree demo_ext (rp_keys demo_tree_repo) (TreeId (pad32 [0])) bs = Inr plain
     \<and> parse_tree (ev_tree (rp_env demo_tree_repo)) plain = Inr (new_tree [] None)"
proof -
  let ?r = "demo_tree_repo" and ?i = "TreeId (pad32 [0])"
  have "tree_copy ?r ?i demo_tree_bytes (new_tree [] None)"
    by (rule seal_tree_copy [OF _ demo_nonce_ok _ demo_tree_seal])
      (simp_all add: demo_tree_repo_def demo_aead_ok demo_codec_ok)
  moreover have "backend_get map_store (tree_replica_key demo_ext ?i) demo_tree_state = Inr demo_tree_bytes"
    "backend_get map_store (tree_key demo_ext ?i) demo_tree_state = Inr [1, 2, 3]"
    using live_get(1) [OF map_store_ok map_store_live] demo_tree_objs by blast+
  moreover have "open_tree demo_ext k ?i [1, 2, 3] = Inl (BadLength ''sealed object'' 40 3)" for k :: repo_keys
    by (simp add: open_tree_def open_sealed_def NONCE_LEN_def pack_consts)
  ultimately have "read_tree ?r demo_tree_state ?i = Inr (new_tree [] None)"
    by (auto simp: read_tree_def replica_helps_def read_tree_once_def demo_tree_repo_def tree_copy_def parse_tree_def)
  from read_tree_authentic [OF _ this, of map_objs] show ?thesis
    by (auto simp: demo_tree_repo_def map_store_ok)
qed

section \<open>Directory chains\<close>

inductive tree_chain :: "'s repository \<Rightarrow> 's \<Rightarrow> tree_id option \<Rightarrow> (tree_id \<times> tree) list \<Rightarrow> bool"
  for r s where
  chain_end: "tree_chain r s None []"
| chain_step: "read_tree r s t = Inr tree \<Longrightarrow> tree_chain r s (tr_prev tree) segs \<Longrightarrow>
     tree_chain r s (Some t) ((t, tree) # segs)"

inductive_cases chain_NoneE: "tree_chain r s None segs"
inductive_cases chain_SomeE: "tree_chain r s (Some t) segs"
inductive_simps chain_None [simp]: "tree_chain r s None segs"

definition chain_result :: "'s repository \<Rightarrow> 's \<Rightarrow> tree_id option \<Rightarrow> tree_id set \<Rightarrow> entry list list
    \<Rightarrow> core_error + entry list \<Rightarrow> bool" where
  "chain_result r s n seen parts res \<longleftrightarrow> (\<forall>es. res = Inr es \<longrightarrow>
     (\<exists>segs. tree_chain r s n segs \<and> distinct (map fst segs) \<and> fst ` set segs \<inter> seen = {}
        \<and> es = concat (rev (parts @ map (tr_entries \<circ> snd) segs))))"

lemma chain_resultI:
  assumes "t \<notin> seen" "read_tree r s t = Inr tree"
    "chain_result r s (tr_prev tree) (insert t seen) (parts @ [tr_entries tree]) res"
  shows "chain_result r s (Some t) seen parts res"
  unfolding chain_result_def
proof (intro allI impI)
  fix es assume "res = Inr es"
  with assms(3) obtain segs where c: "tree_chain r s (tr_prev tree) segs" "distinct (map fst segs)"
    "fst ` set segs \<inter> insert t seen = {}"
    "es = concat (rev ((parts @ [tr_entries tree]) @ map (tr_entries \<circ> snd) segs))"
    unfolding chain_result_def by blast
  have "tree_chain r s (Some t) ((t, tree) # segs)" using assms(2) c(1) by (rule chain_step)
  moreover have "distinct (map fst ((t, tree) # segs))" "fst ` set ((t, tree) # segs) \<inter> seen = {}"
    using c(2,3) assms(1) by auto
  moreover have "es = concat (rev (parts @ map (tr_entries \<circ> snd) ((t, tree) # segs)))" using c(4) by simp
  ultimately show "\<exists>segs. tree_chain r s (Some t) segs \<and> distinct (map fst segs) \<and> fst ` set segs \<inter> seen = {}
      \<and> es = concat (rev (parts @ map (tr_entries \<circ> snd) segs))" by blast
qed

lemma chain_loop_sound: "chain_loop r s n seen parts = Some res \<Longrightarrow> chain_result r s n seen parts res"
proof (rule chain_loop.raw_induct [where P = chain_result])
  fix loop :: "'a repository \<Rightarrow> 'a \<Rightarrow> tree_id option \<Rightarrow> tree_id set \<Rightarrow> entry list list \<Rightarrow> (core_error + entry list) option"
    and r s n seen parts res
  assume IH: "\<And>r s n seen parts y. loop r s n seen parts = Some y \<Longrightarrow> chain_result r s n seen parts y"
    and eq: "(case n of None \<Rightarrow> Some (Inr (concat (rev parts)))
      | Some t \<Rightarrow> if t \<in> seen then Some (Inl (Corrupt (tree_key (rp_ext r) t) ''tree chain loops''))
          else case read_tree r s t of Inl e \<Rightarrow> Some (Inl e)
               | Inr tree \<Rightarrow> loop r s (tr_prev tree) (insert t seen) (parts @ [tr_entries tree])) = Some res"
  show "chain_result r s n seen parts res"
  proof (cases n)
    case None
    with eq show ?thesis by (auto simp: chain_result_def)
  next
    case (Some t)
    show ?thesis
    proof (cases "t \<in> seen")
      case True
      with eq Some show ?thesis by (auto simp: chain_result_def)
    next
      case False
      show ?thesis
      proof (cases "read_tree r s t")
        case (Inl e)
        with eq Some False show ?thesis by (auto simp: chain_result_def)
      next
        case (Inr tree)
        with eq Some False have "loop r s (tr_prev tree) (insert t seen) (parts @ [tr_entries tree]) = Some res"
          by simp
        from chain_resultI [OF False Inr IH [OF this]] Some show ?thesis by simp
      qed
    qed
  qed
qed

lemma chain_loop_complete:
  "tree_chain r s n segs \<Longrightarrow> distinct (map fst segs) \<Longrightarrow> fst ` set segs \<inter> seen = {} \<Longrightarrow>
     chain_loop r s n seen parts = Some (Inr (concat (rev (parts @ map (tr_entries \<circ> snd) segs))))"
proof (induction arbitrary: seen parts rule: tree_chain.induct)
  case chain_end
  then show ?case by (subst chain_loop.simps) simp
next
  case (chain_step t tree segs)
  then have "chain_loop r s (tr_prev tree) (insert t seen) (parts @ [tr_entries tree]) =
      Some (Inr (concat (rev ((parts @ [tr_entries tree]) @ map (tr_entries \<circ> snd) segs))))"
    by (intro chain_step.IH) auto
  with chain_step show ?case by (subst chain_loop.simps) simp
qed

lemma chain_loop_Inr:
  "chain_loop r s n seen parts = Some (Inr es) \<longleftrightarrow>
     (\<exists>segs. tree_chain r s n segs \<and> distinct (map fst segs) \<and> fst ` set segs \<inter> seen = {}
        \<and> es = concat (rev (parts @ map (tr_entries \<circ> snd) segs)))"
proof
  assume "chain_loop r s n seen parts = Some (Inr es)"
  from chain_loop_sound [OF this]
  show "\<exists>segs. tree_chain r s n segs \<and> distinct (map fst segs) \<and> fst ` set segs \<inter> seen = {}
        \<and> es = concat (rev (parts @ map (tr_entries \<circ> snd) segs))"
    by (simp add: chain_result_def)
qed (elim exE conjE, simp add: chain_loop_complete)

lemma chain_loop_terminates:
  assumes "finite A" "\<And>t tree. read_tree r s t = Inr tree \<Longrightarrow> t \<in> A"
  shows "seen \<subseteq> A \<Longrightarrow> \<exists>res. chain_loop r s n seen parts = Some res"
proof (induction "card (A - seen)" arbitrary: n seen parts rule: less_induct)
  case less
  show ?case
  proof (cases n)
    case None
    then show ?thesis by (subst chain_loop.simps) simp
  next
    case (Some t)
    show ?thesis
    proof (cases "t \<in> seen")
      case True
      with Some show ?thesis by (subst chain_loop.simps) simp
    next
      case False
      show ?thesis
      proof (cases "read_tree r s t")
        case (Inl e)
        with Some False show ?thesis by (subst chain_loop.simps) simp
      next
        case (Inr tree)
        then have "t \<in> A" by (rule assms(2))
        then have "card (A - insert t seen) < card (A - seen)"
          using False assms(1) by (intro psubset_card_mono) auto
        moreover have "insert t seen \<subseteq> A" using less.prems \<open>t \<in> A\<close> by simp
        ultimately obtain res where "chain_loop r s (tr_prev tree) (insert t seen) (parts @ [tr_entries tree]) = Some res"
          using less.hyps by blast
        with Some False Inr show ?thesis by (subst chain_loop.simps) simp
      qed
    qed
  qed
qed

lemma readable_trees_finite:
  assumes "store_ok (rp_ops r) objs" "hex_ok (rp_ext r)" "finite {k. objs s k \<noteq> None}"
  shows "finite {t. \<exists>tree. read_tree r s t = Inr tree}"
proof -
  let ?K = "{k. objs s k \<noteq> None}"
  let ?A = "{t. tree_key (rp_ext r) t \<in> ?K} \<union> {t. tree_replica_key (rp_ext r) t \<in> ?K}"
  have "inj (tree_key (rp_ext r))" "inj (tree_replica_key (rp_ext r))"
    using key_inj [OF assms(2)] by (auto intro: injI)
  then have fin: "finite ?A"
    using assms(3) finite_vimageI [of ?K "tree_key (rp_ext r)"] finite_vimageI [of ?K "tree_replica_key (rp_ext r)"]
    by (auto simp: vimage_def)
  have "u \<in> ?A" if rd: "read_tree r s u = Inr tree" for u tree
  proof -
    obtain k bs where "k \<in> {tree_key (rp_ext r) u, tree_replica_key (rp_ext r) u}"
      "backend_get (rp_ops r) k s = Inr bs" using read_tree_Inr [OF rd] by blast
    with backend_get_objs(1) [OF assms(1), of k s bs] show ?thesis by auto
  qed
  then have "{t. \<exists>tree. read_tree r s t = Inr tree} \<subseteq> ?A" by blast
  then show ?thesis using fin by (rule finite_subset)
qed

text \<open>C14: collecting the segments of a directory always returns, on any repository content (the
  chain of a forged or corrupt repository may loop), and when it succeeds the result is the
  entries of the segments from the oldest to the last, each read and checked once.\<close>

theorem read_tree_chain_total:
  assumes "store_ok (rp_ops r) objs" "hex_ok (rp_ext r)" "finite {k. objs s k \<noteq> None}"
  shows "\<exists>res. read_tree_chain r s t = Some res
    \<and> (\<forall>es. res = Inr es \<longleftrightarrow> (\<exists>segs. tree_chain r s (Some t) segs \<and> distinct (map fst segs)
          \<and> es = concat (rev (map (tr_entries \<circ> snd) segs))))"
proof -
  obtain res where "chain_loop r s (Some t) {} [] = Some res"
    using chain_loop_terminates [OF readable_trees_finite [OF assms], of r s "{}"] by blast
  then show ?thesis
    using chain_loop_Inr [of r s "Some t" "{}" "[]"] by (auto simp: read_tree_chain_def)
qed

theorem read_tree_chain_total_witness:
  "\<exists>res. read_tree_chain demo_tree_repo demo_tree_state (TreeId (pad32 [0])) = Some res"
proof -
  have "finite {k. map_objs demo_tree_state k \<noteq> None}"
    using finite_dom_map_of [of "fst demo_tree_state"] by (simp add: map_objs_def dom_def)
  from read_tree_chain_total [where objs = map_objs, OF _ _ this, of demo_tree_repo "TreeId (pad32 [0])"] show ?thesis
    by (auto simp: demo_tree_repo_def map_store_ok demo_hex_ok)
qed

end
