(* ===== verification/Repo_Laws.thy ===== *)
theory Repo_Laws
  imports Repo_Objects
begin

text \<open>
  What the object operations of \<open>crates/kist-core/src/repo.rs\<close> guarantee together: an index blob
  that was written is read back, the effective index is built from exactly the blobs no other
  one supersedes, an initialised repository opens again, and a snapshot becomes visible only
  after its replica.
\<close>

section \<open>Index blobs\<close>

lemma decode_encode_index_blob:
  assumes "zstd_ok ext" "codec_ok codec {blob}" "encode_index_blob ext codec blob = Inr payload"
    "\<forall>plain. cbor_encode codec blob = Inr plain \<longrightarrow> length plain \<le> MAX_INDEX_PLAIN"
  shows "decode_index_blob ext codec payload = Inr blob"
proof -
  from assms(3) obtain plain z where enc: "cbor_encode codec blob = Inr plain"
    and z: "zstd_encode ext plain = Some z"
    and p: "payload = (if length z < length plain - length plain div 16
        then algorithm_byte Zstd # z else algorithm_byte Raw # plain)"
    by (auto simp: encode_index_blob_def result_simps split: if_splits)
  have dec: "cbor_decode_as codec plain = Inr blob" using codec_roundtrip [OF assms(2) _ enc] by simp
  have len: "length plain \<le> MAX_INDEX_PLAIN" using assms(4) enc by simp
  have "sat_add64 MAX_INDEX_PLAIN 1 = MAX_INDEX_PLAIN + 1"
    by (intro sat_add64_small) (simp add: MAX_INDEX_PLAIN_def u64_max_def)
  then have "zstd_take ext (sat_add64 MAX_INDEX_PLAIN 1) z = Some plain"
    using assms(1) z len by (simp add: zstd_ok_def)
  then show ?thesis
    using dec len by (auto simp: p decode_index_blob_def decode_index_blob_limited_def algorithm_byte_def
        algorithm_from_u8_def)
qed

lemma write_index_reads:
  assumes "store_ok (rp_ops r) objs" "store_live (rp_ops r) objs" "aead_ok (rp_ext r)" "zstd_ok (rp_ext r)"
    "rng_ok os" "codec_ok (ev_index (rp_env r)) {blob}" "ib_version blob = FORMAT_VERSION"
    "\<forall>plain. cbor_encode (ev_index (rp_env r)) blob = Inr plain \<longrightarrow> length plain \<le> MAX_INDEX_PLAIN"
    "write_index r os blob s = (Inr i, s')"
  shows "read_index_blob r s' i = Inr blob
    \<and> (\<forall>k. k \<noteq> index_key (rp_ext r) i \<longrightarrow> objs s' k = objs s k)"
proof -
  from assms(9) obtain payload bs where
      enc: "encode_index_blob (rp_ext r) (ev_index (rp_env r)) blob = Inr payload"
    and seal: "seal_index_blob_in_place (rp_ext r) os (rp_keys r) payload = Inr bs"
    and i: "i = object_id_of (rp_ext r) bs"
    and put: "backend_put (rp_ops r) (index_key (rp_ext r) i) bs s = (Inr (), s')"
    by (auto simp: write_index_def result_simps Let_def)
  obtain t where t: "objs s' = (objs s)(index_key (rp_ext r) i \<mapsto> (bs, t))"
    using backend_put_objs(1) [OF assms(1) put] by blast
  then have "backend_get (rp_ops r) (index_key (rp_ext r) i) s' = Inr bs"
    by (intro live_get(1) [OF assms(1,2)]) simp
  moreover have "open_index_blob (rp_ext r) (rp_keys r) bs = Inr payload"
    using open_sealed_objects(4) [OF assms(3,5) seal] .
  moreover have "decode_index_blob (rp_ext r) (ev_index (rp_env r)) payload = Inr blob"
    using decode_encode_index_blob [OF assms(4,6) enc assms(8)] .
  ultimately have "read_index_blob r s' i = Inr blob"
    using i assms(7) by (simp add: read_index_blob_def Let_def)
  with t show ?thesis by simp
qed

text \<open>an index blob that was written is found under the identifier the write returned and
  decodes to the same blob, the content hash, the cipher, the compression and the codec all
  agreeing; the write touches no other object.\<close>

theorem write_index_roundtrip:
  assumes "store_ok (rp_ops r) objs" "store_live (rp_ops r) objs" "aead_ok (rp_ext r)" "zstd_ok (rp_ext r)"
    "rng_ok os" "codec_ok (ev_index (rp_env r)) {blob}" "ib_version blob = FORMAT_VERSION"
    "\<forall>plain. cbor_encode (ev_index (rp_env r)) blob = Inr plain \<longrightarrow> length plain \<le> MAX_INDEX_PLAIN"
    "write_index r os blob s = (Inr i, s')"
  shows "read_index_blob r s' i = Inr blob
    \<and> (\<forall>k. k \<noteq> index_key (rp_ext r) i \<longrightarrow> objs s' k = objs s k)"
  using write_index_reads [OF assms] .

text \<open>A repository with one index blob, which lists no pack.\<close>

definition demo_blob :: index_blob where "demo_blob = new_blob []"

definition demo_index_repo :: "map_state repository" where
  "demo_index_repo = demo_repo 0 [] [] [demo_blob]"

definition demo_index_bytes :: bytes where
  "demo_index_bytes = replicate 24 0 @ [0, 0] @ demo_tag (rk_index (rp_keys demo_index_repo)) AAD_INDEX"

definition demo_index_id :: object_id where
  "demo_index_id = object_id_of demo_ext demo_index_bytes"

definition demo_index_state :: map_state where
  "demo_index_state = ([(index_key demo_ext demo_index_id, demo_index_bytes, 0)], 1)"

lemma demo_write_index:
  "write_index demo_index_repo demo_nonce demo_blob ([], 0) = (Inr demo_index_id, demo_index_state)"
  by (simp add: write_index_def demo_index_repo_def io_then_def io_lift_def encode_index_blob_def algorithm_byte_def
      seal_index_blob_in_place_def random_bytes_def demo_index_state_def demo_index_id_def demo_index_bytes_def
      Let_def io_err_def backend_put_def backend_path_def map_store_def map_put_def map_time_def
      MIN_TIMESTAMP_def MAX_TIMESTAMP_def)

lemma demo_index_reads: "read_index_blob demo_index_repo demo_index_state demo_index_id = Inr demo_blob"
proof -
  have "\<forall>plain. cbor_encode (ev_index (rp_env demo_index_repo)) demo_blob = Inr plain \<longrightarrow> length plain \<le> MAX_INDEX_PLAIN"
    by (simp add: demo_index_repo_def MAX_INDEX_PLAIN_def)
  from write_index_reads [OF _ _ _ _ demo_nonce_ok _ _ this demo_write_index, of map_objs] show ?thesis
    by (simp add: demo_index_repo_def map_store_ok map_store_live demo_aead_ok demo_zstd_ok demo_codec_ok
        demo_blob_def new_blob_def)
qed

theorem write_index_roundtrip_witness:
  "read_index_blob demo_index_repo demo_index_state demo_index_id = Inr demo_blob"
proof -
  have "\<forall>plain. cbor_encode (ev_index (rp_env demo_index_repo)) demo_blob = Inr plain \<longrightarrow> length plain \<le> MAX_INDEX_PLAIN"
    by (simp add: demo_index_repo_def MAX_INDEX_PLAIN_def)
  from write_index_roundtrip [OF _ _ _ _ demo_nonce_ok _ _ this demo_write_index, of map_objs] show ?thesis
    by (simp add: demo_index_repo_def map_store_ok map_store_live demo_aead_ok demo_zstd_ok demo_codec_ok
        demo_blob_def new_blob_def)
qed

lemma read_listed_blobs_errors:
  "snd (read_listed_blobs r s os) = [] \<longleftrightarrow>
     (\<forall>ob \<in> set os. \<exists>i blob. object_id_from_key (rp_ext r) (oi_key ob) = Inr i \<and> read_index_blob r s i = Inr blob)"
  by (induction os) (auto simp: Let_def split: prod.splits sum.splits)

lemma read_listed_blobs_set:
  "(i, blob) \<in> set (fst (read_listed_blobs r s os)) \<longleftrightarrow>
     (\<exists>ob \<in> set os. object_id_from_key (rp_ext r) (oi_key ob) = Inr i \<and> read_index_blob r s i = Inr blob)"
  by (induction os) (auto simp: Let_def split: prod.splits sum.splits)

text \<open>The blobs a load takes into account, as a set: readable, and superseded by no readable one.\<close>

definition listed_blob :: "'s repository \<Rightarrow> 's \<Rightarrow> object_id \<Rightarrow> index_blob \<Rightarrow> bool" where
  "listed_blob r s i blob \<longleftrightarrow>
     (\<exists>listed. backend_list (rp_ops r) INDEXES_PREFIX s = Inr listed
        \<and> (\<exists>ob \<in> set listed. object_id_from_key (rp_ext r) (oi_key ob) = Inr i))
     \<and> read_index_blob r s i = Inr blob"

lemma split_superseded_iff:
  "(i, blob) \<in> set (ibs_effective (split_superseded all)) \<longleftrightarrow>
     (i, blob) \<in> set all \<and> (\<forall>j other. (j, other) \<in> set all \<longrightarrow> i \<notin> set (ib_supersedes other))"
  "i \<in> set (ibs_superseded (split_superseded all)) \<longleftrightarrow>
     (\<exists>blob. (i, blob) \<in> set all) \<and> (\<exists>j other. (j, other) \<in> set all \<and> i \<in> set (ib_supersedes other))"
proof -
  have s: "k \<in> set (concat (map (\<lambda>(i, b). ib_supersedes b) all)) \<longleftrightarrow>
      (\<exists>j other. (j, other) \<in> set all \<and> k \<in> set (ib_supersedes other))" for k by force
  show "(i, blob) \<in> set (ibs_effective (split_superseded all)) \<longleftrightarrow>
     (i, blob) \<in> set all \<and> (\<forall>j other. (j, other) \<in> set all \<longrightarrow> i \<notin> set (ib_supersedes other))"
    unfolding split_superseded_def Let_def using s by simp
  show "i \<in> set (ibs_superseded (split_superseded all)) \<longleftrightarrow>
     (\<exists>blob. (i, blob) \<in> set all) \<and> (\<exists>j other. (j, other) \<in> set all \<and> i \<in> set (ib_supersedes other))"
    unfolding split_superseded_def Let_def using s by (simp add: image_iff)
qed

lemma load_index_blobs_effective:
  assumes "load_index_blobs r s = Inr (b, errors)"
  shows "(i, blob) \<in> set (ibs_effective b) \<longleftrightarrow>
      listed_blob r s i blob \<and> (\<forall>j other. listed_blob r s j other \<longrightarrow> i \<notin> set (ib_supersedes other))"
    and "i \<in> set (ibs_superseded b) \<longleftrightarrow>
      (\<exists>blob. listed_blob r s i blob) \<and> (\<exists>j other. listed_blob r s j other \<and> i \<in> set (ib_supersedes other))"
proof -
  from assms obtain listed where l: "backend_list (rp_ops r) INDEXES_PREFIX s = Inr listed"
    and b: "b = split_superseded (fst (read_listed_blobs r s listed))"
    by (auto simp: load_index_blobs_def result_simps Let_def)
  let ?all = "fst (read_listed_blobs r s listed)"
  have mem: "(j, other) \<in> set ?all \<longleftrightarrow> listed_blob r s j other" for j other
    using read_listed_blobs_set [of j other r s listed] l by (auto simp: listed_blob_def)
  show "(i, blob) \<in> set (ibs_effective b) \<longleftrightarrow>
      listed_blob r s i blob \<and> (\<forall>j other. listed_blob r s j other \<longrightarrow> i \<notin> set (ib_supersedes other))"
    unfolding b split_superseded_iff mem ..
  show "i \<in> set (ibs_superseded b) \<longleftrightarrow>
      (\<exists>blob. listed_blob r s i blob) \<and> (\<exists>j other. listed_blob r s j other \<and> i \<in> set (ib_supersedes other))"
    unfolding b split_superseded_iff mem ..
qed

lemma load_index_meaning:
  assumes "load_index r s = Inr x" "store_ok (rp_ops r) objs"
  shows "(\<forall>k. objs s k \<noteq> None \<and> under_prefix INDEXES_PREFIX k \<longrightarrow>
       (\<exists>i blob. object_id_from_key (rp_ext r) k = Inr i \<and> read_index_blob r s i = Inr blob))
    \<and> (\<forall>c. index_get x c \<noteq> None \<longleftrightarrow>
       (\<exists>i blob p. listed_blob r s i blob
          \<and> (\<forall>j other. listed_blob r s j other \<longrightarrow> i \<notin> set (ib_supersedes other))
          \<and> p \<in> set (ib_packs blob) \<and> c \<in> pe_id ` set (ip_entries p)))"
proof -
  from assms(1) obtain b errors where be: "load_index_blobs r s = Inr (b, errors)"
    and c: "(case errors of [] \<Rightarrow> Inr (foldl add_pack new_index (effective_packs b))
       | e # es \<Rightarrow> Inl (index_load_error e)) = Inr x"
    by (auto simp: load_index_def load_index_lenient_def result_simps)
  from c have "errors = []" and x: "x = foldl add_pack new_index (effective_packs b)"
    by (cases errors; simp)+
  with be have b: "load_index_blobs r s = Inr (b, [])" by simp
  obtain listed where l: "backend_list (rp_ops r) INDEXES_PREFIX s = Inr listed"
    and e: "snd (read_listed_blobs r s listed) = []"
    using b by (auto simp: load_index_blobs_def result_simps Let_def)
  have keys: "oi_key ` set listed = {k. objs s k \<noteq> None \<and> under_prefix INDEXES_PREFIX k}"
    using backend_list_objs(2) [OF assms(2) l] .
  have all: "\<exists>i blob. object_id_from_key (rp_ext r) k = Inr i \<and> read_index_blob r s i = Inr blob"
    if "objs s k \<noteq> None" "under_prefix INDEXES_PREFIX k" for k
  proof -
    from that keys obtain ob where "ob \<in> set listed" "oi_key ob = k" by force
    with e read_listed_blobs_errors [of r s listed] show ?thesis by auto
  qed
  have "index_get x c \<noteq> None \<longleftrightarrow> c \<in> fst ` set (all_offers (effective_packs b))" for c
    using name_rule.fold_offer_None [of "[]" "all_offers (effective_packs b)" c]
    by (simp add: x index_get_no_base foldl_add_pack new_index_def)
  moreover have "c \<in> fst ` set (all_offers (effective_packs b)) \<longleftrightarrow>
      (\<exists>i blob p. (i, blob) \<in> set (ibs_effective b) \<and> p \<in> set (ib_packs blob) \<and> c \<in> pe_id ` set (ip_entries p))" for c
    unfolding fst_all_offers effective_packs_def by fastforce
  ultimately have "index_get x c \<noteq> None \<longleftrightarrow>
      (\<exists>i blob p. (i, blob) \<in> set (ibs_effective b) \<and> p \<in> set (ib_packs blob) \<and> c \<in> pe_id ` set (ip_entries p))" for c
    by (simp only: )
  then show ?thesis
    unfolding load_index_blobs_effective(1) [OF b] conj_assoc using all by simp
qed

text \<open>C16: loading the index is all or nothing and ignores replaced blobs: it succeeds only when
  every object under \<open>indexes/\<close> has a proper name and reads back intact, and then a chunk is
  found exactly when some blob that no other blob supersedes lists it.\<close>

theorem load_index_effective:
  assumes "load_index r s = Inr x" "store_ok (rp_ops r) objs"
  shows "(\<forall>k. objs s k \<noteq> None \<and> under_prefix INDEXES_PREFIX k \<longrightarrow>
       (\<exists>i blob. object_id_from_key (rp_ext r) k = Inr i \<and> read_index_blob r s i = Inr blob))
    \<and> (\<forall>c. index_get x c \<noteq> None \<longleftrightarrow>
       (\<exists>i blob p. listed_blob r s i blob
          \<and> (\<forall>j other. listed_blob r s j other \<longrightarrow> i \<notin> set (ib_supersedes other))
          \<and> p \<in> set (ib_packs blob) \<and> c \<in> pe_id ` set (ip_entries p)))"
  using load_index_meaning [OF assms] .

lemma demo_load_index: "load_index demo_index_repo demo_index_state = Inr new_index"
proof -
  let ?o = "\<lparr>oi_key = index_key demo_ext demo_index_id, oi_size = length demo_index_bytes, oi_modified = 0\<rparr>"
  have l: "backend_list map_store INDEXES_PREFIX demo_index_state = Inr [?o]"
    by (simp add: backend_list_def backend_path_def map_store_def demo_index_state_def under_prefix_def starts_with_def
        index_key_def map_meta_def from_meta_def timestamp_ok_def MIN_TIMESTAMP_def MAX_TIMESTAMP_def INDEXES_PREFIX_def)
  have "length (object_bytes demo_index_id) = 32" by (simp add: demo_index_id_def object_id_of_def)
  from object_id_from_prefixed [OF demo_hex_ok this, of INDEXES_PREFIX]
  have "object_id_from_key demo_ext (index_key demo_ext demo_index_id) = Inr demo_index_id"
    by (simp add: key_defs)
  with l demo_index_reads show ?thesis
    by (simp add: load_index_def load_index_lenient_def load_index_blobs_def split_superseded_def
        effective_packs_def demo_blob_def new_blob_def) (simp add: demo_index_repo_def demo_blob_def new_blob_def)
qed

theorem load_index_effective_witness:
  "\<exists>i blob. object_id_from_key demo_ext (index_key demo_ext demo_index_id) = Inr i
     \<and> read_index_blob demo_index_repo demo_index_state i = Inr blob"
proof -
  have "map_objs demo_index_state (index_key demo_ext demo_index_id) \<noteq> None
      \<and> under_prefix INDEXES_PREFIX (index_key demo_ext demo_index_id)"
    by (simp add: map_objs_def demo_index_state_def under_prefix_def starts_with_def index_key_def INDEXES_PREFIX_def)
  with load_index_effective [OF demo_load_index, of map_objs] show ?thesis
    by (auto simp: demo_index_repo_def map_store_ok)
qed

section \<open>Creating and opening\<close>

lemma store_config_Inr:
  "store_config env bs s = (Inr u, s') \<Longrightarrow> backend_put_if_absent_verified (ev_ops env) CONFIG bs s = (Inr (), s')"
  by (auto simp: store_config_def split: prod.splits sum.splits backend_error.splits)

text \<open>C15: a repository that was initialised opens again with the same password, with the same
  configuration and keys, and initialising never replaces an existing repository: when a
  configuration object is present the operation fails and changes nothing.\<close>

theorem init_then_open:
  assumes "store_ok (ev_ops env) objs" "store_live (ev_ops env) objs" "aead_ok (ev_ext env)"
    "codec_ok (ev_config env) UNIV" "codec_ok (ev_invariants env) UNIV" "rng_ok (ir_nonce rnd)"
    "\<forall>m. ir_master rnd = Inr m \<longrightarrow> length m = 32"
  shows "(\<forall>r s'. repo_init env is_local now rnd password opts s = (Inr r, s') \<longrightarrow>
       repo_open env password s' = Inr r)
    \<and> (objs s CONFIG \<noteq> None \<longrightarrow> (\<exists>e s'. repo_init env is_local now rnd password opts s = (Inl e, s')
         \<and> objs s' = objs s))"
proof (intro conjI allI impI)
  fix r s' assume "repo_init env is_local now rnd password opts s = (Inr r, s')"
  then obtain repo_id b slot master config bs where
      b: "b = \<lparr>kb_repo_id = repo_id, kb_chunker = io_chunker opts\<rparr>"
    and slot: "create_key_slot (ev_ext env) (ev_invariants env) (ir_master rnd) (ir_salt rnd) (ir_nonce rnd)
                 password ''default'' now (io_kdf_cost opts) b = Inr (slot, master)"
    and config: "config = init_config is_local now opts repo_id slot"
    and valid: "config_validate config = Inr ()"
    and enc: "cbor_encode (ev_config env) config = Inr bs"
    and put: "store_config env bs s = (Inr (), s')"
    and r: "r = \<lparr>rp_env = env, rp_config = config, rp_keys = keys_from_master (ev_ext env) master\<rparr>"
    by (auto simp: repo_init_def result_simps Let_def split: if_splits)
  from store_config_Inr [OF put] have g: "backend_get (ev_ops env) CONFIG s' = Inr bs"
    by (auto simp: backend_put_if_absent_verified_def result_simps split: if_splits)
  have dec: "cbor_decode_as (ev_config env) bs = Inr config" using codec_roundtrip [OF assms(4) _ enc] by simp
  have unl: "unlock_key_slot (ev_ext env) (ev_invariants env) password slot =
      Inr \<lparr>um_master = master, um_invariants = binding_invariants b\<rparr>"
    using open_created_slot [OF assms(3,6,7) assms(5) slot] by simp
  have key: "rc_key config = slot" "rc_repo_id config = repo_id" "rc_chunker config = io_chunker opts"
    "rc_min_reader config = FORMAT_VERSION"
    by (simp_all add: config init_config_def new_config_def FORMAT_VERSION_def)
  have "invariants_validate (binding_invariants b) = Inr ()"
    using valid key by (auto simp: invariants_validate_def binding_invariants_def new_invariants_def b
        config_validate_def result_simps split: if_splits)
  moreover have "check_matches (binding_invariants b) config = Inr ()"
    using key by (simp add: check_matches_def binding_invariants_def new_invariants_def b)
  ultimately show "repo_open env password s' = Inr r"
    using g dec valid unl key by (simp add: repo_open_def r)
next
  assume ex: "objs s CONFIG \<noteq> None"
  obtain q s' where q: "repo_init env is_local now rnd password opts s = (q, s')" by force
  have verified: "\<exists>e. p = Inl e \<and> objs t = objs s" if st: "store_config env bs s = (p, t)" for bs p t
  proof -
    obtain p1 t1 where p1: "backend_put_if_absent (ev_ops env) CONFIG bs s = (p1, t1)" by force
    have "p1 \<noteq> Inr ()" "objs t1 = objs s"
      using backend_put_if_absent_objs(1,3) [OF assms(1) p1] ex by auto
    then obtain e where "p1 = Inl e" by (cases p1) auto
    with p1 have "backend_put_if_absent_verified (ev_ops env) CONFIG bs s = (Inl e, t1)"
      by (simp add: backend_put_if_absent_verified_def io_then_def)
    with st \<open>objs t1 = objs s\<close> show ?thesis
      by (auto simp: store_config_def split: backend_error.splits)
  qed
  show "\<exists>e s'. repo_init env is_local now rnd password opts s = (Inl e, s') \<and> objs s' = objs s"
  proof (cases q)
    case (Inl e)
    have "objs s' = objs s"
      using q unfolding Inl repo_init_def
      by (auto simp: result_simps Let_def split: if_splits dest: verified)
    with q Inl show ?thesis by blast
  next
    case (Inr r)
    have False
      using q unfolding Inr repo_init_def
      by (auto simp: result_simps Let_def split: if_splits dest: verified)
    then show ?thesis ..
  qed
qed

definition demo_random :: init_random where
  "demo_random = \<lparr>ir_repo_id = Inr (replicate 16 1), ir_master = Inr (replicate 32 5),
     ir_salt = Inr (replicate 16 6), ir_nonce = demo_nonce\<rparr>"

definition demo_binding :: key_binding where
  "demo_binding = \<lparr>kb_repo_id = replicate 16 1, kb_chunker = chunker_params_default\<rparr>"

definition demo_config :: "key_slot \<Rightarrow> repo_config" where
  "demo_config slot = init_config True 0 init_options_default (replicate 16 1) slot"

definition demo_init_env :: "key_slot \<Rightarrow> map_state env" where
  "demo_init_env slot = demo_env [] [] [] [demo_config slot] [binding_invariants demo_binding]"

lemma demo_slot:
  "\<exists>slot. create_key_slot demo_ext (demo_codec [binding_invariants demo_binding]) (Inr (replicate 32 5))
      (Inr (replicate 16 6)) demo_nonce (ascii ''pw'') ''default'' 0 kdf_cost_default demo_binding
      = Inr (slot, replicate 32 5) \<and> kdf_params_validate (ks_kdf slot) = Inr ()"
  by (simp add: create_key_slot_def wrap_master_key_def random_bytes_def kdf_def
      kdf_cost_default_def MAX_KDF_M_COST_KIB_def MAX_KDF_T_COST_def MAX_KDF_P_COST_def Let_def)
    (simp add: demo_ext_def kdf_params_validate_def)

lemma demo_init:
  "\<exists>slot r s'. repo_init (demo_init_env slot) True 0 demo_random (ascii ''pw'') init_options_default ([], 0) = (Inr r, s')"
proof -
  obtain slot where slot: "create_key_slot demo_ext (demo_codec [binding_invariants demo_binding]) (Inr (replicate 32 5))
      (Inr (replicate 16 6)) demo_nonce (ascii ''pw'') ''default'' 0 kdf_cost_default demo_binding
      = Inr (slot, replicate 32 5)" and kdf: "kdf_params_validate (ks_kdf slot) = Inr ()"
    using demo_slot by blast
  have v: "config_validate (demo_config slot) = Inr ()"
    using kdf by (simp add: demo_config_def config_validate_def init_config_def new_config_def init_options_default_def
        chunker_params_validate_def chunker_params_default_def MIN_PACK_TARGET_SIZE_def MAX_PACK_TARGET_SIZE_def
        FORMAT_VERSION_def)
  obtain s' where put: "store_config (demo_init_env slot) [0] ([], 0) = (Inr (), s')"
    by (simp add: store_config_def backend_put_if_absent_verified_def backend_put_if_absent_def io_then_def io_lift_def
        io_read_def io_err_def backend_get_def backend_path_def map_store_def demo_init_env_def demo_env_def
        map_put_def map_objs_def)
  have b: "\<lparr>kb_repo_id = replicate 16 1, kb_chunker = io_chunker init_options_default\<rparr> = demo_binding"
    "io_kdf_cost init_options_default = kdf_cost_default"
    by (simp_all add: demo_binding_def init_options_default_def)
  have e: "ev_ext (demo_init_env slot) = demo_ext" "ev_config (demo_init_env slot) = demo_codec [demo_config slot]"
    "ev_invariants (demo_init_env slot) = demo_codec [binding_invariants demo_binding]"
    by (simp_all add: demo_init_env_def demo_env_def)
  have c: "init_config True 0 init_options_default (replicate 16 1) slot = demo_config slot"
    by (simp add: demo_config_def)
  have then_put: "io_then (store_config (demo_init_env slot) [0]) f ([], 0) = f () s'"
    for f :: "unit \<Rightarrow> (core_error, map_state, map_state repository) io"
    using put by (simp add: io_then_def)
  have "fits_i64 0" by (simp add: fits_i64_def)
  then have "\<exists>r t. repo_init (demo_init_env slot) True 0 demo_random (ascii ''pw'') init_options_default ([], 0) = (Inr r, t)"
    using slot v by (simp add: repo_init_def demo_random_def random_bytes_def io_then_lift Let_def b e c then_put)
      (simp add: io_lift_def)
  then show ?thesis by blast
qed

theorem init_then_open_witness:
  "\<exists>slot r s'. repo_init (demo_init_env slot) True 0 demo_random (ascii ''pw'') init_options_default ([], 0) = (Inr r, s')
     \<and> repo_open (demo_init_env slot) (ascii ''pw'') s' = Inr r"
proof -
  obtain slot r s' where i: "repo_init (demo_init_env slot) True 0 demo_random (ascii ''pw'') init_options_default ([], 0) = (Inr r, s')"
    using demo_init by blast
  have "store_ok (ev_ops (demo_init_env slot)) map_objs" "store_live (ev_ops (demo_init_env slot)) map_objs"
    "aead_ok (ev_ext (demo_init_env slot))" "codec_ok (ev_config (demo_init_env slot)) UNIV"
    "codec_ok (ev_invariants (demo_init_env slot)) UNIV" "rng_ok (ir_nonce demo_random)"
    "\<forall>m. ir_master demo_random = Inr m \<longrightarrow> length m = 32"
    by (simp_all add: demo_init_env_def demo_env_def map_store_ok map_store_live demo_aead_ok demo_codec_ok
        demo_random_def demo_nonce_ok)
  from init_then_open [OF this, of True 0 "ascii ''pw''" init_options_default] i show ?thesis by blast
qed

section \<open>Snapshots\<close>

lemma REPLICA_SUFFIX_ne [simp]: "REPLICA_SUFFIX \<noteq> []"
  by (simp add: REPLICA_SUFFIX_def)

lemma put_if_absent_keeps:
  assumes "store_ok ops objs" "backend_put_if_absent ops k bs s = (res, s')" "objs s j \<noteq> None"
  shows "objs s' j = objs s j"
  using backend_put_if_absent_objs(3) [OF assms(1,2)] assms(3) by auto

lemma put_replica_objs:
  assumes "store_ok (rp_ops r) objs" "put_replica r key bs s = (res, s')"
  shows "res = Inr () \<Longrightarrow> objs s' (key @ REPLICA_SUFFIX) \<noteq> None"
    and "objs s' = objs s \<or> objs s (key @ REPLICA_SUFFIX) = None
      \<and> (\<exists>t. objs s' = (objs s)(key @ REPLICA_SUFFIX \<mapsto> (bs, t)))"
proof -
  obtain q t where q: "backend_put_if_absent (rp_ops r) (key @ REPLICA_SUFFIX) bs s = (q, t)" by force
  note p = backend_put_if_absent_objs [OF assms(1) q]
  have t: "t = s'" and res: "res = Inr () \<Longrightarrow> q = Inr () \<or> (\<exists>k. q = Inl (ObjAlreadyExists k))"
    using assms(2) q by (auto simp: put_replica_def split: sum.splits backend_error.splits)
  show "objs s' = objs s \<or> objs s (key @ REPLICA_SUFFIX) = None
      \<and> (\<exists>t. objs s' = (objs s)(key @ REPLICA_SUFFIX \<mapsto> (bs, t)))"
    using p(3) t by blast
  assume "res = Inr ()"
  from res [OF this] show "objs s' (key @ REPLICA_SUFFIX) \<noteq> None"
  proof
    assume "q = Inr ()"
    with p(1) t show ?thesis by auto
  next
    assume "\<exists>k. q = Inl (ObjAlreadyExists k)"
    then obtain k where "q = Inl (ObjAlreadyExists k)" ..
    with p(2,3) t show ?thesis by auto
  qed
qed

lemma write_snapshot_cases:
  assumes "write_snapshot r os key snap s = (res, s')"
  obtains (early) e where "res = Inl e" "s' = s"
  | (replica) bs e where "0 < rc_replicas (rp_config r)" "put_replica r key bs s = (Inl e, s')" "res = Inl e"
  | (main) bs plain s1 q where "snapshot_validate snap = Inr ()"
      "cbor_encode (ev_snapshot (rp_env r)) snap = Inr plain"
      "seal_snapshot (rp_ext r) os (rp_keys r) key plain = Inr bs"
      "if 0 < rc_replicas (rp_config r) then put_replica r key bs s = (Inr (), s1) else s1 = s"
      "backend_put_if_absent (rp_ops r) key bs s1 = (q, s')" "res = map_err BackendE q"
proof -
  let ?b = "and_then (map_err (\<lambda>_. Corrupt key ''invalid snapshot'') (snapshot_validate snap)) (\<lambda>_.
           and_then (map_err FormatE (cbor_encode (ev_snapshot (rp_env r)) snap)) (\<lambda>plain.
             map_err CryptoE (seal_snapshot (rp_ext r) os (rp_keys r) key plain)))"
  show ?thesis
  proof (cases ?b)
    case (Inl e)
    with assms have "res = Inl e" "s' = s" by (simp_all add: write_snapshot_def io_then_def io_lift_def)
    then show ?thesis by (rule early)
  next
    case (Inr bs)
    then obtain plain where b: "snapshot_validate snap = Inr ()"
      "cbor_encode (ev_snapshot (rp_env r)) snap = Inr plain"
      "seal_snapshot (rp_ext r) os (rp_keys r) key plain = Inr bs" by (auto simp: result_simps)
    let ?m = "if 0 < rc_replicas (rp_config r) then put_replica r key bs else io_lift (Inr ())"
    have w: "(res, s') = io_then ?m (\<lambda>_. io_err BackendE (backend_put_if_absent (rp_ops r) key bs)) s"
      using assms Inr by (simp add: write_snapshot_def io_then_lift)
    obtain p s1 where m: "?m s = (p, s1)" by force
    show ?thesis
    proof (cases p)
      case (Inl e)
      with m w replica show ?thesis by (auto simp: io_then_def io_lift_def split: if_splits)
    next
      case (Inr u)
      obtain q s2 where q: "backend_put_if_absent (rp_ops r) key bs s1 = (q, s2)" by force
      with w m Inr have "res = map_err BackendE q" "s' = s2" by (simp_all add: io_then_def io_err_def)
      moreover have "if 0 < rc_replicas (rp_config r) then put_replica r key bs s = (Inr (), s1) else s1 = s"
        using m Inr by (simp add: io_lift_def split: if_splits)
      ultimately show ?thesis using main b q by blast
    qed
  qed
qed

text \<open>A repository that keeps one replica of every snapshot, and a first snapshot.\<close>

definition demo_snapshot :: snapshot where
  "demo_snapshot = \<lparr>sn_version = FORMAT_VERSION, sn_roots = [\<lparr>rt_path = [47], rt_tree = TreeId (replicate 32 1)\<rparr>],
     sn_time_ns = 0, sn_host = ''h'', sn_user = ''u'', sn_client_id = replicate 16 1, sn_parent = None,
     sn_stats = \<lparr>ss_files = 0, ss_dirs = 0, ss_symlinks = 0, ss_bytes = 0\<rparr>\<rparr>"

definition demo_snap_repo :: "map_state repository" where
  "demo_snap_repo = demo_repo 1 [] [demo_snapshot] []"

definition demo_snap_key :: string where
  "demo_snap_key = snapshot_key demo_ext (replicate 16 1) ''t''"

lemma demo_snapshot_valid: "snapshot_validate demo_snapshot = Inr ()"
  by (simp add: snapshot_validate_def demo_snapshot_def tree_is_zero_def TREE_ZERO_def zero_id_def)

lemma demo_write_snapshot:
  "\<exists>s'. write_snapshot demo_snap_repo demo_nonce demo_snap_key demo_snapshot ([], 0) = (Inr (), s')"
proof -
  have put: "fst (backend_put_if_absent map_store k bs s) = Inr ()" if "map_objs s k = None" for k bs s
    using that by (simp add: backend_put_if_absent_def backend_path_def map_store_def io_then_lift io_err_def map_put_def
        split: prod.splits)
  have rep: "\<exists>s1. put_replica demo_snap_repo demo_snap_key bs ([], 0) = (Inr (), s1) \<and> map_objs s1 demo_snap_key = None" for bs
    by (simp add: put_replica_def backend_put_if_absent_def backend_path_def map_store_def io_then_lift io_err_def map_put_def
        demo_snap_repo_def map_objs_def)
  obtain s1 where s1: "put_replica demo_snap_repo demo_snap_key (replicate 24 0 @ [0] @ demo_tag (rk_meta (rp_keys demo_snap_repo)) (ascii demo_snap_key)) ([], 0) = (Inr (), s1)"
    "map_objs s1 demo_snap_key = None" using rep by blast
  obtain s2 where "backend_put_if_absent map_store demo_snap_key
      (replicate 24 0 @ [0] @ demo_tag (rk_meta (rp_keys demo_snap_repo)) (ascii demo_snap_key)) s1 = (Inr (), s2)"
    using put [OF s1(2)] by (metis prod.collapse)
  with s1(1) show ?thesis
    using demo_snapshot_valid
    by (simp add: write_snapshot_def demo_snap_repo_def seal_snapshot_def io_then_lift)
      (simp add: io_then_def io_err_def)
qed

lemma write_snapshot_effect:
  assumes "store_ok (rp_ops r) objs" "write_snapshot r os key snap s = (res, s')"
  shows "(\<forall>k. objs s k \<noteq> None \<longrightarrow> objs s' k = objs s k)
    \<and> (\<forall>k. objs s' k \<noteq> objs s k \<longrightarrow> k = key \<or> k = key @ REPLICA_SUFFIX)
    \<and> (objs s key = None \<and> objs s' key \<noteq> None \<and> 0 < rc_replicas (rp_config r)
         \<longrightarrow> objs s' (key @ REPLICA_SUFFIX) \<noteq> None)
    \<and> (res = Inr () \<longrightarrow> objs s key = None \<and> objs s' key \<noteq> None)"
  using assms(2)
proof (cases rule: write_snapshot_cases)
  case (early e)
  then show ?thesis by auto
next
  case (replica bs e)
  from put_replica_objs(2) [OF assms(1) replica(2)] replica(3) show ?thesis by auto
next
  case (main bs plain s1 q)
  have s1: "objs s1 = objs s \<or> 0 < rc_replicas (rp_config r) \<and> objs s (key @ REPLICA_SUFFIX) = None
      \<and> (\<exists>t. objs s1 = (objs s)(key @ REPLICA_SUFFIX \<mapsto> (bs, t)))"
    using main(4) put_replica_objs(2) [OF assms(1)] by (auto split: if_splits)
  have rep: "0 < rc_replicas (rp_config r) \<Longrightarrow> objs s1 (key @ REPLICA_SUFFIX) \<noteq> None"
    using main(4) put_replica_objs(1) [OF assms(1)] by (auto split: if_splits)
  note p = backend_put_if_absent_objs [OF assms(1) main(5)]
  have key: "objs s1 key = objs s key" using s1 by auto
  have "res = Inr () \<longrightarrow> objs s key = None \<and> objs s' key \<noteq> None"
    using main(6) p(1) key by (auto simp: result_simps)
  moreover have "objs s' (key @ REPLICA_SUFFIX) = objs s1 (key @ REPLICA_SUFFIX)" using p(3) by auto
  moreover have "objs s' k = objs s k" if "objs s k \<noteq> None" for k
    using that s1 p(3) by (auto split: if_splits)
  moreover have "k = key \<or> k = key @ REPLICA_SUFFIX" if "objs s' k \<noteq> objs s k" for k
    using that s1 p(3) by (auto split: if_splits)
  ultimately show ?thesis using rep by metis
qed

text \<open>C12: the snapshot object is the commit point: whatever happens while a snapshot is written -
  success, an error at any step, a write that took effect although it reported a failure - every
  object that existed is unchanged, only the snapshot and its replica can appear, the snapshot
  appears only if the operation reached its last step, and with replicas configured only when the
  replica is already there.\<close>

theorem snapshot_commits_last:
  assumes "store_ok (rp_ops r) objs" "write_snapshot r os key snap s = (res, s')"
  shows "(\<forall>k. objs s k \<noteq> None \<longrightarrow> objs s' k = objs s k)
    \<and> (\<forall>k. objs s' k \<noteq> objs s k \<longrightarrow> k = key \<or> k = key @ REPLICA_SUFFIX)
    \<and> (objs s key = None \<and> objs s' key \<noteq> None \<and> 0 < rc_replicas (rp_config r)
         \<longrightarrow> objs s' (key @ REPLICA_SUFFIX) \<noteq> None)
    \<and> (res = Inr () \<longrightarrow> objs s key = None \<and> objs s' key \<noteq> None)"
  by (rule write_snapshot_effect [OF assms])

theorem snapshot_commits_last_witness:
  "\<exists>s'. write_snapshot demo_snap_repo demo_nonce demo_snap_key demo_snapshot ([], 0) = (Inr (), s')
     \<and> map_objs s' demo_snap_key \<noteq> None \<and> map_objs s' (demo_snap_key @ REPLICA_SUFFIX) \<noteq> None"
proof -
  obtain s' where w: "write_snapshot demo_snap_repo demo_nonce demo_snap_key demo_snapshot ([], 0) = (Inr (), s')"
    using demo_write_snapshot by blast
  have "0 < rc_replicas (rp_config demo_snap_repo)" "map_objs ([], 0) demo_snap_key = None"
    by (simp_all add: demo_snap_repo_def map_objs_def)
  with snapshot_commits_last [OF _ w, of map_objs] w show ?thesis
    by (auto simp: demo_snap_repo_def map_store_ok)
qed

lemma written_snapshot_reads:
  assumes "store_ok (rp_ops r) objs" "store_live (rp_ops r) objs" "aead_ok (rp_ext r)" "rng_ok os"
    "codec_ok (ev_snapshot (rp_env r)) {snap}"
    "write_snapshot r os key snap s = (Inr (), s')"
    "key = snapshot_key (rp_ext r) (sn_client_id snap) ts" "CHR ''/'' \<notin> set ts"
    "length (sn_client_id snap) = 16" "ev_parse_ts (rp_env r) ts = Inr (sn_time_ns snap)"
    "fits_i64 (sn_time_ns snap)"
  shows "read_snapshot r s' key = Inr snap"
  using assms(6)
proof (cases rule: write_snapshot_cases)
  case (main bs plain s1 q)
  have "q = Inr ()" using main(6) by (cases q) auto
  with backend_put_if_absent_objs(1) [OF assms(1) main(5)] obtain t where "objs s' key = Some (bs, t)"
    by auto
  then have g: "get_snapshot_bytes r s' key = Inr bs"
    using live_get(1) [OF assms(1,2)] by (simp add: get_snapshot_bytes_def)
  have ts: "timestamp_of key = ts"
    using last_segment_slash [OF assms(8), of "SNAPSHOTS_PREFIX @ ''/'' @ hex_encode (rp_ext r) (sn_client_id snap)"]
    by (simp add: timestamp_of_def assms(7) snapshot_key_def)
  have "open_snapshot (rp_ext r) (rp_keys r) key bs = Inr plain"
    using open_sealed_objects(2) [OF assms(3,4) main(3)] .
  moreover have "parse_snapshot (ev_snapshot (rp_env r)) plain = Inr snap"
    using codec_roundtrip [OF assms(5) _ main(2)] main(1) by (simp add: parse_snapshot_def)
  ultimately show ?thesis
    using g ts assms(7,9-11) by (simp add: read_snapshot_def parse_key_timestamp_def)
qed simp_all

text \<open>a snapshot that was committed reads back: under its key, which names the client and the
  time of the contents, the reader returns exactly the snapshot that was written.\<close>

theorem snapshot_roundtrip:
  assumes "store_ok (rp_ops r) objs" "store_live (rp_ops r) objs" "aead_ok (rp_ext r)" "rng_ok os"
    "codec_ok (ev_snapshot (rp_env r)) {snap}"
    "write_snapshot r os key snap s = (Inr (), s')"
    "key = snapshot_key (rp_ext r) (sn_client_id snap) ts" "CHR ''/'' \<notin> set ts"
    "length (sn_client_id snap) = 16" "ev_parse_ts (rp_env r) ts = Inr (sn_time_ns snap)"
    "fits_i64 (sn_time_ns snap)"
  shows "read_snapshot r s' key = Inr snap"
  by (rule written_snapshot_reads [OF assms])

lemma demo_ts_free: "CHR ''/'' \<notin> set ''t''" by simp

theorem snapshot_roundtrip_witness:
  "\<exists>s'. write_snapshot demo_snap_repo demo_nonce demo_snap_key demo_snapshot ([], 0) = (Inr (), s')
     \<and> read_snapshot demo_snap_repo s' demo_snap_key = Inr demo_snapshot"
proof -
  obtain s' where w: "write_snapshot demo_snap_repo demo_nonce demo_snap_key demo_snapshot ([], 0) = (Inr (), s')"
    using demo_write_snapshot by blast
  have "read_snapshot demo_snap_repo s' demo_snap_key = Inr demo_snapshot"
    by (rule snapshot_roundtrip [where objs = map_objs, OF _ _ _ demo_nonce_ok _ w _ demo_ts_free])
      (simp_all add: demo_snap_repo_def map_store_ok map_store_live demo_aead_ok demo_codec_ok demo_snap_key_def
        demo_snapshot_def fits_i64_def)
  with w show ?thesis by blast
qed

text \<open>reading a snapshot checks that the contents belong under the key: client and time inside
  the authenticated plaintext are those of the key, which is also the associated data.\<close>

theorem read_snapshot_belongs:
  assumes "read_snapshot r s key = Inr snap"
  shows "snapshot_validate snap = Inr () \<and> length (sn_client_id snap) = 16
    \<and> key = snapshot_key (rp_ext r) (sn_client_id snap) (timestamp_of key)
    \<and> ev_parse_ts (rp_env r) (timestamp_of key) = Inr (sn_time_ns snap)
    \<and> (\<exists>k bs. k \<in> {key, key @ REPLICA_SUFFIX} \<and> backend_get (rp_ops r) k s = Inr bs
        \<and> (\<exists>plain. open_snapshot (rp_ext r) (rp_keys r) key bs = Inr plain))"
proof -
  obtain bs where g: "get_snapshot_bytes r s key = Inr bs"
    using assms by (auto simp: read_snapshot_def result_simps)
  then have "\<exists>k. k \<in> {key, key @ REPLICA_SUFFIX} \<and> backend_get (rp_ops r) k s = Inr bs"
    by (auto simp: get_snapshot_bytes_def split: sum.splits backend_error.splits)
  with g assms show ?thesis
    by (auto simp: read_snapshot_def parse_snapshot_def parse_key_timestamp_def result_simps split: if_splits)
qed

theorem read_snapshot_belongs_witness:
  "\<exists>s'. read_snapshot demo_snap_repo s' demo_snap_key = Inr demo_snapshot
     \<and> demo_snap_key = snapshot_key demo_ext (replicate 16 1) (timestamp_of demo_snap_key)"
proof -
  obtain s' where w: "write_snapshot demo_snap_repo demo_nonce demo_snap_key demo_snapshot ([], 0) = (Inr (), s')"
    using demo_write_snapshot by blast
  have r: "read_snapshot demo_snap_repo s' demo_snap_key = Inr demo_snapshot"
    by (rule written_snapshot_reads [where objs = map_objs, OF _ _ _ demo_nonce_ok _ w _ demo_ts_free])
      (simp_all add: demo_snap_repo_def map_store_ok map_store_live demo_aead_ok demo_codec_ok demo_snap_key_def
        demo_snapshot_def fits_i64_def)
  have "sn_client_id demo_snapshot = replicate 16 1" "rp_ext demo_snap_repo = demo_ext"
    by (simp_all add: demo_snapshot_def demo_snap_repo_def)
  with read_snapshot_belongs [OF r] r show ?thesis by metis
qed

text \<open>a corrupt primary is final for a snapshot: when the primary object exists but does not
  open, reading fails with a corruption error even if its replica is intact. (For a tree the
  replica is tried in this case.)\<close>

theorem corrupt_snapshot_not_rescued:
  assumes "backend_get (rp_ops r) key s = Inr bad" "open_snapshot (rp_ext r) (rp_keys r) key bad = Inl e"
    "backend_get (rp_ops r) (key @ REPLICA_SUFFIX) s = Inr good"
  shows "\<exists>m. read_snapshot r s key = Inl (Corrupt key m)"
  using assms by (simp add: read_snapshot_def get_snapshot_bytes_def)

theorem corrupt_snapshot_not_rescued_witness:
  "\<exists>m. read_snapshot demo_snap_repo ([(demo_snap_key, [], 0), (demo_snap_key @ REPLICA_SUFFIX, [1], 0)], 0)
      demo_snap_key = Inl (Corrupt demo_snap_key m)"
  by (rule corrupt_snapshot_not_rescued [of _ _ _ "[]" "BadLength ''sealed object'' 40 0" "[1]"])
    (simp_all add: demo_snap_repo_def backend_get_def backend_path_def map_store_def map_objs_def
      open_snapshot_def open_sealed_def NONCE_LEN_def pack_consts)

end
