(* ===== verification/Snapshot_List.thy ===== *)
theory Snapshot_List
  imports Repo_Laws "HOL-Library.Char_ord"
begin

text \<open>
  \<open>crates/kist-core/src/snapshots.rs\<close>: listing the snapshots of a repository and turning what
  the user typed into the key of one. Text is a list of bytes and ordered by byte, as \<open>str\<close> is.
\<close>

record snapshot_info =
  si_key :: string
  si_snapshot :: snapshot

fun split_first :: "char \<Rightarrow> string \<Rightarrow> string" where
  \<comment> \<open>the first piece of \<open>split(c)\<close>\<close>
  "split_first c [] = []"
| "split_first c (x # xs) = (if x = c then [] else x # split_first c xs)"

definition client_hex :: "snapshot_info \<Rightarrow> string" where
  "client_hex i =
     (case strip_prefix SNAPSHOTS_PREFIX (si_key i) of
        None \<Rightarrow> []
      | Some s \<Rightarrow> (case strip_prefix ''/'' s of None \<Rightarrow> [] | Some s' \<Rightarrow> split_first (CHR ''/'') s'))"

definition list_snapshot_keys :: "'s repository \<Rightarrow> 's \<Rightarrow> core_error + string list" where
  "list_snapshot_keys r s =
     and_then (map_err BackendE (backend_list (rp_ops r) SNAPSHOTS_PREFIX s)) (\<lambda>listed.
       Inr (sort_key (\<lambda>k. (timestamp_of k, k))
         (filter (\<lambda>k. \<not> ends_with k REPLICA_SUFFIX) (map oi_key listed))))"

fun read_snapshots :: "'s repository \<Rightarrow> 's \<Rightarrow> string list \<Rightarrow> core_error + snapshot_info list" where
  "read_snapshots r s [] = Inr []"
| "read_snapshots r s (k # ks) =
     and_then (read_snapshot r s k) (\<lambda>snap.
       and_then (read_snapshots r s ks) (\<lambda>infos.
         Inr (\<lparr>si_key = k, si_snapshot = snap\<rparr> # infos)))"

definition list_snapshots :: "'s repository \<Rightarrow> 's \<Rightarrow> core_error + snapshot_info list" where
  "list_snapshots r s = and_then (list_snapshot_keys r s) (read_snapshots r s)"

definition snapshot_matches :: "string \<Rightarrow> string \<Rightarrow> bool" where
  "snapshot_matches spec k \<longleftrightarrow> ends_with k (''/'' @ spec) \<or> starts_with (timestamp_of k) spec"

definition resolve_snapshot :: "'s repository \<Rightarrow> 's \<Rightarrow> string \<Rightarrow> core_error + string" where
  "resolve_snapshot r s spec =
     and_then (list_snapshot_keys r s) (\<lambda>ks.
       if spec = ''latest'' then
         (if ks = [] then Inl (SnapshotNotFound spec) else Inr (last ks))
       else if spec \<in> set ks then Inr spec
       else (case filter (snapshot_matches spec) ks of
               [] \<Rightarrow> Inl (SnapshotNotFound spec)
             | [k] \<Rightarrow> Inr k
             | matches \<Rightarrow> Inl (AmbiguousSnapshot spec (length matches))))"

section \<open>What the list holds\<close>

definition snapshot_keys_of :: "objects \<Rightarrow> string set" where
  "snapshot_keys_of ob = {k. ob k \<noteq> None \<and> under_prefix SNAPSHOTS_PREFIX k \<and> \<not> ends_with k REPLICA_SUFFIX}"

lemma list_snapshot_keys_props:
  assumes "list_snapshot_keys r s = Inr ks" "store_ok (rp_ops r) objs"
  shows "set ks = snapshot_keys_of (objs s)" "distinct ks" "sorted (map (\<lambda>k. (timestamp_of k, k)) ks)"
proof -
  from assms(1) obtain listed where l: "backend_list (rp_ops r) SNAPSHOTS_PREFIX s = Inr listed"
    and ks: "ks = sort_key (\<lambda>k. (timestamp_of k, k)) (filter (\<lambda>k. \<not> ends_with k REPLICA_SUFFIX) (map oi_key listed))"
    by (auto simp: list_snapshot_keys_def result_simps)
  note p = backend_list_objs [OF assms(2) l]
  show "set ks = snapshot_keys_of (objs s)"
    using p(2) by (auto simp: ks snapshot_keys_of_def)
  show "distinct ks" using p(1) by (simp add: ks distinct_filter)
  show "sorted (map (\<lambda>k. (timestamp_of k, k)) ks)" by (simp add: ks)
qed

lemma read_snapshots_iff:
  "read_snapshots r s ks = Inr infos \<longleftrightarrow>
     map si_key infos = ks \<and> (\<forall>i \<in> set infos. read_snapshot r s (si_key i) = Inr (si_snapshot i))"
proof (induction ks arbitrary: infos)
  case Nil
  then show ?case by auto
next
  case (Cons k ks)
  show ?case
  proof (cases infos)
    case Nil
    then show ?thesis by (simp add: result_simps)
  next
    case (Cons i rest)
    then show ?thesis
      using Cons.IH by (cases i) (auto simp: result_simps)
  qed
qed

lemma sorted_last_greatest: "sorted (map f xs) \<Longrightarrow> x \<in> set xs \<Longrightarrow> f x \<le> f (last xs)"
  by (induction xs) (auto split: if_splits)

text \<open>what the user types selects at most one snapshot: an accepted specification names a
  snapshot that exists (never a replica); \<open>latest\<close> is the one with the greatest timestamp; a full
  key names itself; anything else matches exactly one snapshot, and a specification that matches
  several is refused with their number.\<close>

theorem resolve_snapshot_unique:
  assumes "store_ok (rp_ops r) objs" "list_snapshot_keys r s = Inr ks"
  shows "(\<forall>k. resolve_snapshot r s spec = Inr k \<longrightarrow> k \<in> snapshot_keys_of (objs s)
       \<and> (spec = ''latest'' \<longrightarrow> (\<forall>j \<in> snapshot_keys_of (objs s). timestamp_of j \<le> timestamp_of k))
       \<and> (spec \<noteq> ''latest'' \<longrightarrow> (if spec \<in> snapshot_keys_of (objs s) then k = spec
            else {j \<in> snapshot_keys_of (objs s). snapshot_matches spec j} = {k})))
    \<and> (\<forall>n. resolve_snapshot r s spec = Inl (AmbiguousSnapshot spec n) \<longrightarrow>
         n = card {j \<in> snapshot_keys_of (objs s). snapshot_matches spec j} \<and> 1 < n)"
proof -
  note p = list_snapshot_keys_props [OF assms(2,1)]
  let ?m = "filter (snapshot_matches spec) ks"
  have m: "{j \<in> snapshot_keys_of (objs s). snapshot_matches spec j} = set ?m" using p(1) by auto
  have card: "card (set ?m) = length ?m" by (rule distinct_card) (simp add: p(2))
  show ?thesis
  proof (cases "spec = ''latest''")
    case True
    have "\<forall>j \<in> set ks. timestamp_of j \<le> timestamp_of (last ks)"
      using sorted_last_greatest [OF p(3)] by fastforce
    with True p(1) show ?thesis by (auto simp: resolve_snapshot_def assms(2) split: if_splits)
  next
    case False
    show ?thesis
    proof (cases "spec \<in> set ks")
      case True
      with False p(1) show ?thesis by (auto simp: resolve_snapshot_def assms(2))
    next
      case notin: False
      consider "?m = []" | k where "?m = [k]" | a b l where "?m = a # b # l"
        by (metis list.exhaust)
      then show ?thesis
      proof cases
        case 1
        with False notin show ?thesis by (simp add: resolve_snapshot_def assms(2))
      next
        case 2
        then have "k \<in> set ?m" by simp
        then have "k \<in> set ks" by simp
        with 2 False notin m p(1) show ?thesis by (simp add: resolve_snapshot_def assms(2))
      next
        case 3
        with False notin m card show ?thesis by (simp add: resolve_snapshot_def assms(2))
      qed
    qed
  qed
qed

theorem resolve_snapshot_unique_witness:
  "let s = ([(demo_snap_key, [1], 0), (demo_snap_key @ REPLICA_SUFFIX, [1], 0)], 0)
   in resolve_snapshot demo_snap_repo s ''latest'' = Inr demo_snap_key
     \<and> demo_snap_key \<in> snapshot_keys_of (map_objs s)"
proof -
  let ?s = "([(demo_snap_key, [1], 0), (demo_snap_key @ REPLICA_SUFFIX, [1], 0)], 0) :: map_state"
  have l: "list_snapshot_keys demo_snap_repo ?s = Inr [demo_snap_key]"
    by (simp add: list_snapshot_keys_def backend_list_def backend_path_def demo_snap_repo_def map_store_def
        map_meta_def from_meta_def timestamp_ok_def MIN_TIMESTAMP_def MAX_TIMESTAMP_def under_prefix_def
        starts_with_def demo_snap_key_def snapshot_key_def SNAPSHOTS_PREFIX_def ends_with_def REPLICA_SUFFIX_def)
  then have r: "resolve_snapshot demo_snap_repo ?s ''latest'' = Inr demo_snap_key"
    by (simp add: resolve_snapshot_def)
  with resolve_snapshot_unique [OF _ l, of map_objs "''latest''"]
  show ?thesis unfolding Let_def by (simp add: demo_snap_repo_def map_store_ok)
qed

text \<open>A store that holds one readable snapshot and its replica.\<close>

definition demo_snap_bytes :: bytes where
  "demo_snap_bytes = replicate 24 0 @ [0] @ demo_tag (rk_meta (rp_keys demo_snap_repo)) (ascii demo_snap_key)"

definition demo_snap_state :: map_state where
  "demo_snap_state = ([(demo_snap_key, demo_snap_bytes, 0), (demo_snap_key @ REPLICA_SUFFIX, demo_snap_bytes, 0)], 0)"

lemma demo_snap_opens: "open_snapshot demo_ext (rp_keys demo_snap_repo) demo_snap_key demo_snap_bytes = Inr [0]"
  unfolding open_snapshot_def demo_snap_bytes_def
  by (rule open_seal(1) [OF demo_aead_ok demo_nonce_ok demo_seal])

lemma demo_snap_ts: "timestamp_of demo_snap_key = ''t''"
  using last_segment_slash [OF demo_ts_free, of "SNAPSHOTS_PREFIX @ ''/'' @ hex_of (replicate 16 1)"]
  by (simp add: timestamp_of_def demo_snap_key_def snapshot_key_def)

lemma demo_list_snapshots:
  "list_snapshots demo_snap_repo demo_snap_state = Inr [\<lparr>si_key = demo_snap_key, si_snapshot = demo_snapshot\<rparr>]"
proof -
  have l: "list_snapshot_keys demo_snap_repo demo_snap_state = Inr [demo_snap_key]"
    by (simp add: list_snapshot_keys_def backend_list_def backend_path_def demo_snap_repo_def map_store_def demo_snap_state_def
        map_meta_def from_meta_def timestamp_ok_def MIN_TIMESTAMP_def MAX_TIMESTAMP_def under_prefix_def
        starts_with_def demo_snap_key_def snapshot_key_def SNAPSHOTS_PREFIX_def ends_with_def REPLICA_SUFFIX_def)
  have g: "backend_get map_store demo_snap_key demo_snap_state = Inr demo_snap_bytes"
    by (rule live_get(1) [OF map_store_ok map_store_live, where tm = 0]) (simp add: map_objs_def demo_snap_state_def)
  have p: "parse_snapshot (demo_codec [demo_snapshot]) [0] = Inr demo_snapshot"
    using demo_snapshot_valid by (simp add: parse_snapshot_def)
  have k: "snapshot_key demo_ext (sn_client_id demo_snapshot) ''t'' = demo_snap_key" "length (sn_client_id demo_snapshot) = 16"
    "sn_time_ns demo_snapshot = 0" by (simp_all add: demo_snapshot_def demo_snap_key_def)
  have e: "rp_ops demo_snap_repo = map_store" "rp_ext demo_snap_repo = demo_ext" "ev_parse_ts (rp_env demo_snap_repo) ''t'' = Inr 0"
    "ev_snapshot (rp_env demo_snap_repo) = demo_codec [demo_snapshot]"
    by (simp_all add: demo_snap_repo_def)
  have "read_snapshot demo_snap_repo demo_snap_state demo_snap_key = Inr demo_snapshot"
    unfolding read_snapshot_def get_snapshot_bytes_def e g
    using demo_snap_opens p k e by (simp add: demo_snap_ts parse_key_timestamp_def fits_i64_def)
  with l show ?thesis by (simp add: list_snapshots_def)
qed

end
