(* ===== verification/Retention.thy ===== *)
theory Retention
  imports Snapshot_List
begin

text \<open>
  \<open>crates/kist-core/src/forget.rs\<close>: which snapshots a retention policy keeps, and the deletion of
  the others. A time is an \<open>OffsetDateTime\<close> in UTC, counted in nanoseconds; the calendar of the
  \<open>time\<close> crate is a parameter. Subtracting a duration from a time panics outside the range of
  years the crate supports, so the operations that do it return \<open>None\<close> for a panic.
\<close>

section \<open>Formatting\<close>

fun dec_nat :: "nat \<Rightarrow> string" where
  "dec_nat n = (if n < 10 then [char_of (48 + n)] else dec_nat (n div 10) @ [char_of (48 + n mod 10)])"

declare dec_nat.simps [simp del]

definition dec_int :: "int \<Rightarrow> string" where
  "dec_int i = (if i < 0 then CHR ''-'' # dec_nat (nat (- i)) else dec_nat (nat i))"

definition zero_padded :: "nat \<Rightarrow> nat \<Rightarrow> string" where
  "zero_padded w n = replicate (w - length (dec_nat n)) (CHR ''0'') @ dec_nat n"

record calendar =
  cal_year :: "int \<Rightarrow> int"
  cal_ordinal :: "int \<Rightarrow> nat"
  cal_hour :: "int \<Rightarrow> nat"
  cal_month :: "int \<Rightarrow> nat"
  cal_iso_week :: "int \<Rightarrow> int \<times> nat"

definition hour_key :: "calendar \<Rightarrow> int \<Rightarrow> string" where
  "hour_key cal t = dec_int (cal_year cal t) @ ''-'' @ zero_padded 3 (cal_ordinal cal t)
     @ ''-'' @ zero_padded 2 (cal_hour cal t)"

definition day_key :: "calendar \<Rightarrow> int \<Rightarrow> string" where
  "day_key cal t = dec_int (cal_year cal t) @ ''-'' @ zero_padded 3 (cal_ordinal cal t)"

definition week_key :: "calendar \<Rightarrow> int \<Rightarrow> string" where
  "week_key cal t = (case cal_iso_week cal t of (year, week) \<Rightarrow> dec_int year @ ''-W'' @ zero_padded 2 week)"

definition month_key :: "calendar \<Rightarrow> int \<Rightarrow> string" where
  "month_key cal t = dec_int (cal_year cal t) @ ''-'' @ zero_padded 2 (cal_month cal t)"

definition year_key :: "calendar \<Rightarrow> int \<Rightarrow> string" where
  "year_key cal t = dec_int (cal_year cal t)"

text \<open>The formats lose nothing: two times have the same key exactly when they are in the same period.\<close>

definition dec_value :: "string \<Rightarrow> nat" where
  "dec_value = foldl (\<lambda>v c. 10 * v + (of_char c - 48)) 0"

lemma dec_value_nat: "dec_value (replicate k (CHR ''0'') @ dec_nat n) = n"
proof -
  have "foldl (\<lambda>v c. 10 * v + (of_char c - 48)) 0 (replicate k (CHR ''0'')) = (0 :: nat)" by (induction k) simp_all
  moreover have "foldl (\<lambda>v c. 10 * v + (of_char c - 48)) (0 :: nat) (dec_nat n) = n"
  proof (induction n rule: dec_nat.induct)
    case (1 n)
    have digit: "of_char (char_of (48 + d) :: char) - 48 = d" if "d < 10" for d :: nat using that by simp
    show ?case
    proof (cases "n < 10")
      case True
      then show ?thesis using digit [OF True] by (simp only: dec_nat.simps [of n] if_True foldl.simps mult_0_right add_0)
    next
      case False
      have "n mod 10 < 10" by simp
      note last = digit [OF this]
      have "foldl (\<lambda>v c. 10 * v + (of_char c - 48)) 0 (dec_nat n) = 10 * (n div 10) + n mod 10"
        by (simp only: dec_nat.simps [of n] if_not_P [OF False] foldl_append foldl.simps 1 [OF False] last)
      then show ?thesis by (simp only: mult_div_mod_eq)
    qed
  qed
  ultimately show ?thesis by (simp add: dec_value_def)
qed

lemma dec_nat_inj [simp]: "dec_nat m = dec_nat n \<longleftrightarrow> m = n"
  by (metis append_Nil dec_value_nat replicate_0)

lemma zero_padded_inj [simp]: "zero_padded w m = zero_padded w n \<longleftrightarrow> m = n"
  unfolding zero_padded_def using dec_value_nat by metis

lemma dec_nat_digits: "c \<in> set (dec_nat n) \<Longrightarrow> c \<noteq> CHR ''-''"
proof (induction n rule: dec_nat.induct)
  case (1 n)
  have digit: "CHR ''-'' \<noteq> char_of (48 + d)" if "d < 10" for d :: nat
  proof
    assume "CHR ''-'' = char_of (48 + d)"
    then have "(of_char (CHR ''-'') :: nat) = of_char (char_of (48 + d))" by (rule arg_cong)
    with that show False by simp
  qed
  have "c \<noteq> CHR ''-''" if "c = char_of (48 + n mod 10)" using digit [of "n mod 10"] that by simp
  moreover have "c \<noteq> CHR ''-''" if "n < 10" "c = char_of (48 + n)" using digit [of n] that by simp
  ultimately show ?case using 1 by (cases "n < 10") (auto simp: dec_nat.simps [of n])
qed

lemma zero_padded_digits [simp]: "CHR ''-'' \<notin> set (zero_padded w n)"
  unfolding zero_padded_def using dec_nat_digits by fastforce

lemma dec_int_inj [simp]: "dec_int a = dec_int b \<longleftrightarrow> a = b"
proof -
  have sign: "dec_nat n \<noteq> CHR ''-'' # w" for n w using dec_nat_digits [of "CHR ''-''" n] by auto
  show ?thesis by (auto simp: dec_int_def sign sign [symmetric])
qed

lemma first_separator: "x \<notin> set u \<Longrightarrow> x \<notin> set v \<Longrightarrow> u @ x # a = v @ x # b \<longleftrightarrow> u = v \<and> a = b"
  by (induction u arbitrary: v) (case_tac v; auto)+

lemma last_separator:
  assumes "x \<notin> set u" "x \<notin> set v"
  shows "a @ x # u = b @ x # v \<longleftrightarrow> a = b \<and> u = v"
proof -
  have "a @ x # u = b @ x # v \<longleftrightarrow> rev u @ x # rev a = rev v @ x # rev b"
    using rev_is_rev_conv [of "a @ x # u" "b @ x # v"] by simp
  also have "\<dots> \<longleftrightarrow> u = v \<and> a = b" using first_separator [of x "rev u" "rev v"] assms by auto
  finally show ?thesis by auto
qed

definition hour_period :: "calendar \<Rightarrow> int \<Rightarrow> int \<times> nat \<times> nat" where
  "hour_period cal t = (cal_year cal t, cal_ordinal cal t, cal_hour cal t)"

definition day_period :: "calendar \<Rightarrow> int \<Rightarrow> int \<times> nat" where
  "day_period cal t = (cal_year cal t, cal_ordinal cal t)"

definition month_period :: "calendar \<Rightarrow> int \<Rightarrow> int \<times> nat" where
  "month_period cal t = (cal_year cal t, cal_month cal t)"

lemma period_keys:
  "hour_key cal a = hour_key cal b \<longleftrightarrow> hour_period cal a = hour_period cal b"
  "day_key cal a = day_key cal b \<longleftrightarrow> day_period cal a = day_period cal b"
  "week_key cal a = week_key cal b \<longleftrightarrow> cal_iso_week cal a = cal_iso_week cal b"
  "month_key cal a = month_key cal b \<longleftrightarrow> month_period cal a = month_period cal b"
  "year_key cal a = year_key cal b \<longleftrightarrow> cal_year cal a = cal_year cal b"
proof -
  have hour: "hour_key cal t = day_key cal t @ CHR ''-'' # zero_padded 2 (cal_hour cal t)" for t
    by (simp add: hour_key_def day_key_def)
  show day: "day_key cal a = day_key cal b \<longleftrightarrow> day_period cal a = day_period cal b" for a b
    by (simp add: day_key_def day_period_def last_separator)
  show "hour_key cal a = hour_key cal b \<longleftrightarrow> hour_period cal a = hour_period cal b"
    by (auto simp: hour last_separator day day_period_def hour_period_def)
  show "week_key cal a = week_key cal b \<longleftrightarrow> cal_iso_week cal a = cal_iso_week cal b"
    by (simp add: week_key_def last_separator split: prod.split)
  show "month_key cal a = month_key cal b \<longleftrightarrow> month_period cal a = month_period cal b"
    by (simp add: month_key_def month_period_def last_separator)
  show "year_key cal a = year_key cal b \<longleftrightarrow> cal_year cal a = cal_year cal b" by (simp add: year_key_def)
qed

definition NANOS :: int where "NANOS = 1000000000"

definition nanos_ok :: "int \<Rightarrow> bool" where
  \<comment> \<open>the range of \<open>OffsetDateTime\<close>\<close>
  "nanos_ok t \<longleftrightarrow> timestamp_ok (t div NANOS)"

definition time_sub :: "int \<Rightarrow> nat \<Rightarrow> int option" where
  "time_sub t d = (if nanos_ok (t - int d) then Some (t - int d) else None)"

section \<open>The policy\<close>

record retention_policy =
  keep_last :: "nat option"
  keep_hourly :: "nat option"
  keep_daily :: "nat option"
  keep_weekly :: "nat option"
  keep_monthly :: "nat option"
  keep_yearly :: "nat option"
  keep_within :: "nat option" \<comment> \<open>nanoseconds\<close>

definition policy_default :: retention_policy where
  "policy_default = \<lparr>keep_last = None, keep_hourly = None, keep_daily = None, keep_weekly = None,
     keep_monthly = None, keep_yearly = None, keep_within = None\<rparr>"

definition policy_is_empty :: "retention_policy \<Rightarrow> bool" where
  "policy_is_empty p \<longleftrightarrow> p = policy_default"

definition policy_counts :: "retention_policy \<Rightarrow> (string \<times> nat option) list" where
  "policy_counts p = [(''--keep-last'', keep_last p), (''--keep-hourly'', keep_hourly p),
     (''--keep-daily'', keep_daily p), (''--keep-weekly'', keep_weekly p),
     (''--keep-monthly'', keep_monthly p), (''--keep-yearly'', keep_yearly p)]"

definition policy_validate :: "retention_policy \<Rightarrow> core_error + unit" where
  "policy_validate p =
     (case find (\<lambda>(name, n). n = Some 0) (policy_counts p) of
        Some (name, n) \<Rightarrow> Inl (Usage (name @ '' 0 would remove every snapshot in a group; refusing''))
      | None \<Rightarrow>
          (if keep_within p = Some 0
           then Inl (Usage ''--keep-within 0 would remove every snapshot in a group; refusing'')
           else Inr ()))"

record candidate =
  cd_key :: string
  cd_time :: int

record bucket =
  bk_reason :: string
  bk_remaining :: nat
  bk_last :: "string option"
  bk_key_of :: "int \<Rightarrow> string"

definition policy_rules :: "calendar \<Rightarrow> retention_policy \<Rightarrow> (string \<times> nat option \<times> (int \<Rightarrow> string)) list" where
  "policy_rules cal p =
     [(''hourly'', keep_hourly p, hour_key cal), (''daily'', keep_daily p, day_key cal),
      (''weekly'', keep_weekly p, week_key cal), (''monthly'', keep_monthly p, month_key cal),
      (''yearly'', keep_yearly p, year_key cal)]"

fun rule_bucket :: "string \<times> nat option \<times> (int \<Rightarrow> string) \<Rightarrow> bucket option" where
  "rule_bucket (reason, n, key_of) =
     map_option (\<lambda>m. \<lparr>bk_reason = reason, bk_remaining = m, bk_last = None, bk_key_of = key_of\<rparr>) n"

definition policy_buckets :: "calendar \<Rightarrow> retention_policy \<Rightarrow> bucket list" where
  "policy_buckets cal p = List.map_filter rule_bucket (policy_rules cal p)"

definition visit_bucket :: "int \<Rightarrow> bucket \<Rightarrow> bucket \<times> string list" where
  "visit_bucket t b =
     (if bk_remaining b = 0 then (b, [])
      else let k = bk_key_of b t
        in if bk_last b \<noteq> Some k
           then (b\<lparr>bk_last := Some k, bk_remaining := bk_remaining b - 1\<rparr>, [bk_reason b])
           else (b, []))"

definition within_reason :: "nat option \<Rightarrow> int \<Rightarrow> int \<Rightarrow> string list option" where
  "within_reason within latest t =
     (case within of
        None \<Rightarrow> Some []
      | Some w \<Rightarrow> map_option (\<lambda>bound. if t \<ge> bound then [''within''] else []) (time_sub latest w))"

fun policy_loop :: "nat option \<Rightarrow> int \<Rightarrow> nat \<Rightarrow> bucket list \<Rightarrow> candidate list \<Rightarrow> (string \<times> string list) list option" where
  "policy_loop within latest last_remaining buckets [] = Some []"
| "policy_loop within latest last_remaining buckets (c # cs) =
     (case within_reason within latest (cd_time c) of
        None \<Rightarrow> None
      | Some w \<Rightarrow>
          (let visited = map (visit_bucket (cd_time c)) buckets
           in map_option (\<lambda>out. (cd_key c, (if last_remaining > 0 then [''last''] else []) @ w
                  @ concat (map snd visited)) # out)
                (policy_loop within latest (last_remaining - 1) (map fst visited) cs)))"

definition newest_first :: "candidate list \<Rightarrow> candidate list" where
  \<comment> \<open>descending by time, then by key\<close>
  "newest_first cs = rev (sort_key (\<lambda>c. (cd_time c, cd_key c)) cs)"

definition apply_policy :: "calendar \<Rightarrow> candidate list \<Rightarrow> retention_policy \<Rightarrow> (string \<times> string list) list option" where
  "apply_policy cal cs p =
     (case newest_first cs of
        [] \<Rightarrow> Some []
      | c # rest \<Rightarrow>
          policy_loop (keep_within p) (cd_time c) (case keep_last p of None \<Rightarrow> 0 | Some n \<Rightarrow> n)
            (policy_buckets cal p) (c # rest))"

section \<open>What the policy keeps\<close>

text \<open>The reference: a rule keeps the newest snapshot of a period, for the newest \<open>n\<close> periods that
  hold a snapshot. \<open>ts\<close> are the times, newest first.\<close>

definition keeps :: "nat \<Rightarrow> (int \<Rightarrow> 'p) \<Rightarrow> int list \<Rightarrow> nat \<Rightarrow> bool" where
  "keeps n key ts i \<longleftrightarrow> (\<forall>j < i. key (ts ! j) \<noteq> key (ts ! i)) \<and> card (key ` set (take i ts)) < n"

definition rule_reason :: "int list \<Rightarrow> nat \<Rightarrow> string \<Rightarrow> nat option \<Rightarrow> (int \<Rightarrow> 'p) \<Rightarrow> string list" where
  "rule_reason ts i reason n period = (if \<exists>m. n = Some m \<and> keeps m period ts i then [reason] else [])"

definition policy_reasons :: "calendar \<Rightarrow> retention_policy \<Rightarrow> int list \<Rightarrow> nat \<Rightarrow> string list" where
  "policy_reasons cal p ts i =
     (if \<exists>n. keep_last p = Some n \<and> i < n then [''last''] else [])
     @ (if \<exists>w. keep_within p = Some w \<and> ts ! i \<ge> ts ! 0 - int w then [''within''] else [])
     @ rule_reason ts i ''hourly'' (keep_hourly p) (hour_period cal)
     @ rule_reason ts i ''daily'' (keep_daily p) (day_period cal)
     @ rule_reason ts i ''weekly'' (keep_weekly p) (cal_iso_week cal)
     @ rule_reason ts i ''monthly'' (keep_monthly p) (month_period cal)
     @ rule_reason ts i ''yearly'' (keep_yearly p) (cal_year cal)"

text \<open>The periods of a calendar are intervals of time: what is assumed of the \<open>time\<close> crate.\<close>

definition intervals :: "(int \<Rightarrow> 'p) \<Rightarrow> bool" where
  "intervals key \<longleftrightarrow> (\<forall>a b c. a \<le> b \<longrightarrow> b \<le> c \<longrightarrow> key a = key c \<longrightarrow> key b = key a)"

definition calendar_ok :: "calendar \<Rightarrow> bool" where
  "calendar_ok cal \<longleftrightarrow> intervals (hour_period cal) \<and> intervals (day_period cal) \<and> intervals (cal_iso_week cal)
     \<and> intervals (month_period cal) \<and> intervals (cal_year cal)"

lemma keeps_period:
  assumes "\<And>a b. key a = key b \<longleftrightarrow> period a = period b"
  shows "keeps n key ts i = keeps n period ts i"
proof -
  have "bij_betw (\<lambda>k. period (SOME t. t \<in> set (take i ts) \<and> key t = k)) (key ` set (take i ts)) (period ` set (take i ts))"
  proof -
    have "period (SOME t. t \<in> set (take i ts) \<and> key t = key u) = period u" if "u \<in> set (take i ts)" for u
      using someI [of "\<lambda>t. t \<in> set (take i ts) \<and> key t = key u" u] that assms by auto
    then show ?thesis by (auto simp: bij_betw_def inj_on_def image_image assms)
  qed
  then have "card (key ` set (take i ts)) = card (period ` set (take i ts))" by (rule bij_betw_same_card)
  then show ?thesis by (simp add: keeps_def assms)
qed

lemma rule_reason_period:
  assumes "\<And>a b. key a = key b \<longleftrightarrow> period a = period b"
  shows "rule_reason ts i reason n key = rule_reason ts i reason n period"
  by (simp only: rule_reason_def keeps_period [of key period, OF assms])

lemma same_intervals:
  assumes "intervals period" "\<And>a b. key a = key b \<longleftrightarrow> period a = period b"
  shows "intervals key"
  using assms(1) unfolding intervals_def assms(2) .

lemma calendar_keys:
  assumes "calendar_ok cal"
  shows "intervals (hour_key cal)" "intervals (day_key cal)" "intervals (week_key cal)" "intervals (month_key cal)"
    "intervals (year_key cal)"
proof -
  from assms have "intervals (hour_period cal)" "intervals (day_period cal)" "intervals (cal_iso_week cal)"
    "intervals (month_period cal)" "intervals (cal_year cal)" by (simp_all add: calendar_ok_def)
  note I = this
  show "intervals (hour_key cal)" using I(1) by (rule same_intervals) (rule period_keys)
  show "intervals (day_key cal)" using I(2) by (rule same_intervals) (rule period_keys)
  show "intervals (week_key cal)" using I(3) by (rule same_intervals) (rule period_keys)
  show "intervals (month_key cal)" using I(4) by (rule same_intervals) (rule period_keys)
  show "intervals (year_key cal)" using I(5) by (rule same_intervals) (rule period_keys)
qed

lemma policy_rules_reasons:
  "concat (map (\<lambda>(reason, n, key). rule_reason ts i reason n key) (policy_rules cal p)) =
     rule_reason ts i ''hourly'' (keep_hourly p) (hour_period cal)
     @ rule_reason ts i ''daily'' (keep_daily p) (day_period cal)
     @ rule_reason ts i ''weekly'' (keep_weekly p) (cal_iso_week cal)
     @ rule_reason ts i ''monthly'' (keep_monthly p) (month_period cal)
     @ rule_reason ts i ''yearly'' (keep_yearly p) (cal_year cal)"
proof -
  have "rule_reason ts i reason n (hour_key cal) = rule_reason ts i reason n (hour_period cal)" for reason n
    by (rule rule_reason_period) (rule period_keys)
  moreover have "rule_reason ts i reason n (day_key cal) = rule_reason ts i reason n (day_period cal)" for reason n
    by (rule rule_reason_period) (rule period_keys)
  moreover have "rule_reason ts i reason n (week_key cal) = rule_reason ts i reason n (cal_iso_week cal)" for reason n
    by (rule rule_reason_period) (rule period_keys)
  moreover have "rule_reason ts i reason n (month_key cal) = rule_reason ts i reason n (month_period cal)" for reason n
    by (rule rule_reason_period) (rule period_keys)
  moreover have "rule_reason ts i reason n (year_key cal) = rule_reason ts i reason n (cal_year cal)" for reason n
    by (rule rule_reason_period) (rule period_keys)
  ultimately show ?thesis
    by (simp only: policy_rules_def list.map concat.simps prod.case append_Nil2)
qed

text \<open>One bucket on its own: which of the visited times it keeps.\<close>

fun bucket_trace :: "bucket \<Rightarrow> int list \<Rightarrow> bool list" where
  "bucket_trace b [] = []"
| "bucket_trace b (t # ts) = (snd (visit_bucket t b) \<noteq> []) # bucket_trace (fst (visit_bucket t b)) ts"

definition starts :: "string option \<Rightarrow> (int \<Rightarrow> string) \<Rightarrow> int list \<Rightarrow> nat \<Rightarrow> bool" where
  "starts l key ts i \<longleftrightarrow> Some (key (ts ! i)) \<noteq> (if i = 0 then l else Some (key (ts ! (i - 1))))"

lemma length_bucket_trace [simp]: "length (bucket_trace b ts) = length ts"
  by (induction ts arbitrary: b) auto

lemma starts_Cons [simp]:
  "starts l key (t # ts) 0 \<longleftrightarrow> l \<noteq> Some (key t)"
  "starts l key (t # ts) (Suc i) = starts (Some (key t)) key ts i"
  by (auto simp: starts_def nth_Cons split: nat.splits)

lemma starts_count_Cons:
  "card {j. j < Suc i \<and> starts l key (t # ts) j} =
     (if l \<noteq> Some (key t) then 1 else 0) + card {j. j < i \<and> starts (Some (key t)) key ts j}"
proof -
  have "{j. j < Suc i \<and> starts l key (t # ts) j} =
      (if l \<noteq> Some (key t) then {0} else {}) \<union> Suc ` {j. j < i \<and> starts (Some (key t)) key ts j}"
    (is "?A = ?B")
  proof (rule set_eqI)
    fix j show "j \<in> ?A \<longleftrightarrow> j \<in> ?B" by (cases j) auto
  qed
  moreover have "card (Suc ` {j. j < i \<and> starts (Some (key t)) key ts j}) = card {j. j < i \<and> starts (Some (key t)) key ts j}"
    by (simp add: card_image)
  ultimately show ?thesis by simp
qed

lemma bucket_trace_starts:
  "i < length ts \<Longrightarrow> bucket_trace b ts ! i \<longleftrightarrow>
     starts (bk_last b) (bk_key_of b) ts i
     \<and> card {j. j < i \<and> starts (bk_last b) (bk_key_of b) ts j} < bk_remaining b"
proof (induction ts arbitrary: b i)
  case Nil
  then show ?case by simp
next
  case (Cons t ts)
  show ?case
  proof (cases i)
    case 0
    then show ?thesis by (simp add: visit_bucket_def Let_def)
  next
    case (Suc i')
    let ?b = "fst (visit_bucket t b)"
    have IH: "bucket_trace ?b ts ! i' \<longleftrightarrow> starts (bk_last ?b) (bk_key_of ?b) ts i'
     \<and> card {j. j < i' \<and> starts (bk_last ?b) (bk_key_of ?b) ts j} < bk_remaining ?b"
      using Cons Suc by simp
    consider "bk_remaining b = 0" | "0 < bk_remaining b" "bk_last b = Some (bk_key_of b t)"
      | "0 < bk_remaining b" "bk_last b \<noteq> Some (bk_key_of b t)" by blast
    then show ?thesis
    proof cases
      case 1
      with IH Suc show ?thesis by (simp add: visit_bucket_def)
    next
      case 2
      with IH Suc show ?thesis by (simp add: visit_bucket_def starts_count_Cons del: Collect_conj_eq)
    next
      case 3
      with IH Suc show ?thesis
        by (simp add: visit_bucket_def starts_count_Cons less_diff_conv del: Collect_conj_eq)
    qed
  qed
qed

lemma sorted_rev_nth: "sorted (rev xs) \<Longrightarrow> i \<le> j \<Longrightarrow> j < length xs \<Longrightarrow> xs ! j \<le> xs ! i"
  using sorted_nth_mono [of "rev xs" "length xs - 1 - j" "length xs - 1 - i"] by (simp add: rev_nth)

lemma starts_first:
  assumes "sorted (rev ts)" "intervals key" "i < length ts"
  shows "starts None key ts i \<longleftrightarrow> (\<forall>j < i. key (ts ! j) \<noteq> key (ts ! i))"
proof (cases i)
  case 0
  then show ?thesis by (simp add: starts_def)
next
  case (Suc k)
  have "key (ts ! k) = key (ts ! i)" if "j < i" "key (ts ! j) = key (ts ! i)" for j
  proof -
    have "ts ! i \<le> ts ! k" "ts ! k \<le> ts ! j"
      using assms(1,3) Suc that(1) by (auto intro: sorted_rev_nth)
    with assms(2) that(2) show ?thesis unfolding intervals_def by metis
  qed
  with Suc show ?thesis by (auto simp: starts_def)
qed

lemma starts_card:
  assumes "sorted (rev ts)" "intervals key" "i \<le> length ts"
  shows "card {j. j < i \<and> starts None key ts j} = card (key ` set (take i ts))"
  using assms(3)
proof (induction i)
  case 0
  then show ?case by simp
next
  case (Suc i)
  then have i: "i < length ts" by simp
  have "{j. j < Suc i \<and> starts None key ts j} =
      (if starts None key ts i then insert i {j. j < i \<and> starts None key ts j} else {j. j < i \<and> starts None key ts j})"
    by (auto simp: less_Suc_eq)
  then have "card {j. j < Suc i \<and> starts None key ts j} =
      (if starts None key ts i then 1 else 0) + card {j. j < i \<and> starts None key ts j}" by simp
  moreover have eq: "key ` set (take i ts) = (\<lambda>j. key (ts ! j)) ` {0..<i}"
    using i by (simp add: image_image flip: nth_image)
  have "starts None key ts i \<longleftrightarrow> key (ts ! i) \<notin> key ` set (take i ts)"
    unfolding starts_first [OF assms(1,2) i] eq image_iff Bex_def atLeastLessThan_iff by simp metis
  moreover have "set (take (Suc i) ts) = insert (ts ! i) (set (take i ts))"
    using i by (simp add: take_Suc_conv_app_nth)
  ultimately show ?case using Suc by (simp add: insert_absorb)
qed

lemma bucket_trace_keeps:
  assumes "sorted (rev ts)" "intervals (bk_key_of b)" "bk_last b = None" "i < length ts"
  shows "bucket_trace b ts ! i \<longleftrightarrow> keeps (bk_remaining b) (bk_key_of b) ts i"
  using bucket_trace_starts [OF assms(4), of b] starts_first [OF assms(1,2,4)] starts_card [OF assms(1,2)] assms(3,4)
  by (simp add: keeps_def)

definition loop_reasons :: "nat option \<Rightarrow> int \<Rightarrow> nat \<Rightarrow> bucket list \<Rightarrow> int list \<Rightarrow> nat \<Rightarrow> string list" where
  "loop_reasons within latest lr bs ts i =
     (if i < lr then [''last''] else []) @ the (within_reason within latest (ts ! i))
     @ concat (map (\<lambda>b. if bucket_trace b ts ! i then [bk_reason b] else []) bs)"

lemma visit_bucket_reasons: "snd (visit_bucket t b) = (if snd (visit_bucket t b) \<noteq> [] then [bk_reason b] else [])"
  by (simp add: visit_bucket_def Let_def)

lemma bk_reason_visit [simp]: "bk_reason (fst (visit_bucket t b)) = bk_reason b"
  by (simp add: visit_bucket_def Let_def)

lemma loop_reasons_Cons:
  "loop_reasons within latest lr bs (t # ts) 0 =
     (if lr > 0 then [''last''] else []) @ the (within_reason within latest t) @ concat (map (snd \<circ> visit_bucket t) bs)"
  "loop_reasons within latest lr bs (t # ts) (Suc i) =
     loop_reasons within latest (lr - 1) (map (fst \<circ> visit_bucket t) bs) ts i"
proof -
  have "(if snd (visit_bucket t b) \<noteq> [] then [bk_reason b] else []) = snd (visit_bucket t b)" for b
    using visit_bucket_reasons [of t b] by simp
  then show "loop_reasons within latest lr bs (t # ts) 0 =
     (if lr > 0 then [''last''] else []) @ the (within_reason within latest t) @ concat (map (snd \<circ> visit_bucket t) bs)"
    by (simp add: loop_reasons_def comp_def)
  show "loop_reasons within latest lr bs (t # ts) (Suc i) =
     loop_reasons within latest (lr - 1) (map (fst \<circ> visit_bucket t) bs) ts i"
    by (simp add: loop_reasons_def comp_def less_diff_conv cong: if_cong)
qed

lemma within_reason_None: "within_reason within latest t = None \<longleftrightarrow> (\<exists>w. within = Some w \<and> time_sub latest w = None)"
  by (auto simp: within_reason_def split: option.splits)

lemma policy_loop_reasons:
  assumes "\<nexists>w. within = Some w \<and> time_sub latest w = None"
  shows "policy_loop within latest lr bs cs =
     Some (map (\<lambda>i. (cd_key (cs ! i), loop_reasons within latest lr bs (map cd_time cs) i)) [0..<length cs])"
proof (induction cs arbitrary: lr bs)
  case Nil
  then show ?case by simp
next
  case (Cons c cs)
  obtain w where w: "within_reason within latest (cd_time c) = Some w"
    using assms within_reason_None [of within latest "cd_time c"] by (cases "within_reason within latest (cd_time c)") auto
  have up: "[0..<length (c # cs)] = 0 # map Suc [0..<length cs]" by (simp add: map_Suc_upt upt_conv_Cons del: upt_Suc)
  show ?case
    unfolding up using w Cons.IH by (simp add: Let_def loop_reasons_Cons comp_def)
qed

lemma newest_first_sorted:
  "sorted (rev (map cd_time (newest_first cs)))" "set (newest_first cs) = set cs" "length (newest_first cs) = length cs"
proof -
  have "sorted (map (\<lambda>c. (cd_time c, cd_key c)) (rev (newest_first cs)))" by (simp add: newest_first_def)
  then have "sorted (map cd_time (rev (newest_first cs)))"
    unfolding sorted_map by (rule sorted_wrt_mono_rel [rotated]) auto
  then show "sorted (rev (map cd_time (newest_first cs)))" by (simp add: rev_map)
qed (simp_all add: newest_first_def)

lemma map_filter_rule_buckets:
  "concat (map f (List.map_filter rule_bucket rules)) =
     concat (map (\<lambda>r. case rule_bucket r of None \<Rightarrow> [] | Some b \<Rightarrow> f b) rules)"
  by (induction rules) (auto simp: List.map_filter_simps split: option.splits)

lemma apply_policy_reasons:
  assumes "calendar_ok cal" "\<nexists>w. keep_within p = Some w \<and> cs \<noteq> [] \<and> time_sub (cd_time (hd (newest_first cs))) w = None"
  shows "apply_policy cal cs p = Some (map (\<lambda>i. (cd_key (newest_first cs ! i),
      policy_reasons cal p (map cd_time (newest_first cs)) i)) [0..<length cs])"
proof (cases "newest_first cs")
  case Nil
  then have "cs = []" using newest_first_sorted(3) [of cs] by simp
  with Nil show ?thesis by (simp add: apply_policy_def)
next
  case (Cons c rest)
  let ?ns = "c # rest" and ?ts = "map cd_time (c # rest)" and ?lr = "case keep_last p of None \<Rightarrow> 0 | Some n \<Rightarrow> n"
  have sorted: "sorted (rev ?ts)" using newest_first_sorted(1) [of cs] unfolding Cons .
  have len: "length ?ns = length cs" using newest_first_sorted(3) [of cs] Cons by simp
  then have "cs \<noteq> []" by auto
  with assms(2) Cons have fits: "\<nexists>w. keep_within p = Some w \<and> time_sub (cd_time c) w = None" by simp
  have rules: "(\<forall>(reason, n, key) \<in> set (policy_rules cal p). intervals key)"
    using calendar_keys [OF assms(1)] by (simp add: policy_rules_def)
  have "loop_reasons (keep_within p) (cd_time c) ?lr (policy_buckets cal p) ?ts i = policy_reasons cal p ?ts i"
    if i: "i < length ?ns" for i
  proof -
    have "(case rule_bucket r of None \<Rightarrow> [] | Some b \<Rightarrow> if bucket_trace b ?ts ! i then [bk_reason b] else [])
        = (\<lambda>(reason, n, key). rule_reason ?ts i reason n key) r" if "r \<in> set (policy_rules cal p)" for r
    proof -
      obtain reason n key where r: "r = (reason, n, key)" by (cases r) auto
      with that rules have "intervals key" by auto
      with bucket_trace_keeps [OF sorted, of "\<lparr>bk_reason = reason, bk_remaining = the n, bk_last = None, bk_key_of = key\<rparr>" i] i r
      show ?thesis by (auto simp: rule_reason_def split: option.splits)
    qed
    then have "concat (map (\<lambda>b. if bucket_trace b ?ts ! i then [bk_reason b] else []) (policy_buckets cal p))
        = concat (map (\<lambda>(reason, n, key). rule_reason ?ts i reason n key) (policy_rules cal p))"
      unfolding policy_buckets_def map_filter_rule_buckets by (intro arg_cong [where f = concat] map_cong) auto
    moreover have "the (within_reason (keep_within p) (cd_time c) (?ts ! i)) =
        (if \<exists>w. keep_within p = Some w \<and> ?ts ! i \<ge> ?ts ! 0 - int w then [''within''] else [])"
      using fits by (auto simp: within_reason_def time_sub_def split: option.splits if_splits)
    ultimately show ?thesis
      by (auto simp: loop_reasons_def policy_reasons_def policy_rules_reasons split: option.splits)
  qed
  then show ?thesis
    unfolding apply_policy_def Cons using policy_loop_reasons [OF fits] len
    by (simp del: upt_Suc policy_loop.simps)
qed

lemma apply_policy_panics:
  assumes "keep_within p = Some w" "cs \<noteq> []" "time_sub (cd_time (hd (newest_first cs))) w = None"
  shows "apply_policy cal cs p = None"
proof (cases "newest_first cs")
  case Nil
  with assms(2) newest_first_sorted(3) [of cs] show ?thesis by simp
next
  case (Cons c rest)
  with assms show ?thesis by (simp add: apply_policy_def within_reason_def)
qed

lemma newest_always_kept:
  assumes "policy_validate p = Inr ()" "\<not> policy_is_empty p" "0 < length ts"
  shows "policy_reasons cal p ts 0 \<noteq> []"
proof -
  have pos: "keep_last p \<noteq> Some 0" "keep_hourly p \<noteq> Some 0" "keep_daily p \<noteq> Some 0" "keep_weekly p \<noteq> Some 0"
    "keep_monthly p \<noteq> Some 0" "keep_yearly p \<noteq> Some 0"
    using assms(1) by (auto simp: policy_validate_def policy_counts_def split: option.splits if_splits)
  show ?thesis
  proof (rule ccontr)
    assume "\<not> ?thesis"
    then have z: "\<forall>m. keep_last p = Some m \<longrightarrow> m = 0" "\<forall>m. keep_hourly p = Some m \<longrightarrow> m = 0"
      "\<forall>m. keep_daily p = Some m \<longrightarrow> m = 0" "\<forall>m. keep_weekly p = Some m \<longrightarrow> m = 0"
      "\<forall>m. keep_monthly p = Some m \<longrightarrow> m = 0" "\<forall>m. keep_yearly p = Some m \<longrightarrow> m = 0"
      and w: "keep_within p = None"
      by (auto simp: policy_reasons_def rule_reason_def keeps_def split: if_splits)
    have none: "x = None" if "x \<noteq> Some 0" "\<forall>m. x = Some m \<longrightarrow> m = 0" for x :: "nat option"
      using that by (cases x) auto
    note n = pos(1) [THEN none, OF z(1)] pos(2) [THEN none, OF z(2)] pos(3) [THEN none, OF z(3)]
      pos(4) [THEN none, OF z(4)] pos(5) [THEN none, OF z(5)] pos(6) [THEN none, OF z(6)] w
    from n assms(2) show False by (simp add: policy_is_empty_def policy_default_def)
  qed
qed

text \<open>C30: the retention policy does what its manual promises: going from the newest snapshot of a
  group to the oldest, a snapshot is kept for a period rule exactly when it is the newest one in
  its hour (day, week, month, year) and fewer than the allowed number of such periods are newer;
  for \<open>keep_last\<close> when it is among that many newest; for \<open>keep_within\<close> when it is at most that old
  measured from the newest one. The only other outcome is a panic, when that bound leaves the
  range of representable times.\<close>

theorem retention_policy_semantics:
  assumes "calendar_ok cal"
  shows "apply_policy cal cs p =
    (if \<exists>w. keep_within p = Some w \<and> cs \<noteq> [] \<and> time_sub (cd_time (hd (newest_first cs))) w = None then None
     else Some (map (\<lambda>i. (cd_key (newest_first cs ! i), policy_reasons cal p (map cd_time (newest_first cs)) i))
            [0..<length cs]))"
  using apply_policy_reasons [OF assms] apply_policy_panics by (cases "keep_within p") auto

text \<open>A calendar with two years, for witnesses.\<close>

definition demo_calendar :: calendar where
  "demo_calendar = \<lparr>cal_year = (\<lambda>t. if t < 100 then 1 else 2), cal_ordinal = (\<lambda>t. 1), cal_hour = (\<lambda>t. 0),
     cal_month = (\<lambda>t. 1), cal_iso_week = (\<lambda>t. (1, 1))\<rparr>"

lemma demo_calendar_ok: "calendar_ok demo_calendar"
  by (simp add: calendar_ok_def intervals_def demo_calendar_def hour_period_def day_period_def month_period_def)

theorem retention_policy_semantics_witness:
  "apply_policy demo_calendar [\<lparr>cd_key = ''a'', cd_time = 50\<rparr>, \<lparr>cd_key = ''b'', cd_time = 200\<rparr>, \<lparr>cd_key = ''c'', cd_time = 150\<rparr>]
     (policy_default\<lparr>keep_yearly := Some 2\<rparr>) = Some [(''b'', [''yearly'']), (''c'', []), (''a'', [''yearly''])]"
proof -
  let ?cs = "[\<lparr>cd_key = ''a'', cd_time = 50\<rparr>, \<lparr>cd_key = ''b'', cd_time = 200\<rparr>, \<lparr>cd_key = ''c'', cd_time = 150\<rparr>]"
  have n: "newest_first ?cs = [\<lparr>cd_key = ''b'', cd_time = 200\<rparr>, \<lparr>cd_key = ''c'', cd_time = 150\<rparr>, \<lparr>cd_key = ''a'', cd_time = 50\<rparr>]"
    by (simp add: newest_first_def)
  have y: "cal_year demo_calendar 200 = 2" "cal_year demo_calendar 150 = 2" "cal_year demo_calendar 50 = 1"
    by (simp_all add: demo_calendar_def)
  show ?thesis
    by (subst retention_policy_semantics [OF demo_calendar_ok])
      (simp add: n policy_default_def policy_reasons_def rule_reason_def keeps_def upt_rec y
        less_Suc_eq numeral_2_eq_2 all_conj_distrib)
qed

end
