(* ===== verification/Forget.thy ===== *)
theory Forget
  imports Retention
begin

text \<open>
  \<open>Repository::forget\<close> of \<open>crates/kist-core/src/forget.rs\<close>: the snapshots named explicitly and those
  the policy drops are deleted, each one's replica before itself. Deciding what to delete only
  reads; \<open>None\<close> stands for the panic of the policy's time arithmetic.
\<close>

record forget_options =
  fo_snapshots :: "string list"
  fo_policy :: retention_policy
  fo_dry_run :: bool

record forget_summary =
  fs_removed :: "string list"
  fs_kept :: "(string \<times> string list) list"

type_synonym group_key = "bytes \<times> bytes list"

definition snapshot_group :: "snapshot \<Rightarrow> group_key" where
  "snapshot_group snap = (sn_client_id snap, map rt_path (sn_roots snap))"

fun policy_candidates :: "string list \<Rightarrow> snapshot_info list \<Rightarrow> core_error + (group_key \<times> candidate) list" where
  "policy_candidates removed [] = Inr []"
| "policy_candidates removed (i # is) =
     (if si_key i \<in> set removed then policy_candidates removed is
      else if \<not> nanos_ok (sn_time_ns (si_snapshot i)) then Inl (Corrupt (si_key i) ''bad time'')
      else and_then (policy_candidates removed is) (\<lambda>cs.
        Inr ((snapshot_group (si_snapshot i), \<lparr>cd_key = si_key i, cd_time = sn_time_ns (si_snapshot i)\<rparr>) # cs)))"

definition policy_groups :: "(group_key \<times> candidate) list \<Rightarrow> candidate list list" where
  \<comment> \<open>the values of the \<open>BTreeMap\<close>, in the order of its keys\<close>
  "policy_groups cs = map (\<lambda>g. map snd (filter (\<lambda>c. fst c = g) cs)) (sort (remdups (map fst cs)))"

fun apply_groups :: "calendar \<Rightarrow> retention_policy \<Rightarrow> candidate list list \<Rightarrow> (string list \<times> (string \<times> string list) list) option" where
  "apply_groups cal p [] = Some ([], [])"
| "apply_groups cal p (g # gs) =
     (case apply_policy cal g p of
        None \<Rightarrow> None
      | Some out \<Rightarrow> map_option (\<lambda>(removed, kept).
            (map fst (filter (\<lambda>(k, reasons). reasons = []) out) @ removed,
             filter (\<lambda>(k, reasons). reasons \<noteq> []) out @ kept)) (apply_groups cal p gs))"

definition missing_key :: "string list \<Rightarrow> snapshot_info list \<Rightarrow> string option" where
  "missing_key ks infos = find (\<lambda>k. k \<notin> si_key ` set infos) ks"

definition forget_plan :: "calendar \<Rightarrow> 's repository \<Rightarrow> forget_options \<Rightarrow> 's \<Rightarrow> (core_error + forget_summary) option" where
  "forget_plan cal r opts s =
     (if fo_snapshots opts = [] \<and> policy_is_empty (fo_policy opts) then Some (Inl (Usage ''nothing to forget''))
      else case policy_validate (fo_policy opts) of
        Inl e \<Rightarrow> Some (Inl e)
      | Inr u \<Rightarrow>
          (case list_snapshots r s of
             Inl e \<Rightarrow> Some (Inl e)
           | Inr infos \<Rightarrow>
               (case missing_key (fo_snapshots opts) infos of
                  Some k \<Rightarrow> Some (Inl (SnapshotNotFound k))
                | None \<Rightarrow>
                    (let removed = dedup_by (=) (sort (fo_snapshots opts))
                     in if policy_is_empty (fo_policy opts) then Some (Inr \<lparr>fs_removed = removed, fs_kept = []\<rparr>)
                        else case policy_candidates removed infos of
                          Inl e \<Rightarrow> Some (Inl e)
                        | Inr cs \<Rightarrow> map_option (\<lambda>(dropped, kept).
                              Inr \<lparr>fs_removed = removed @ dropped, fs_kept = kept\<rparr>)
                            (apply_groups cal (fo_policy opts) (policy_groups cs))))))"

definition delete_snapshot :: "'s repository \<Rightarrow> string \<Rightarrow> (core_error, 's, unit) io" where
  "delete_snapshot r key s =
     (case backend_delete (rp_ops r) (key @ REPLICA_SUFFIX) s of
        (Inr u, s1) \<Rightarrow> io_err BackendE (backend_delete (rp_ops r) key) s1
      | (Inl (ObjNotFound k), s1) \<Rightarrow> io_err BackendE (backend_delete (rp_ops r) key) s1
      | (Inl e, s1) \<Rightarrow> (Inl (BackendE e), s1))"

definition forget :: "calendar \<Rightarrow> 's repository \<Rightarrow> forget_options \<Rightarrow> 's \<Rightarrow> ((core_error + forget_summary) \<times> 's) option" where
  "forget cal r opts s =
     map_option (\<lambda>plan. case plan of
          Inl e \<Rightarrow> (Inl e, s)
        | Inr summary \<Rightarrow>
            (if fo_dry_run opts then (Inr summary, s)
             else io_then (io_each (delete_snapshot r) (fs_removed summary)) (\<lambda>_. io_lift (Inr summary)) s))
       (forget_plan cal r opts s)"

section \<open>Deleting\<close>

text \<open>What one deletion may have done, however it ended: the store is unchanged, lost the replica,
  or lost both; it succeeded only if both are gone.\<close>

definition snapshot_gone :: "objects \<Rightarrow> objects \<Rightarrow> string \<Rightarrow> bool" where
  "snapshot_gone ob ob' key \<longleftrightarrow> ob' = ob \<or> ob' = ob(key @ REPLICA_SUFFIX := None)
     \<or> ob' = ob(key @ REPLICA_SUFFIX := None, key := None)"

lemma delete_snapshot_objs:
  assumes "store_ok (rp_ops r) objs" "delete_snapshot r key s = (res, s')"
  shows "snapshot_gone (objs s) (objs s') key"
    and "res = Inr () \<Longrightarrow> objs s' = (objs s)(key @ REPLICA_SUFFIX := None, key := None)"
proof -
  obtain q s1 where q: "backend_delete (rp_ops r) (key @ REPLICA_SUFFIX) s = (q, s1)" by force
  note p = backend_delete_objs [OF assms(1) q]
  have "snapshot_gone (objs s) (objs s') key \<and>
      (res = Inr () \<longrightarrow> objs s' = (objs s)(key @ REPLICA_SUFFIX := None, key := None))"
  proof (cases "q = Inr () \<or> (\<exists>k. q = Inl (ObjNotFound k))")
    case True
    then have first: "objs s1 = (objs s)(key @ REPLICA_SUFFIX := None)"
      using p by (elim disjE exE) (auto simp: fun_upd_idem)
    have "delete_snapshot r key s = io_err BackendE (backend_delete (rp_ops r) key) s1"
      using True q by (auto simp: delete_snapshot_def)
    then obtain q' where d: "backend_delete (rp_ops r) key s1 = (q', s')" and res: "res = map_err BackendE q'"
      using assms(2) by (auto simp: io_err_def split: prod.splits)
    from backend_delete_objs(1,3) [OF assms(1) d] first res show ?thesis
      by (auto simp: snapshot_gone_def result_simps)
  next
    case False
    then obtain e where "q = Inl e" by (cases q) auto
    with False q assms(2) have "res = Inl (BackendE e)" "s' = s1"
      by (auto simp: delete_snapshot_def split: backend_error.splits)
    with p(3) show ?thesis by (auto simp: snapshot_gone_def)
  qed
  then show "snapshot_gone (objs s) (objs s') key"
    and "res = Inr () \<Longrightarrow> objs s' = (objs s)(key @ REPLICA_SUFFIX := None, key := None)" by blast+
qed

text \<open>The invariant of the deletion loop over the keys \<open>ks\<close>: only these snapshots and their replicas
  disappear, and a snapshot that disappeared has lost its replica first.\<close>

definition only_forgotten :: "string list \<Rightarrow> objects \<Rightarrow> objects \<Rightarrow> bool" where
  "only_forgotten ks ob ob' \<longleftrightarrow>
     (\<forall>k. ob' k = ob k \<or> ob' k = None \<and> (\<exists>key \<in> set ks. k = key \<or> k = key @ REPLICA_SUFFIX))
     \<and> (\<forall>key \<in> set ks. ob key \<noteq> None \<and> ob' key = None \<longrightarrow> ob' (key @ REPLICA_SUFFIX) = None)"

definition main_names :: "string list \<Rightarrow> bool" where
  "main_names ks \<longleftrightarrow> (\<forall>k \<in> set ks. \<not> ends_with k REPLICA_SUFFIX)"

lemma main_name_replica: "main_names ks \<Longrightarrow> k \<in> set ks \<Longrightarrow> j @ REPLICA_SUFFIX \<noteq> k"
  by (auto simp: main_names_def ends_with_iff)

lemma only_forgotten_step:
  assumes "main_names (key # ks)" "only_forgotten ks (ob(key @ REPLICA_SUFFIX := None, key := None)) ob'"
  shows "only_forgotten (key # ks) ob ob'" "ob' key = None" "ob' (key @ REPLICA_SUFFIX) = None"
proof -
  let ?ob1 = "ob(key @ REPLICA_SUFFIX := None, key := None)"
  have step: "ob' k = ?ob1 k \<or> ob' k = None \<and> (\<exists>j \<in> set ks. k = j \<or> k = j @ REPLICA_SUFFIX)" for k
    using assms(2) unfolding only_forgotten_def by blast
  show gone: "ob' key = None" using step [of key] by auto
  show gone_r: "ob' (key @ REPLICA_SUFFIX) = None" using step [of "key @ REPLICA_SUFFIX"] by auto
  have "ob' k = ob k \<or> ob' k = None \<and> (\<exists>j \<in> set (key # ks). k = j \<or> k = j @ REPLICA_SUFFIX)" for k
    using step [of k] gone gone_r by (cases "k = key \<or> k = key @ REPLICA_SUFFIX") auto
  moreover have "ob' (j @ REPLICA_SUFFIX) = None" if j: "j \<in> set (key # ks)" "ob j \<noteq> None" "ob' j = None" for j
  proof (cases "j = key")
    case True
    with gone_r show ?thesis by simp
  next
    case False
    moreover have "j \<noteq> key @ REPLICA_SUFFIX" using main_name_replica [OF assms(1) j(1)] by metis
    ultimately have "?ob1 j \<noteq> None" "j \<in> set ks" using j by auto
    with assms(2) j(3) show ?thesis unfolding only_forgotten_def by blast
  qed
  ultimately show "only_forgotten (key # ks) ob ob'" unfolding only_forgotten_def by blast
qed

lemma delete_loop_objs:
  assumes "store_ok (rp_ops r) objs" "main_names ks" "io_each (delete_snapshot r) ks s = (res, s')"
  shows "only_forgotten ks (objs s) (objs s')
    \<and> (res = Inr () \<longrightarrow> (\<forall>key \<in> set ks. objs s' key = None \<and> objs s' (key @ REPLICA_SUFFIX) = None))"
  using assms(2,3)
proof (induction ks arbitrary: s)
  case Nil
  then show ?case by (simp add: io_lift_def only_forgotten_def)
next
  case (Cons key ks)
  obtain q s1 where q: "delete_snapshot r key s = (q, s1)" by force
  note d = delete_snapshot_objs [OF assms(1) q]
  have main: "main_names ks" using Cons.prems(1) by (simp add: main_names_def)
  show ?case
  proof (cases q)
    case (Inl e)
    with q Cons.prems(2) have "res = Inl e" "s' = s1" by (simp_all add: io_then_def)
    moreover have "key @ REPLICA_SUFFIX \<notin> set ks"
      using main_name_replica [OF Cons.prems(1), of "key @ REPLICA_SUFFIX" key] by auto
    then have "only_forgotten (key # ks) (objs s) (objs s1)"
      using d(1) main_name_replica [OF Cons.prems(1), of key]
      unfolding snapshot_gone_def only_forgotten_def by (elim disjE) auto
    ultimately show ?thesis by simp
  next
    case (Inr u)
    with q Cons.prems(2) have rest: "io_each (delete_snapshot r) ks s1 = (res, s')" by (simp add: io_then_def)
    have first: "objs s1 = (objs s)(key @ REPLICA_SUFFIX := None, key := None)" using d(2) Inr by simp
    note IH = Cons.IH [OF main rest, unfolded first]
    from only_forgotten_step [OF Cons.prems(1) IH [THEN conjunct1]] IH show ?thesis by simp
  qed
qed

section \<open>Deciding\<close>

definition info_candidate :: "snapshot_info \<Rightarrow> candidate" where
  "info_candidate i = \<lparr>cd_key = si_key i, cd_time = sn_time_ns (si_snapshot i)\<rparr>"

lemma policy_candidates_Inr:
  "policy_candidates removed infos = Inr cs \<Longrightarrow>
     cs = map (\<lambda>i. (snapshot_group (si_snapshot i), info_candidate i)) (filter (\<lambda>i. si_key i \<notin> set removed) infos)"
  by (induction infos arbitrary: cs) (auto simp: result_simps info_candidate_def split: if_splits)

lemma missing_key_None: "missing_key ks infos = None \<longleftrightarrow> set ks \<subseteq> si_key ` set infos"
  by (auto simp: missing_key_def find_None_iff)

lemma dedup_sort_set: "set (dedup_by (=) (sort xs)) = set (xs :: string list)"
proof -
  have "(\<lambda>x. x) ` set (dedup_by (\<lambda>a b. (\<lambda>x. x) a = (\<lambda>x. x) b) (sort xs)) = (\<lambda>x. x) ` set (sort xs)"
    by (rule dedup_by_key_image) simp
  then show ?thesis by simp
qed

text \<open>The snapshots of one client and set of paths that were not named, newest first, and what the
  reference says of one of them: the rules that keep it. The policy drops it when there is none.\<close>

definition group_members :: "forget_options \<Rightarrow> snapshot_info list \<Rightarrow> group_key \<Rightarrow> candidate list" where
  "group_members opts infos key = map info_candidate
     (filter (\<lambda>i. si_key i \<notin> set (fo_snapshots opts) \<and> snapshot_group (si_snapshot i) = key) infos)"

definition policy_verdict :: "calendar \<Rightarrow> forget_options \<Rightarrow> snapshot_info list \<Rightarrow> string \<Rightarrow> string list \<Rightarrow> bool" where
  "policy_verdict cal opts infos k reasons \<longleftrightarrow> (\<exists>key n. let g = newest_first (group_members opts infos key)
     in n < length g \<and> k = cd_key (g ! n) \<and> reasons = policy_reasons cal (fo_policy opts) (map cd_time g) n)"

lemma newest_first_max:
  assumes "c \<in> set cs"
  shows "(cd_time c, cd_key c) \<le> (cd_time (newest_first cs ! 0), cd_key (newest_first cs ! 0))"
proof -
  let ?f = "\<lambda>c. (cd_time c, cd_key c)" and ?xs = "sort_key (\<lambda>c. (cd_time c, cd_key c)) cs"
  have "c \<in> set ?xs" using assms by simp
  then have "?f c \<le> ?f (last ?xs)" by (intro sorted_last_greatest) simp_all
  moreover have "newest_first cs ! 0 = last ?xs"
    using \<open>c \<in> set ?xs\<close> unfolding newest_first_def by (cases ?xs rule: rev_cases) simp_all
  ultimately show ?thesis by simp
qed

text \<open>What \<open>apply_policy\<close> returns, and the loop over the groups.\<close>

lemma apply_policy_out:
  assumes "calendar_ok cal" "apply_policy cal g p = Some out"
  shows "(k, rs) \<in> set out \<longleftrightarrow> (\<exists>n < length (newest_first g). k = cd_key (newest_first g ! n)
    \<and> rs = policy_reasons cal p (map cd_time (newest_first g)) n)"
proof -
  have fits: "\<nexists>w. keep_within p = Some w \<and> g \<noteq> [] \<and> time_sub (cd_time (hd (newest_first g))) w = None"
    using assms(2) by (metis apply_policy_panics option.distinct(1))
  have "out = map (\<lambda>i. (cd_key (newest_first g ! i), policy_reasons cal p (map cd_time (newest_first g)) i)) [0..<length g]"
    using assms(2) unfolding apply_policy_reasons [OF assms(1) fits] by (rule option.inject [THEN iffD1, symmetric])
  then show ?thesis by (auto simp: newest_first_sorted(3))
qed

lemma apply_groups_Some:
  assumes "apply_groups cal p gs = Some (removed, kept)"
  shows "g \<in> set gs \<Longrightarrow> \<exists>out. apply_policy cal g p = Some out"
    and "set removed = {k. \<exists>g \<in> set gs. (k, []) \<in> set (the (apply_policy cal g p))}"
    and "set kept = {(k, rs). rs \<noteq> [] \<and> (\<exists>g \<in> set gs. (k, rs) \<in> set (the (apply_policy cal g p)))}"
proof -
  have "(\<forall>g \<in> set gs. \<exists>out. apply_policy cal g p = Some out)
    \<and> set removed = {k. \<exists>g \<in> set gs. (k, []) \<in> set (the (apply_policy cal g p))}
    \<and> set kept = {(k, rs). rs \<noteq> [] \<and> (\<exists>g \<in> set gs. (k, rs) \<in> set (the (apply_policy cal g p)))}"
    using assms
  proof (induction gs arbitrary: removed kept)
    case (Cons g gs)
    then obtain out rem' kept' where out: "apply_policy cal g p = Some out"
      and rest: "apply_groups cal p gs = Some (rem', kept')"
      and eq: "removed = map fst (filter (\<lambda>(k, rs). rs = []) out) @ rem'" "kept = filter (\<lambda>(k, rs). rs \<noteq> []) out @ kept'"
      by (auto split: option.splits)
    note IH = Cons.IH [OF rest]
    have "set removed = fst ` {x \<in> set out. snd x = []} \<union> set rem'" "set kept = {x \<in> set out. snd x \<noteq> []} \<union> set kept'"
      by (auto simp: eq)
    then show ?case using IH out by (auto simp: image_iff)
  qed simp
  then show "g \<in> set gs \<Longrightarrow> \<exists>out. apply_policy cal g p = Some out"
    and "set removed = {k. \<exists>g \<in> set gs. (k, []) \<in> set (the (apply_policy cal g p))}"
    and "set kept = {(k, rs). rs \<noteq> [] \<and> (\<exists>g \<in> set gs. (k, rs) \<in> set (the (apply_policy cal g p)))}" by blast+
qed

text \<open>The groups of the code are the non-empty ones of the reference.\<close>

lemma set_policy_groups:
  assumes "policy_candidates (dedup_by (=) (sort (fo_snapshots opts))) infos = Inr cs"
  shows "set (policy_groups cs) = {g. g \<noteq> [] \<and> (\<exists>key. g = group_members opts infos key)}"
proof -
  have grp: "map snd (filter (\<lambda>c. fst c = key) cs) = group_members opts infos key" for key
    unfolding policy_candidates_Inr [OF assms] dedup_sort_set group_members_def
    by (simp add: filter_map comp_def conj_commute)
  have "set (policy_groups cs) = (\<lambda>key. group_members opts infos key) ` (fst ` set cs)"
    by (simp add: policy_groups_def grp)
  moreover have "key \<in> fst ` set cs \<longleftrightarrow> group_members opts infos key \<noteq> []" for key
    unfolding grp [symmetric] by (auto simp: filter_empty_conv)
  ultimately show ?thesis by auto
qed

lemma apply_groups_verdict:
  assumes "calendar_ok cal" "policy_candidates (dedup_by (=) (sort (fo_snapshots opts))) infos = Inr cs"
    "apply_groups cal (fo_policy opts) (policy_groups cs) = Some (dropped, kept)"
  shows "set dropped = {k. policy_verdict cal opts infos k []}"
    "set kept = {(k, rs). rs \<noteq> [] \<and> policy_verdict cal opts infos k rs}"
proof -
  have "(\<exists>g \<in> set (policy_groups cs). (k, rs) \<in> set (the (apply_policy cal g (fo_policy opts))))
      \<longleftrightarrow> policy_verdict cal opts infos k rs" for k rs
  proof -
    have "(k, rs) \<in> set (the (apply_policy cal g (fo_policy opts))) \<longleftrightarrow> (\<exists>n < length (newest_first g).
        k = cd_key (newest_first g ! n) \<and> rs = policy_reasons cal (fo_policy opts) (map cd_time (newest_first g)) n)"
      if "g \<in> set (policy_groups cs)" for g
      using apply_groups_Some(1) [OF assms(3) that] apply_policy_out [OF assms(1)] by fastforce
    then have "(\<exists>g \<in> set (policy_groups cs). (k, rs) \<in> set (the (apply_policy cal g (fo_policy opts)))) \<longleftrightarrow>
        (\<exists>g \<in> set (policy_groups cs). \<exists>n < length (newest_first g).
          k = cd_key (newest_first g ! n) \<and> rs = policy_reasons cal (fo_policy opts) (map cd_time (newest_first g)) n)"
      by (rule bex_cong [OF refl])
    also have "\<dots> \<longleftrightarrow> policy_verdict cal opts infos k rs"
    proof -
      have groups: "(\<exists>g \<in> {g. g \<noteq> [] \<and> (\<exists>key. g = group_members opts infos key)}. P g) \<longleftrightarrow> (\<exists>key. P (group_members opts infos key))"
        if "\<And>g. P g \<Longrightarrow> g \<noteq> []" for P using that by blast
      show ?thesis
        unfolding set_policy_groups [OF assms(2)] policy_verdict_def Let_def
      proof (rule groups)
        fix g assume "\<exists>n < length (newest_first g). k = cd_key (newest_first g ! n)
          \<and> rs = policy_reasons cal (fo_policy opts) (map cd_time (newest_first g)) n"
        then have "0 < length (newest_first g)" by (elim exE conjE) (rule le_less_trans [OF le0])
        then show "g \<noteq> []" by (simp add: newest_first_sorted(3))
      qed
    qed
    finally show ?thesis .
  qed
  then show "set dropped = {k. policy_verdict cal opts infos k []}"
    "set kept = {(k, rs). rs \<noteq> [] \<and> policy_verdict cal opts infos k rs}"
    unfolding apply_groups_Some(2,3) [OF assms(3)] by simp_all
qed

lemma verdict_listed:
  assumes "policy_verdict cal opts infos k rs"
  shows "k \<in> si_key ` set infos" "k \<notin> set (fo_snapshots opts)"
proof -
  from assms obtain key n where "n < length (newest_first (group_members opts infos key))"
    "k = cd_key (newest_first (group_members opts infos key) ! n)" by (auto simp: policy_verdict_def Let_def)
  then have "k \<in> cd_key ` set (group_members opts infos key)" by (metis image_eqI newest_first_sorted(2) nth_mem)
  then show "k \<in> si_key ` set infos" "k \<notin> set (fo_snapshots opts)" by (auto simp: group_members_def info_candidate_def)
qed

text \<open>A snapshot the policy drops is not the newest of its group.\<close>

lemma dropped_not_newest:
  assumes "policy_validate (fo_policy opts) = Inr ()" "\<not> policy_is_empty (fo_policy opts)"
    "policy_verdict cal opts infos (si_key i) []" "i \<in> set infos" "distinct (map si_key infos)"
  shows "\<exists>j \<in> set infos. snapshot_group (si_snapshot j) = snapshot_group (si_snapshot i)
    \<and> (sn_time_ns (si_snapshot i), si_key i) < (sn_time_ns (si_snapshot j), si_key j)"
proof -
  from assms(3) obtain key n where n: "n < length (newest_first (group_members opts infos key))"
    "si_key i = cd_key (newest_first (group_members opts infos key) ! n)"
    "policy_reasons cal (fo_policy opts) (map cd_time (newest_first (group_members opts infos key))) n = []"
    by (auto simp: policy_verdict_def Let_def)
  let ?g = "group_members opts infos key" let ?n = "newest_first ?g"
  have "distinct (map cd_key ?g)"
    using assms(5) by (simp add: group_members_def comp_def info_candidate_def distinct_map_filter)
  then have dist: "distinct (map cd_key ?n)" by (simp add: newest_first_def rev_map [symmetric] distinct_map)
  have mem: "?n ! m \<in> set ?g" if "m < length ?n" for m using that newest_first_sorted(2) [of ?g] by (metis nth_mem)
  have len: "0 < length ?n" using n(1) by (rule le_less_trans [OF le0])
  have "n \<noteq> 0"
    using newest_always_kept [OF assms(1,2), of "map cd_time ?n" cal] n(1,3) by (cases n) auto
  then have "cd_key (?n ! 0) \<noteq> cd_key (?n ! n)"
    using nth_eq_iff_index_eq [OF dist, of 0 n] n(1) len by (simp only: length_map nth_map)
  moreover have "(cd_time (?n ! n), cd_key (?n ! n)) \<le> (cd_time (?n ! 0), cd_key (?n ! 0))"
    by (rule newest_first_max [OF mem [OF n(1)]])
  ultimately have less: "(cd_time (?n ! n), cd_key (?n ! n)) < (cd_time (?n ! 0), cd_key (?n ! 0))" by (auto simp: less_le)
  from mem [OF n(1)] obtain i' where i': "i' \<in> set infos" "?n ! n = info_candidate i'" "snapshot_group (si_snapshot i') = key"
    by (auto simp: group_members_def)
  with n(2) assms(4,5) have "i' = i" by (metis candidate.select_convs(1) distinct_map info_candidate_def inj_onD)
  moreover from mem [OF len] obtain j where "j \<in> set infos" "?n ! 0 = info_candidate j" "snapshot_group (si_snapshot j) = key"
    by (auto simp: group_members_def)
  ultimately show ?thesis using i' less by (intro bexI [of _ j]) (simp_all add: info_candidate_def)
qed

text \<open>What a plan removes and keeps.\<close>

lemma forget_plan_Inr:
  assumes "forget_plan cal r opts s = Some (Inr sm)" and l: "list_snapshots r s = Inr infos" and "calendar_ok cal"
  shows "policy_validate (fo_policy opts) = Inr ()" "set (fo_snapshots opts) \<subseteq> si_key ` set infos"
    "policy_is_empty (fo_policy opts) \<Longrightarrow> set (fs_removed sm) = set (fo_snapshots opts) \<and> fs_kept sm = []"
    "\<not> policy_is_empty (fo_policy opts) \<Longrightarrow>
       set (fs_removed sm) = set (fo_snapshots opts) \<union> {k. policy_verdict cal opts infos k []}
       \<and> set (fs_kept sm) = {(k, rs). rs \<noteq> [] \<and> policy_verdict cal opts infos k rs}"
proof -
  from assms show v: "policy_validate (fo_policy opts) = Inr ()"
    by (auto simp: forget_plan_def Let_def split: if_splits sum.splits option.splits)
  from assms have m: "missing_key (fo_snapshots opts) infos = None"
    by (auto simp: forget_plan_def Let_def split: if_splits sum.splits option.splits)
  then show "set (fo_snapshots opts) \<subseteq> si_key ` set infos" by (simp add: missing_key_None)
  let ?ex = "dedup_by (=) (sort (fo_snapshots opts))"
  show "set (fs_removed sm) = set (fo_snapshots opts) \<and> fs_kept sm = []" if "policy_is_empty (fo_policy opts)"
    using that assms l v m by (auto simp: forget_plan_def Let_def dedup_sort_set split: if_splits)
  show "set (fs_removed sm) = set (fo_snapshots opts) \<union> {k. policy_verdict cal opts infos k []}
      \<and> set (fs_kept sm) = {(k, rs). rs \<noteq> [] \<and> policy_verdict cal opts infos k rs}"
    if "\<not> policy_is_empty (fo_policy opts)"
  proof -
    from that assms l v m obtain cs dropped kept where cs: "policy_candidates ?ex infos = Inr cs"
      and g: "apply_groups cal (fo_policy opts) (policy_groups cs) = Some (dropped, kept)"
      and sm: "sm = \<lparr>fs_removed = ?ex @ dropped, fs_kept = kept\<rparr>"
      by (auto simp: forget_plan_def Let_def split: if_splits sum.splits)
    from apply_groups_verdict [OF assms(3) cs g] show ?thesis by (simp add: sm dedup_sort_set)
  qed
qed

lemma forget_plan_listed:
  assumes "forget_plan cal r opts s = Some (Inr sm)" "list_snapshots r s = Inr infos" "calendar_ok cal"
  shows "set (fs_removed sm) \<subseteq> si_key ` set infos"
  using forget_plan_Inr [OF assms] verdict_listed(1) by (cases "policy_is_empty (fo_policy opts)") auto

text \<open>C31: what forgetting removes is exact: only existing snapshots, every one that was named
  explicitly and, without a policy, nothing else. Under a policy the others that go are those for
  which no rule of the reference speaks, each judged among the snapshots of its client and set of
  paths that were not named, and all others are reported as kept with the rules that keep them;
  so the newest snapshot of every client and set of paths survives unless it was named.\<close>

theorem forget_keeps_newest:
  assumes "forget_plan cal r opts s = Some (Inr sm)" "list_snapshots r s = Inr infos"
    "store_ok (rp_ops r) objs" "calendar_ok cal"
  shows "set (fo_snapshots opts) \<subseteq> set (fs_removed sm) \<and> set (fs_removed sm) \<subseteq> si_key ` set infos
    \<and> (policy_is_empty (fo_policy opts) \<longrightarrow> set (fs_removed sm) = set (fo_snapshots opts))
    \<and> (\<not> policy_is_empty (fo_policy opts) \<longrightarrow>
         set (fs_removed sm) = set (fo_snapshots opts) \<union> {k. policy_verdict cal opts infos k []}
         \<and> set (fs_kept sm) = {(k, reasons). reasons \<noteq> [] \<and> policy_verdict cal opts infos k reasons})
    \<and> (\<forall>i \<in> set infos. si_key i \<notin> set (fo_snapshots opts)
         \<and> (\<forall>j \<in> set infos. snapshot_group (si_snapshot j) = snapshot_group (si_snapshot i)
              \<longrightarrow> (sn_time_ns (si_snapshot j), si_key j) \<le> (sn_time_ns (si_snapshot i), si_key i))
         \<longrightarrow> si_key i \<notin> set (fs_removed sm))"
proof -
  note plan = forget_plan_Inr [OF assms(1,2,4)]
  from assms(2) obtain ks where ks: "list_snapshot_keys r s = Inr ks" "read_snapshots r s ks = Inr infos"
    by (auto simp: list_snapshots_def result_simps)
  have dist: "distinct (map si_key infos)"
    using list_snapshot_keys_props(2) [OF ks(1) assms(3)] ks(2) by (simp add: read_snapshots_iff)
  have newest: "si_key i \<notin> set (fs_removed sm)" if i: "i \<in> set infos" "si_key i \<notin> set (fo_snapshots opts)"
    and max: "\<forall>j \<in> set infos. snapshot_group (si_snapshot j) = snapshot_group (si_snapshot i)
              \<longrightarrow> (sn_time_ns (si_snapshot j), si_key j) \<le> (sn_time_ns (si_snapshot i), si_key i)" for i
  proof (cases "policy_is_empty (fo_policy opts)")
    case False
    have "\<not> policy_verdict cal opts infos (si_key i) []"
      using dropped_not_newest [OF plan(1) False _ i(1) dist] max leD by blast
    with plan(4) [OF False] i(2) show ?thesis by simp
  qed (use plan(3) i(2) in simp)
  have "set (fo_snapshots opts) \<subseteq> set (fs_removed sm)"
    using plan(3,4) by (cases "policy_is_empty (fo_policy opts)") auto
  then show ?thesis using plan(3,4) forget_plan_listed [OF assms(1,2,4)] newest by blast
qed

lemma forget_plan_main_names:
  assumes "forget_plan cal r opts s = Some (Inr sm)" "store_ok (rp_ops r) objs" "calendar_ok cal"
  shows "main_names (fs_removed sm)" "set (fs_removed sm) \<subseteq> snapshot_keys_of (objs s)"
proof -
  obtain infos where l: "list_snapshots r s = Inr infos"
    using assms(1) by (auto simp: forget_plan_def Let_def split: if_splits sum.splits option.splits)
  then obtain ks where ks: "list_snapshot_keys r s = Inr ks" "map si_key infos = ks"
    by (auto simp: list_snapshots_def result_simps read_snapshots_iff)
  have "si_key ` set infos = snapshot_keys_of (objs s)"
    using list_snapshot_keys_props(1) [OF ks(1) assms(2)] ks(2) by (metis list.set_map)
  with forget_plan_listed [OF assms(1) l assms(3)] show "set (fs_removed sm) \<subseteq> snapshot_keys_of (objs s)" by simp
  then show "main_names (fs_removed sm)" by (auto simp: main_names_def snapshot_keys_of_def)
qed

text \<open>C32: forgetting never leaves a replica whose snapshot is gone, at whatever point it fails: only
  the snapshots of the plan and their replicas can disappear, a snapshot only after its replica; a
  dry run, and a run that fails before the first deletion, change nothing; a run that succeeds has
  removed all of them.\<close>

theorem forget_replica_first:
  assumes "forget cal r opts s = Some (res, s')" "store_ok (rp_ops r) objs" "calendar_ok cal"
  shows "(\<exists>e. res = Inl e \<and> s' = s \<and> forget_plan cal r opts s = Some (Inl e))
    \<or> (\<exists>sm. forget_plan cal r opts s = Some (Inr sm) \<and> set (fs_removed sm) \<subseteq> snapshot_keys_of (objs s)
        \<and> only_forgotten (fs_removed sm) (objs s) (objs s') \<and> (fo_dry_run opts \<longrightarrow> s' = s)
        \<and> (is_ok res \<and> \<not> fo_dry_run opts \<longrightarrow>
             (\<forall>key \<in> set (fs_removed sm). objs s' key = None \<and> objs s' (key @ REPLICA_SUFFIX) = None)))"
proof -
  obtain plan where plan: "forget_plan cal r opts s = Some plan"
    using assms(1) by (auto simp: forget_def)
  show ?thesis
  proof (cases plan)
    case (Inl e)
    with plan assms(1) show ?thesis by (intro disjI1) (auto simp: forget_def)
  next
    case (Inr sm)
    note names = forget_plan_main_names [OF plan [unfolded Inr] assms(2,3)]
    have keep: "only_forgotten (fs_removed sm) (objs s) (objs s)" by (auto simp: only_forgotten_def)
    show ?thesis
    proof (cases "fo_dry_run opts")
      case True
      with plan Inr assms(1) keep names show ?thesis by (auto simp: forget_def)
    next
      case False
      obtain q s1 where q: "io_each (delete_snapshot r) (fs_removed sm) s = (q, s1)" by force
      with False plan Inr assms(1) have "s' = s1" "is_ok res \<longrightarrow> q = Inr ()"
        by (auto simp: forget_def io_then_def io_lift_def split: sum.splits)
      with delete_loop_objs [OF assms(2) names(1) q] plan Inr False names show ?thesis by auto
    qed
  qed
qed

section \<open>Witnesses\<close>

definition demo_forget :: forget_options where
  "demo_forget = \<lparr>fo_snapshots = [demo_snap_key], fo_policy = policy_default, fo_dry_run = False\<rparr>"

lemma demo_forget_plan:
  "forget_plan demo_calendar demo_snap_repo demo_forget demo_snap_state =
     Some (Inr \<lparr>fs_removed = [demo_snap_key], fs_kept = []\<rparr>)"
  by (simp add: forget_plan_def demo_forget_def demo_list_snapshots policy_is_empty_def missing_key_def Let_def
      policy_validate_def policy_counts_def) (simp add: policy_default_def)

theorem forget_replica_first_witness:
  "\<exists>res s'. forget demo_calendar demo_snap_repo demo_forget demo_snap_state = Some (res, s')
     \<and> (is_ok res \<longrightarrow> map_objs s' demo_snap_key = None \<and> map_objs s' (demo_snap_key @ REPLICA_SUFFIX) = None)"
proof -
  obtain res s' where f: "forget demo_calendar demo_snap_repo demo_forget demo_snap_state = Some (res, s')"
    by (auto simp: forget_def demo_forget_plan) (metis surj_pair)
  have "store_ok (rp_ops demo_snap_repo) map_objs" by (simp add: demo_snap_repo_def map_store_ok)
  from forget_replica_first [OF f this demo_calendar_ok] f show ?thesis
    by (auto simp: demo_forget_plan) (auto simp: demo_forget_def)
qed

definition demo_keep :: forget_options where
  "demo_keep = \<lparr>fo_snapshots = [], fo_policy = policy_default\<lparr>keep_last := Some 1\<rparr>, fo_dry_run = False\<rparr>"

lemma demo_keep_plan: "\<exists>sm. forget_plan demo_calendar demo_snap_repo demo_keep demo_snap_state = Some (Inr sm)"
  by (simp add: forget_plan_def demo_keep_def demo_list_snapshots policy_is_empty_def missing_key_def Let_def
      policy_validate_def policy_counts_def policy_default_def nanos_ok_def timestamp_ok_def NANOS_def
      MIN_TIMESTAMP_def MAX_TIMESTAMP_def demo_snapshot_def policy_groups_def apply_policy_def newest_first_def
      within_reason_def policy_buckets_def policy_rules_def List.map_filter_simps)

theorem forget_keeps_newest_witness:
  "\<exists>sm. forget_plan demo_calendar demo_snap_repo demo_keep demo_snap_state = Some (Inr sm)
     \<and> demo_snap_key \<notin> set (fs_removed sm)"
proof -
  obtain sm where p: "forget_plan demo_calendar demo_snap_repo demo_keep demo_snap_state = Some (Inr sm)"
    using demo_keep_plan by blast
  have "store_ok (rp_ops demo_snap_repo) map_objs" by (simp add: demo_snap_repo_def map_store_ok)
  from forget_keeps_newest [OF p demo_list_snapshots this demo_calendar_ok] p show ?thesis
    by (auto simp: demo_keep_def)
qed

end
