(* ===== verification/Chunk_Read.thy ===== *)
theory Chunk_Read
  imports Repo_Laws
begin

text \<open>
  Reading one chunk and the chunk list of a file: \<open>read_chunk\<close>, \<open>resolve_chunks\<close> and their
  reloading variants of \<open>crates/kist-core/src/restore.rs\<close>. The trait object \<open>ChunkLocator\<close> is a
  record of its two methods. The reloading variants look at the store three times, and other
  programs may change it in between, so they take the three states one after the other; the
  monotonic clock is a time in nanoseconds.
\<close>

record locator =
  lc_contains :: "chunk_id \<Rightarrow> bool"
  lc_get :: "chunk_id \<Rightarrow> chunk_location option"

definition index_view :: "chunk_index \<Rightarrow> locator" where
  "index_view x = \<lparr>lc_contains = index_contains x, lc_get = index_get x\<rparr>"

definition locator_ok :: "locator \<Rightarrow> bool" where
  "locator_ok lc \<longleftrightarrow> (\<forall>c. lc_contains lc c \<longleftrightarrow> lc_get lc c \<noteq> None)"

lemma index_view_ok: "locator_ok (index_view x)"
  by (simp add: locator_ok_def index_view_def index_locator.contains_get)

definition max_chunk :: "'s repository \<Rightarrow> nat" where
  "max_chunk r = cp_max (rc_chunker (rp_config r))"

definition read_chunk :: "'s repository \<Rightarrow> 's \<Rightarrow> locator \<Rightarrow> chunk_id \<Rightarrow> core_error + bytes" where
  "read_chunk r s lc i =
     (case lc_get lc i of
        None \<Rightarrow> Inl (ChunkMissing i)
      | Some loc \<Rightarrow>
          (let key = pack_key (rp_ext r) (lo_pack loc)
           in if lo_offset loc + lo_length loc > u64_max then Inl (Corrupt key ''chunk range overflows'')
              else and_then (map_err BackendE
                  (backend_get_range (rp_ops r) key (lo_offset loc) (lo_offset loc + lo_length loc) s)) (\<lambda>bs.
                decode_chunk (rp_ext r) (rp_keys r) i bs (lo_raw_len loc) (max_chunk r))))"

definition chunk_ids_of :: "'s repository \<Rightarrow> bytes \<Rightarrow> core_error + chunk_id list" where
  "chunk_ids_of r list =
     and_then (map_err (\<lambda>_. Corrupt ''<chunk list>'' ''parse'') (parse_chunk_list (ev_chunk_list (rp_env r)) list))
       (\<lambda>l. Inr (cl_chunks l))"

fun read_all :: "(chunk_id \<Rightarrow> core_error + bytes) \<Rightarrow> chunk_id list \<Rightarrow> core_error + bytes" where
  "read_all rd [] = Inr []"
| "read_all rd (i # is) = and_then (rd i) (\<lambda>b. and_then (read_all rd is) (\<lambda>bs. Inr (b @ bs)))"

definition resolve_chunks :: "'s repository \<Rightarrow> 's \<Rightarrow> locator \<Rightarrow> chunk_id list \<Rightarrow> nat \<Rightarrow> core_error + chunk_id list" where
  "resolve_chunks r s lc chunks content =
     (if content = CT_DIRECT then Inr chunks
      else and_then (read_all (read_chunk r s lc) chunks) (chunk_ids_of r))"

section \<open>Reloading the index\<close>

definition RELOAD_MIN_INTERVAL :: nat where "RELOAD_MIN_INTERVAL = 60 * 1000000000"

record reloadable =
  rl_index :: chunk_index
  rl_last :: "nat option" \<comment> \<open>nanoseconds of the monotonic clock\<close>

definition new_reloadable :: "chunk_index \<Rightarrow> reloadable" where
  "new_reloadable x = \<lparr>rl_index = x, rl_last = None\<rparr>"

definition reload_due :: "nat option \<Rightarrow> nat \<Rightarrow> bool" where
  "reload_due prev now = (case prev of None \<Rightarrow> True | Some t \<Rightarrow> now - t \<ge> RELOAD_MIN_INTERVAL)"

definition reload :: "'s repository \<Rightarrow> 's \<Rightarrow> nat \<Rightarrow> reloadable \<Rightarrow> core_error + reloadable" where
  "reload r s now ri =
     (if reload_due (rl_last ri) now
      then and_then (load_index r s) (\<lambda>fresh. Inr \<lparr>rl_index = fresh, rl_last = Some now\<rparr>)
      else Inr ri)"

definition raw_len_reloading :: "'s repository \<Rightarrow> 's \<Rightarrow> nat \<Rightarrow> chunk_id \<Rightarrow> reloadable \<Rightarrow> (core_error + nat option) \<times> reloadable" where
  "raw_len_reloading r s now i ri =
     (case index_get (rl_index ri) i of
        Some loc \<Rightarrow> (Inr (Some (lo_raw_len loc)), ri)
      | None \<Rightarrow>
          (case reload r s now ri of
             Inl e \<Rightarrow> (Inl e, ri)
           | Inr ri' \<Rightarrow> (Inr (map_option lo_raw_len (index_get (rl_index ri') i)), ri')))"

definition worth_reloading :: "core_error \<Rightarrow> bool" where
  "worth_reloading e = (case e of ChunkMissing c \<Rightarrow> True | BackendE (ObjNotFound k) \<Rightarrow> True | _ \<Rightarrow> False)"

definition read_chunk_reloading ::
  "'s repository \<Rightarrow> 's \<times> 's \<times> 's \<Rightarrow> nat \<Rightarrow> chunk_id \<Rightarrow> reloadable \<Rightarrow> (core_error + bytes) \<times> reloadable" where
  "read_chunk_reloading r ss now i ri =
     (case ss of (s1, s2, s3) \<Rightarrow>
       (case read_chunk r s1 (index_view (rl_index ri)) i of
          Inr b \<Rightarrow> (Inr b, ri)
        | Inl e \<Rightarrow>
            (if worth_reloading e then
               (case reload r s2 now ri of
                  Inl e' \<Rightarrow> (Inl e', ri)
                | Inr ri' \<Rightarrow> (read_chunk r s3 (index_view (rl_index ri')) i, ri'))
             else (Inl e, ri))))"

fun read_all_reloading ::
  "'s repository \<Rightarrow> ('s \<times> 's \<times> 's) list \<Rightarrow> nat list \<Rightarrow> chunk_id list \<Rightarrow> reloadable \<Rightarrow> (core_error + bytes) \<times> reloadable" where
  \<comment> \<open>the store and the clock at each chunk\<close>
  "read_all_reloading r ss ts [] ri = (Inr [], ri)"
| "read_all_reloading r ss ts (i # is) ri =
     (case read_chunk_reloading r (hd ss) (hd ts) i ri of
        (Inl e, ri') \<Rightarrow> (Inl e, ri')
      | (Inr b, ri') \<Rightarrow>
          (case read_all_reloading r (tl ss) (tl ts) is ri' of
             (Inl e, ri'') \<Rightarrow> (Inl e, ri'')
           | (Inr bs, ri'') \<Rightarrow> (Inr (b @ bs), ri'')))"

definition resolve_chunks_reloading ::
  "'s repository \<Rightarrow> ('s \<times> 's \<times> 's) list \<Rightarrow> nat list \<Rightarrow> chunk_id list \<Rightarrow> nat \<Rightarrow> reloadable \<Rightarrow> (core_error + chunk_id list) \<times> reloadable" where
  "resolve_chunks_reloading r ss ts chunks content ri =
     (if content = CT_DIRECT then (Inr chunks, ri)
      else case read_all_reloading r ss ts chunks ri of
        (Inl e, ri') \<Rightarrow> (Inl e, ri')
      | (Inr bs, ri') \<Rightarrow> (chunk_ids_of r bs, ri'))"

section \<open>What is read is what was asked for\<close>

lemma decode_chunk_id:
  "decode_chunk ext keys i data raw_len mx = Inr m \<Longrightarrow> chunk_id_of ext keys m = i \<and> length m = raw_len"
  by (auto simp: decode_chunk_def result_simps split: if_splits)

lemma read_chunk_id: "read_chunk r s lc i = Inr m \<Longrightarrow> chunk_id_of (rp_ext r) (rp_keys r) m = i"
  by (auto simp: read_chunk_def Let_def result_simps decode_chunk_id split: option.splits if_splits)

lemma read_chunk_Inl_missing: "locator_ok lc \<Longrightarrow> \<not> lc_contains lc i \<Longrightarrow> read_chunk r s lc i = Inl (ChunkMissing i)"
  by (simp add: locator_ok_def read_chunk_def)

text \<open>A range read of a healthy store: it fails only when the object is gone.\<close>

definition range_live :: "'s store_ops \<Rightarrow> ('s \<Rightarrow> objects) \<Rightarrow> bool" where
  "range_live ops objs \<longleftrightarrow> (\<forall>k. so_parse ops k = None)
     \<and> (\<forall>s k lo hi. objs s k = None \<longrightarrow> so_get_range ops s k lo hi = Inl StoreNotFound)
     \<and> (\<forall>s k lo hi b t. objs s k = Some (b, t) \<and> lo < hi \<and> hi \<le> length b \<longrightarrow> (\<exists>bs. so_get_range ops s k lo hi = Inr bs))"

lemma map_store_range_live: "range_live map_store map_objs"
  by (auto simp: range_live_def map_store_def)

lemma backend_get_range_live:
  assumes "store_ok ops objs" "range_live ops objs"
  shows "objs s k = None \<Longrightarrow> backend_get_range ops k lo hi s = Inl (ObjNotFound k)"
    and "objs s k = Some (b, t) \<Longrightarrow> lo < hi \<Longrightarrow> hi \<le> length b \<Longrightarrow> backend_get_range ops k lo hi s = Inr (slice lo hi b)"
proof -
  have path: "backend_path ops k = Inr ()" using assms(2) by (simp add: range_live_def backend_path_def)
  show "objs s k = None \<Longrightarrow> backend_get_range ops k lo hi s = Inl (ObjNotFound k)"
    using assms(2) by (simp add: range_live_def backend_get_range_def path map_store_err_def)
  assume b: "objs s k = Some (b, t)" "lo < hi" "hi \<le> length b"
  then obtain bs where "so_get_range ops s k lo hi = Inr bs" using assms(2) unfolding range_live_def by blast
  moreover from store_reads(5) [OF assms(1) this] b(1) have "bs = slice lo hi b" by auto
  ultimately show "backend_get_range ops k lo hi s = Inr (slice lo hi b)" by (simp add: backend_get_range_def path)
qed

text \<open>A pack entry that a load takes into account: some blob that no other replaces lists it.\<close>

definition effective_entry :: "'s repository \<Rightarrow> 's \<Rightarrow> object_id \<Rightarrow> pack_entry \<Rightarrow> bool" where
  "effective_entry r s pack e \<longleftrightarrow> (\<exists>i blob p. listed_blob r s i blob
     \<and> (\<forall>j other. listed_blob r s j other \<longrightarrow> i \<notin> set (ib_supersedes other))
     \<and> p \<in> set (ib_packs blob) \<and> ip_pack p = pack \<and> e \<in> set (ip_entries p))"

text \<open>A loaded index sends a reader to one of these entries.\<close>

lemma load_index_location:
  assumes "load_index r s = Inr x" "index_get x c = Some l"
  shows "\<exists>pack e. effective_entry r s pack e \<and> pe_id e = c \<and> l = location pack e"
proof -
  from assms(1) obtain b errors where be: "load_index_blobs r s = Inr (b, errors)"
    and c: "(case errors of [] \<Rightarrow> Inr (foldl add_pack new_index (effective_packs b))
       | e # es \<Rightarrow> Inl (index_load_error e)) = Inr x"
    by (auto simp: load_index_def load_index_lenient_def result_simps)
  from c have x: "x = foldl add_pack new_index (effective_packs b)" by (cases errors; simp)
  have "index_get x c = map_of (foldl name_rule.offer [] (all_offers (effective_packs b))) c"
    by (simp add: x index_get_no_base foldl_add_pack new_index_def)
  with assms(2) have "(c, l) \<in> set (all_offers (effective_packs b))"
    using name_rule.fold_offer_best [of "[]" "all_offers (effective_packs b)" c l] by simp
  then obtain p e where p: "p \<in> set (effective_packs b)" "e \<in> set (ip_entries p)" "pe_id e = c" "l = location (ip_pack p) e"
    unfolding all_offers_iff by blast
  from p(1) obtain i blob where "(i, blob) \<in> set (ibs_effective b)" "p \<in> set (ib_packs blob)"
    by (auto simp: effective_packs_def)
  with p(2-4) show ?thesis unfolding load_index_blobs_effective(1) [OF be] effective_entry_def by blast
qed

lemma decode_chunk_nonempty: "decode_chunk ext keys i data raw_len mx = Inr m \<Longrightarrow> data \<noteq> []"
  by (auto simp: decode_chunk_def open_chunk_def open_sealed_def nonce_from_slice_def NONCE_LEN_def result_simps split: if_splits)

text \<open>A chunk at a location is read when the pack there holds it, and reported as gone when the pack is.\<close>

lemma read_chunk_held:
  assumes "store_ok (rp_ops r) objs" "range_live (rp_ops r) objs" "lc_get lc c = Some (location pack e)" "pe_id e = c"
    "objs s (pack_key (rp_ext r) pack) = Some (bs, t)" "holds_chunk (rp_ext r) (rp_keys r) (max_chunk r) bs e m"
    "addressable bs"
  shows "read_chunk r s lc c = Inr m"
proof -
  from assms(6) have h: "pe_offset e + pe_length e \<le> length bs"
    and d: "decode_chunk (rp_ext r) (rp_keys r) (pe_id e) (slice (pe_offset e) (pe_offset e + pe_length e) bs) (pe_raw_len e) (max_chunk r) = Inr m"
    by (auto simp: holds_chunk_def)
  have "pe_length e \<noteq> 0" using decode_chunk_nonempty [OF d] by (auto simp: slice_def)
  then have "backend_get_range (rp_ops r) (pack_key (rp_ext r) pack) (pe_offset e) (pe_offset e + pe_length e) s
      = Inr (slice (pe_offset e) (pe_offset e + pe_length e) bs)"
    using backend_get_range_live(2) [OF assms(1,2,5)] h by simp
  moreover have "pe_offset e + pe_length e \<le> u64_max" using h assms(7) by (simp add: addressable_def u64_max_def)
  ultimately show ?thesis using assms(3,4) d by (simp add: read_chunk_def location_def Let_def)
qed

definition stale :: "('s \<Rightarrow> objects) \<Rightarrow> 's repository \<Rightarrow> 's \<Rightarrow> chunk_index \<Rightarrow> chunk_id \<Rightarrow> bool" where
  \<comment> \<open>the index does not know the chunk, or the pack it sends the reader to is gone\<close>
  "stale objs r s x c \<longleftrightarrow> (case index_get x c of None \<Rightarrow> True
     | Some l \<Rightarrow> objs s (pack_key (rp_ext r) (lo_pack l)) = None \<and> lo_offset l + lo_length l \<le> u64_max)"

lemma read_chunk_stale:
  assumes "store_ok (rp_ops r) objs" "range_live (rp_ops r) objs" "stale objs r s x c"
  shows "\<exists>e. read_chunk r s (index_view x) c = Inl e \<and> worth_reloading e"
  using assms(3) backend_get_range_live(1) [OF assms(1,2)]
  by (auto simp: stale_def read_chunk_def index_view_def worth_reloading_def map_err_def not_less Let_def split: option.splits)

text \<open>C40: a reader that started before a repack still gets its data. Its index sends it to a pack
  that is gone, or does not know the chunk; the reload is not too recent and succeeds. If the
  entries that the blobs in force give for the chunk are held by the stored packs - what a repack
  leaves behind when its new index is written before the old packs are deleted - then the read
  returns the content of the chunk, taken from one of these packs, and keeps the new index.\<close>

theorem read_chunk_survives_repack:
  assumes "store_ok (rp_ops r) objs" "range_live (rp_ops r) objs"
    "stale objs r s1 (rl_index ri) c" "reload_due (rl_last ri) now" "load_index r s2 = Inr x"
    "\<exists>pack e. effective_entry r s2 pack e \<and> pe_id e = c"
    "\<forall>pack e. effective_entry r s2 pack e \<and> pe_id e = c \<longrightarrow> (\<exists>bs t m. objs s3 (pack_key (rp_ext r) pack) = Some (bs, t)
       \<and> addressable bs \<and> holds_chunk (rp_ext r) (rp_keys r) (max_chunk r) bs e m)"
  shows "\<exists>m pack e bs t. read_chunk_reloading r (s1, s2, s3) now c ri = (Inr m, \<lparr>rl_index = x, rl_last = Some now\<rparr>)
    \<and> chunk_id_of (rp_ext r) (rp_keys r) m = c \<and> effective_entry r s2 pack e
    \<and> objs s3 (pack_key (rp_ext r) pack) = Some (bs, t) \<and> holds_chunk (rp_ext r) (rp_keys r) (max_chunk r) bs e m"
proof -
  have "index_get x c \<noteq> None"
    using assms(6) load_index_meaning [OF assms(5,1)] unfolding effective_entry_def by blast
  then obtain l where l: "index_get x c = Some l" by blast
  from load_index_location [OF assms(5) l] obtain pack e where e: "effective_entry r s2 pack e" "pe_id e = c" "l = location pack e"
    by blast
  with assms(7) obtain bs t m where bs: "objs s3 (pack_key (rp_ext r) pack) = Some (bs, t)" "addressable bs"
    and h: "holds_chunk (rp_ext r) (rp_keys r) (max_chunk r) bs e m" by blast
  have rd: "read_chunk r s3 (index_view x) c = Inr m"
    by (rule read_chunk_held [OF assms(1,2) _ e(2) bs(1) h bs(2)]) (simp add: index_view_def l e(3))
  obtain err where err: "read_chunk r s1 (index_view (rl_index ri)) c = Inl err" "worth_reloading err"
    using read_chunk_stale [OF assms(1-3)] by blast
  have "read_chunk_reloading r (s1, s2, s3) now c ri = (Inr m, \<lparr>rl_index = x, rl_last = Some now\<rparr>)"
    by (simp add: read_chunk_reloading_def reload_def err assms(4,5) rd)
  with read_chunk_id [OF rd] e(1) bs(1) h show ?thesis by blast
qed

text \<open>A store after a repack: the index lists the new pack, the reader's index the old one.\<close>

definition demo_moved_entry :: pack_entry where
  "demo_moved_entry = \<lparr>pe_id = ChunkId (pad32 [1, 2]), pe_offset = 8, pe_length = 43, pe_raw_len = 2\<rparr>"

definition demo_moved_pack :: bytes where
  "demo_moved_pack = magic @ replicate 24 0 @ [0, 1, 2] @ demo_tag (rk_chunk (keys_from_master demo_ext (replicate 32 1))) (pad32 [1, 2])"

definition demo_listed_pack :: "u8 \<Rightarrow> index_pack" where
  "demo_listed_pack n = \<lparr>ip_pack = ObjectId (replicate 32 n), ip_size = 51, ip_entries = [demo_moved_entry]\<rparr>"

definition demo_moved_repo :: "map_state repository" where
  "demo_moved_repo = demo_repo 0 [] [] [new_blob [demo_listed_pack 8]]"

definition demo_moved_state :: map_state where
  "demo_moved_state = ([(pack_key demo_ext (ObjectId (replicate 32 8)), demo_moved_pack, 0),
     (index_key demo_ext demo_index_id, demo_index_bytes, 0)], 1)"

lemma demo_moved_repo_simps [simp]:
  "rp_ext demo_moved_repo = demo_ext" "rp_ops demo_moved_repo = map_store"
  "rp_keys demo_moved_repo = keys_from_master demo_ext (replicate 32 1)"
  "ev_index (rp_env demo_moved_repo) = demo_codec [new_blob [demo_listed_pack 8]]"
  by (simp_all add: demo_moved_repo_def)

lemma demo_moved_holds: "holds_chunk demo_ext (keys_from_master demo_ext (replicate 32 1)) mx demo_moved_pack demo_moved_entry [1, 2]"
  by (simp add: holds_chunk_def demo_moved_entry_def demo_moved_pack_def slice_def chunk_id_of_def decode_chunk_def
      open_chunk_def pack_consts nonce_from_slice_def NONCE_LEN_def decompress_chunk_def algorithm_from_u8_def)
    (simp add: demo_ext_def decompress_chunk_def algorithm_from_u8_def chunk_id_of_def)

lemma demo_moved_write:
  "write_index demo_moved_repo demo_nonce (new_blob [demo_listed_pack 8])
     ([(pack_key demo_ext (ObjectId (replicate 32 8)), demo_moved_pack, 0)], 0) = (Inr demo_index_id, demo_moved_state)"
  by (simp add: write_index_def io_then_def io_lift_def encode_index_blob_def algorithm_byte_def
      seal_index_blob_in_place_def random_bytes_def demo_moved_state_def demo_index_id_def demo_index_bytes_def demo_index_repo_def
      Let_def io_err_def backend_put_def backend_path_def map_store_def map_put_def map_time_def
      MIN_TIMESTAMP_def MAX_TIMESTAMP_def key_defs PACKS_PREFIX_def INDEXES_PREFIX_def)

lemma demo_moved_reads: "read_index_blob demo_moved_repo demo_moved_state demo_index_id = Inr (new_blob [demo_listed_pack 8])"
proof -
  have "\<forall>plain. cbor_encode (ev_index (rp_env demo_moved_repo)) (new_blob [demo_listed_pack 8]) = Inr plain
      \<longrightarrow> length plain \<le> MAX_INDEX_PLAIN"
    by (simp add: MAX_INDEX_PLAIN_def)
  from write_index_reads [OF _ _ _ _ demo_nonce_ok _ _ this demo_moved_write, of map_objs] show ?thesis
    by (simp add: map_store_ok map_store_live demo_aead_ok demo_zstd_ok demo_codec_ok new_blob_def)
qed

lemma demo_moved_listing:
  "\<exists>ob. backend_list map_store INDEXES_PREFIX demo_moved_state = Inr [ob] \<and> object_id_from_key demo_ext (oi_key ob) = Inr demo_index_id"
proof -
  let ?o = "\<lparr>oi_key = index_key demo_ext demo_index_id, oi_size = length demo_index_bytes, oi_modified = 0\<rparr>"
  have l: "backend_list map_store INDEXES_PREFIX demo_moved_state = Inr [?o]"
    by (simp add: backend_list_def backend_path_def map_store_def demo_moved_state_def under_prefix_def starts_with_def
        key_defs map_meta_def from_meta_def timestamp_ok_def MIN_TIMESTAMP_def MAX_TIMESTAMP_def INDEXES_PREFIX_def PACKS_PREFIX_def)
  have "length (object_bytes demo_index_id) = 32" by (simp add: demo_index_id_def object_id_of_def)
  from object_id_from_prefixed [OF demo_hex_ok this, of INDEXES_PREFIX]
  have "object_id_from_key demo_ext (index_key demo_ext demo_index_id) = Inr demo_index_id" by (simp add: key_defs)
  with l show ?thesis by (intro exI [of _ ?o]) simp
qed

lemma demo_moved_listed: "listed_blob demo_moved_repo demo_moved_state i blob \<longleftrightarrow> i = demo_index_id \<and> blob = new_blob [demo_listed_pack 8]"
  using demo_moved_listing demo_moved_reads by (auto simp: listed_blob_def)

lemma demo_moved_effective: "effective_entry demo_moved_repo demo_moved_state pack e \<longleftrightarrow> pack = ObjectId (replicate 32 8) \<and> e = demo_moved_entry"
  unfolding effective_entry_def demo_moved_listed by (auto simp: new_blob_def demo_listed_pack_def)

lemma demo_moved_load: "load_index demo_moved_repo demo_moved_state = Inr (add_pack new_index (demo_listed_pack 8))"
proof -
  obtain ob where ob: "backend_list map_store INDEXES_PREFIX demo_moved_state = Inr [ob]"
    "object_id_from_key demo_ext (oi_key ob) = Inr demo_index_id" using demo_moved_listing by blast
  then show ?thesis
    using demo_moved_reads by (simp add: load_index_def load_index_lenient_def load_index_blobs_def split_superseded_def
        effective_packs_def new_blob_def)
qed

theorem read_chunk_survives_repack_witness:
  "index_get (add_pack new_index (demo_listed_pack 7)) (ChunkId (pad32 [1, 2])) \<noteq> None
   \<and> (\<exists>m. read_chunk_reloading demo_moved_repo (demo_moved_state, demo_moved_state, demo_moved_state) 7 (ChunkId (pad32 [1, 2]))
          (new_reloadable (add_pack new_index (demo_listed_pack 7)))
        = (Inr m, \<lparr>rl_index = add_pack new_index (demo_listed_pack 8), rl_last = Some 7\<rparr>)
      \<and> chunk_id_of demo_ext (keys_from_master demo_ext (replicate 32 1)) m = ChunkId (pad32 [1, 2]))"
proof -
  let ?old = "add_pack new_index (demo_listed_pack 7)" and ?c = "ChunkId (pad32 [1, 2])"
  have get: "index_get ?old ?c = Some (location (ObjectId (replicate 32 7)) demo_moved_entry)"
    by (simp add: add_pack_def new_index_def demo_listed_pack_def demo_moved_entry_def index_get_def base_get_def)
  have "hex_encode demo_ext (replicate 32 7) \<noteq> hex_encode demo_ext (replicate 32 8)"
    using hex_encode_inj [OF demo_hex_ok, of "replicate 32 7" "replicate 32 8"] by (simp add: numeral_eq_Suc)
  then have "map_objs demo_moved_state (pack_key demo_ext (ObjectId (replicate 32 7))) = None"
    by (simp add: map_objs_def demo_moved_state_def key_defs INDEXES_PREFIX_def PACKS_PREFIX_def)
  then have "stale map_objs demo_moved_repo demo_moved_state (rl_index (new_reloadable ?old)) ?c"
    by (simp add: stale_def new_reloadable_def get location_def demo_moved_entry_def u64_max_def)
  moreover have "map_objs demo_moved_state (pack_key demo_ext (ObjectId (replicate 32 8))) = Some (demo_moved_pack, 0)"
    by (simp add: map_objs_def demo_moved_state_def)
  moreover have "pe_id demo_moved_entry = ?c" by (simp add: demo_moved_entry_def)
  moreover have "addressable demo_moved_pack" by (simp add: addressable_def demo_moved_pack_def magic_def MAGIC_PREFIX_def)
  ultimately show ?thesis
    using read_chunk_survives_repack [OF _ _ _ _ demo_moved_load, of map_objs demo_moved_state "new_reloadable ?old" ?c 7 demo_moved_state]
      demo_moved_holds [of "max_chunk demo_moved_repo"] get
    by (fastforce simp: map_store_ok map_store_range_live demo_moved_effective new_reloadable_def reload_due_def)
qed

end
