(* ===== verification/Reach.thy ===== *)
theory Reach
  imports Chunk_Read Snapshot_List "HOL-Library.While_Combinator"
begin

text \<open>
  \<open>crates/kist-core/src/reach.rs\<close>: the walk from all snapshots over their trees that \<open>check\<close> and
  \<open>prune\<close> share. The recursive \<open>walk_tree\<close> is written with an explicit stack: a task \<open>Visit\<close> is
  one turn of its loop over the segments of a directory, a task \<open>Nodes\<close> the rest of the loop over
  the entries of one segment; what comes after a call returns is the rest of the stack. The calls
  of the \<open>on_file\<close> callback are collected in a list. Error texts are values that name their parts.
\<close>

datatype walk_error =
    SnapshotUnreadable string core_error
  | TreeUnreadable string string core_error
  | TooDeep string
  | ListChunkMissing string chunk_id
  | ListUnreadable string core_error
  | ChunkNotIndexed string chunk_id

record file_visit =
  fv_tree_key :: string
  fv_node :: entry
  fv_data_chunks :: "chunk_id list"

record reachability =
  re_snapshots :: "(string \<times> snapshot) list"
  re_live_trees :: "object_id set"
  re_referenced :: "chunk_id list"
  re_errors :: "walk_error list"
  re_visits :: "file_visit list"

definition reach_default :: reachability where
  "reach_default = \<lparr>re_snapshots = [], re_live_trees = {}, re_referenced = [], re_errors = [], re_visits = []\<rparr>"

definition add_error :: "walk_error \<Rightarrow> reachability \<Rightarrow> reachability" where
  "add_error e reach = reach\<lparr>re_errors := re_errors reach @ [e]\<rparr>"

definition add_referenced :: "chunk_id list \<Rightarrow> reachability \<Rightarrow> reachability" where
  "add_referenced cs reach = reach\<lparr>re_referenced := re_referenced reach @ cs\<rparr>"

definition tree_object :: "tree_id \<Rightarrow> object_id" where
  "tree_object t = ObjectId (tree_bytes t)"

datatype task =
    Visit tree_id nat
  | Nodes string nat "entry list"

definition finish_file :: "locator \<Rightarrow> string \<Rightarrow> entry \<Rightarrow> chunk_id list \<Rightarrow> reachability \<Rightarrow> reachability" where
  "finish_file lc key node data reach =
     (let reach1 = add_referenced data reach;
          reach2 = foldl (\<lambda>acc c. if lc_contains lc c then acc else add_error (ChunkNotIndexed key c) acc) reach1 data
      in reach2\<lparr>re_visits := re_visits reach2 @ [\<lparr>fv_tree_key = key, fv_node = node, fv_data_chunks = data\<rparr>]\<rparr>)"

definition visit_file :: "'s repository \<Rightarrow> 's \<Rightarrow> locator \<Rightarrow> string \<Rightarrow> entry \<Rightarrow> reachability \<Rightarrow> reachability" where
  "visit_file r s lc key node reach =
     (if en_content node = CT_DIRECT then finish_file lc key node (en_chunks node) reach
      else let reach1 = add_referenced (en_chunks node) reach
        in case find (\<lambda>c. \<not> lc_contains lc c) (en_chunks node) of
             Some missing \<Rightarrow> add_error (ListChunkMissing key missing) reach1
           | None \<Rightarrow>
               (case resolve_chunks r s lc (en_chunks node) (en_content node) of
                  Inl e \<Rightarrow> add_error (ListUnreadable key e) reach1
                | Inr ids \<Rightarrow> finish_file lc key node ids reach1))"

fun walk_step :: "'s repository \<Rightarrow> 's \<Rightarrow> locator \<Rightarrow> string \<Rightarrow> task list \<times> reachability \<Rightarrow> task list \<times> reachability" where
  "walk_step r s lc ctx ([], reach) = ([], reach)"
| "walk_step r s lc ctx (Visit t depth # rest, reach) =
     (if tree_object t \<in> re_live_trees reach then (rest, reach)
      else let reach1 = reach\<lparr>re_live_trees := insert (tree_object t) (re_live_trees reach)\<rparr>;
               key = tree_key (rp_ext r) t
        in case read_tree r s t of
             Inl e \<Rightarrow> (rest, add_error (TreeUnreadable key ctx e) reach1)
           | Inr tree \<Rightarrow>
               (Nodes key depth (tr_entries tree)
                  # (case tr_prev tree of Some p \<Rightarrow> [Visit p depth] | None \<Rightarrow> []) @ rest, reach1))"
| "walk_step r s lc ctx (Nodes key depth [] # rest, reach) = (rest, reach)"
| "walk_step r s lc ctx (Nodes key depth (node # es) # rest, reach) =
     (if en_kind node = NT_DIR \<and> \<not> tree_is_zero (en_subtree node) then
        (if depth \<ge> MAX_TREE_DEPTH then (Nodes key depth es # rest, add_error (TooDeep key) reach)
         else (Visit (en_subtree node) (depth + 1) # Nodes key depth es # rest, reach))
      else if en_kind node = NT_FILE then (Nodes key depth es # rest, visit_file r s lc key node reach)
      else (Nodes key depth es # rest, reach))"

definition walk_tree :: "'s repository \<Rightarrow> 's \<Rightarrow> locator \<Rightarrow> string \<Rightarrow> tree_id \<Rightarrow> reachability \<Rightarrow> reachability option" where
  "walk_tree r s lc ctx t reach =
     map_option snd (while_option (\<lambda>(stack, _). stack \<noteq> []) (walk_step r s lc ctx) ([Visit t 1], reach))"

fun walk_roots :: "'s repository \<Rightarrow> 's \<Rightarrow> locator \<Rightarrow> string \<Rightarrow> tree_id list \<Rightarrow> reachability \<Rightarrow> reachability option" where
  "walk_roots r s lc ctx [] reach = Some reach"
| "walk_roots r s lc ctx (t # ts) reach =
     (case walk_tree r s lc ctx t reach of
        None \<Rightarrow> None | Some reach1 \<Rightarrow> walk_roots r s lc ctx ts reach1)"

fun walk_snapshots :: "'s repository \<Rightarrow> 's \<Rightarrow> locator \<Rightarrow> string list \<Rightarrow> reachability \<Rightarrow> reachability option" where
  "walk_snapshots r s lc [] reach = Some reach"
| "walk_snapshots r s lc (key # ks) reach =
     (case read_snapshot r s key of
        Inl e \<Rightarrow> walk_snapshots r s lc ks (add_error (SnapshotUnreadable key e) reach)
      | Inr snap \<Rightarrow>
          (case walk_roots r s lc key (map rt_tree (sn_roots snap))
               (reach\<lparr>re_snapshots := re_snapshots reach @ [(key, snap)]\<rparr>) of
             None \<Rightarrow> None | Some reach1 \<Rightarrow> walk_snapshots r s lc ks reach1))"

definition walk_references :: "'s repository \<Rightarrow> 's \<Rightarrow> locator \<Rightarrow> (core_error + reachability) option" where
  "walk_references r s lc =
     (case list_snapshot_keys r s of
        Inl e \<Rightarrow> Some (Inl e)
      | Inr ks \<Rightarrow> map_option Inr (walk_snapshots r s lc ks reach_default))"

section \<open>What an entry and a tree refer to\<close>

definition subdirectory :: "entry \<Rightarrow> tree_id \<Rightarrow> bool" where
  "subdirectory e t \<longleftrightarrow> en_kind e = NT_DIR \<and> \<not> tree_is_zero (en_subtree e) \<and> t = en_subtree e"

definition file_chunks :: "'s repository \<Rightarrow> 's \<Rightarrow> locator \<Rightarrow> entry \<Rightarrow> chunk_id set \<Rightarrow> bool" where
  "file_chunks r s lc e cs \<longleftrightarrow> (if en_content e = CT_DIRECT then cs = set (en_chunks e)
     else \<exists>ids. resolve_chunks r s lc (en_chunks e) (en_content e) = Inr ids \<and> cs = set (en_chunks e) \<union> set ids)"

definition tree_edge :: "'s repository \<Rightarrow> 's \<Rightarrow> tree_id \<Rightarrow> tree_id \<Rightarrow> bool" where
  "tree_edge r s t u \<longleftrightarrow> (\<exists>tree. read_tree r s t = Inr tree
     \<and> (tr_prev tree = Some u \<or> (\<exists>e \<in> set (tr_entries tree). subdirectory e u)))"

text \<open>An entry is accounted for: its subdirectory is among \<open>L\<close>, the chunks of its file are among
  \<open>R\<close> and known to the index.\<close>

definition entry_covered :: "'s repository \<Rightarrow> 's \<Rightarrow> locator \<Rightarrow> tree_id set \<Rightarrow> chunk_id set \<Rightarrow> entry \<Rightarrow> bool" where
  "entry_covered r s lc L R e \<longleftrightarrow> (\<forall>u. subdirectory e u \<longrightarrow> u \<in> L)
     \<and> (en_kind e = NT_FILE \<longrightarrow> (\<exists>cs. file_chunks r s lc e cs \<and> cs \<subseteq> R \<and> (\<forall>c \<in> cs. lc_contains lc c)))"

definition tree_covered :: "'s repository \<Rightarrow> 's \<Rightarrow> locator \<Rightarrow> tree_id set \<Rightarrow> chunk_id set \<Rightarrow> entry set \<Rightarrow> tree_id \<Rightarrow> bool" where
  "tree_covered r s lc L R todo t \<longleftrightarrow> (\<exists>tree. read_tree r s t = Inr tree
     \<and> (\<forall>u. tr_prev tree = Some u \<longrightarrow> u \<in> L)
     \<and> (\<forall>e \<in> set (tr_entries tree). e \<in> todo \<or> entry_covered r s lc L R e))"

lemma entry_covered_mono:
  "entry_covered r s lc L R e \<Longrightarrow> L \<subseteq> L' \<Longrightarrow> R \<subseteq> R' \<Longrightarrow> entry_covered r s lc L' R' e"
  unfolding entry_covered_def by blast

lemma tree_covered_mono:
  assumes "tree_covered r s lc L R todo t" "L \<subseteq> L'" "R \<subseteq> R'"
    "\<And>e. e \<in> todo \<Longrightarrow> e \<in> todo' \<or> entry_covered r s lc L' R' e"
  shows "tree_covered r s lc L' R' todo' t"
proof -
  obtain tree where tree: "read_tree r s t = Inr tree" "\<forall>u. tr_prev tree = Some u \<longrightarrow> u \<in> L"
    and es: "\<And>e. e \<in> set (tr_entries tree) \<Longrightarrow> e \<in> todo \<or> entry_covered r s lc L R e"
    using assms(1) by (auto simp: tree_covered_def)
  have "e \<in> todo' \<or> entry_covered r s lc L' R' e" if "e \<in> set (tr_entries tree)" for e
    using es [OF that]
  proof
    assume "entry_covered r s lc L R e"
    from entry_covered_mono [OF this assms(2,3)] show ?thesis ..
  qed (rule assms(4))
  with tree assms(2) show ?thesis unfolding tree_covered_def by blast
qed

definition wanted :: "task list \<Rightarrow> tree_id set" where
  "wanted st = {t. \<exists>d. Visit t d \<in> set st}"

definition pending :: "task list \<Rightarrow> entry set" where
  "pending st = {e. \<exists>k d es. Nodes k d es \<in> set st \<and> e \<in> set es}"

definition live_ids :: "reachability \<Rightarrow> tree_id set" where
  "live_ids reach = {t. tree_object t \<in> re_live_trees reach}"

lemma wanted_simps [simp]:
  "wanted [] = {}" "wanted (Visit t d # st) = insert t (wanted st)" "wanted (Nodes k d es # st) = wanted st"
  "wanted (a @ b) = wanted a \<union> wanted b"
  by (auto simp: wanted_def)

lemma pending_simps [simp]:
  "pending [] = {}" "pending (Visit t d # st) = pending st" "pending (Nodes k d es # st) = set es \<union> pending st"
  "pending (a @ b) = pending a \<union> pending b"
  by (auto simp: pending_def)

lemma tree_object_inj [simp]: "tree_object t = tree_object u \<longleftrightarrow> t = u"
  by (cases t; cases u) (simp add: tree_object_def)

lemma live_ids_insert [simp]:
  "live_ids (reach\<lparr>re_live_trees := insert (tree_object t) (re_live_trees reach)\<rparr>) = insert t (live_ids reach)"
  by (auto simp: live_ids_def)

lemma add_error_simps [simp]:
  "re_errors (add_error e reach) \<noteq> []" "live_ids (add_error e reach) = live_ids reach"
  "re_referenced (add_error e reach) = re_referenced reach" "re_snapshots (add_error e reach) = re_snapshots reach"
  "re_live_trees (add_error e reach) = re_live_trees reach"
  by (simp_all add: add_error_def live_ids_def)

section \<open>The walk finds everything\<close>

lemma finish_file_effect:
  "re_live_trees (finish_file lc key node data reach) = re_live_trees reach"
  "re_snapshots (finish_file lc key node data reach) = re_snapshots reach"
  "re_referenced (finish_file lc key node data reach) = re_referenced reach @ data"
  "re_errors (finish_file lc key node data reach) = [] \<longleftrightarrow> re_errors reach = [] \<and> (\<forall>c \<in> set data. lc_contains lc c)"
proof -
  have fold: "re_live_trees (foldl (\<lambda>acc c. if lc_contains lc c then acc else add_error (ChunkNotIndexed key c) acc) acc cs) = re_live_trees acc
    \<and> re_snapshots (foldl (\<lambda>acc c. if lc_contains lc c then acc else add_error (ChunkNotIndexed key c) acc) acc cs) = re_snapshots acc
    \<and> re_referenced (foldl (\<lambda>acc c. if lc_contains lc c then acc else add_error (ChunkNotIndexed key c) acc) acc cs) = re_referenced acc
    \<and> (re_errors (foldl (\<lambda>acc c. if lc_contains lc c then acc else add_error (ChunkNotIndexed key c) acc) acc cs) = []
        \<longleftrightarrow> re_errors acc = [] \<and> (\<forall>c \<in> set cs. lc_contains lc c))" for acc cs
    by (induction cs arbitrary: acc) auto
  show "re_live_trees (finish_file lc key node data reach) = re_live_trees reach"
    "re_snapshots (finish_file lc key node data reach) = re_snapshots reach"
    "re_referenced (finish_file lc key node data reach) = re_referenced reach @ data"
    "re_errors (finish_file lc key node data reach) = [] \<longleftrightarrow> re_errors reach = [] \<and> (\<forall>c \<in> set data. lc_contains lc c)"
    using fold by (simp_all add: finish_file_def Let_def add_referenced_def)
qed

lemma visit_file_effect:
  "re_live_trees (visit_file r s lc key node reach) = re_live_trees reach"
  "re_snapshots (visit_file r s lc key node reach) = re_snapshots reach"
  "set (re_referenced reach) \<subseteq> set (re_referenced (visit_file r s lc key node reach))"
  "re_errors (visit_file r s lc key node reach) = [] \<Longrightarrow> re_errors reach = []
     \<and> (\<exists>cs. file_chunks r s lc node cs \<and> cs \<subseteq> set (re_referenced (visit_file r s lc key node reach))
          \<and> (\<forall>c \<in> cs. lc_contains lc c))"
  by (cases "en_content node = CT_DIRECT",
      auto simp: visit_file_def Let_def finish_file_effect add_referenced_def file_chunks_def find_None_iff
        split: option.splits sum.splits)+

text \<open>One turn of the walk never forgets: what was found stays found, what was to be visited is
  visited or still to be visited, and errors stay.\<close>

definition walk_grows :: "task list \<times> reachability \<Rightarrow> task list \<times> reachability \<Rightarrow> bool" where
  "walk_grows a b \<longleftrightarrow> live_ids (snd a) \<subseteq> live_ids (snd b)
     \<and> wanted (fst a) \<subseteq> live_ids (snd b) \<union> wanted (fst b)
     \<and> set (re_referenced (snd a)) \<subseteq> set (re_referenced (snd b))
     \<and> re_snapshots (snd b) = re_snapshots (snd a) \<and> (re_errors (snd b) = [] \<longrightarrow> re_errors (snd a) = [])"

definition walk_covered :: "'s repository \<Rightarrow> 's \<Rightarrow> locator \<Rightarrow> task list \<times> reachability \<Rightarrow> bool" where
  "walk_covered r s lc a \<longleftrightarrow> (re_errors (snd a) = [] \<longrightarrow> (\<forall>t \<in> live_ids (snd a).
     tree_covered r s lc (live_ids (snd a) \<union> wanted (fst a)) (set (re_referenced (snd a))) (pending (fst a)) t))"

lemma walk_grows_refl [simp]: "walk_grows a a"
  by (simp add: walk_grows_def)

lemma walk_grows_trans:
  assumes "walk_grows a b" "walk_grows b c"
  shows "walk_grows a c"
proof -
  have live: "live_ids (snd a) \<subseteq> live_ids (snd b)" "live_ids (snd b) \<subseteq> live_ids (snd c)"
    and want: "wanted (fst a) \<subseteq> live_ids (snd b) \<union> wanted (fst b)" "wanted (fst b) \<subseteq> live_ids (snd c) \<union> wanted (fst c)"
    and refd: "set (re_referenced (snd a)) \<subseteq> set (re_referenced (snd b))"
      "set (re_referenced (snd b)) \<subseteq> set (re_referenced (snd c))"
    using assms by (simp_all add: walk_grows_def)
  have "wanted (fst a) \<subseteq> live_ids (snd c) \<union> wanted (fst c)"
    using subset_trans [OF want(1) Un_mono [OF live(2) want(2)]] by (simp add: Un_assoc [symmetric])
  moreover have "re_snapshots (snd c) = re_snapshots (snd a)" "re_errors (snd c) = [] \<longrightarrow> re_errors (snd a) = []"
    using assms by (simp_all add: walk_grows_def)
  ultimately show ?thesis
    using subset_trans [OF live] subset_trans [OF refd] by (simp add: walk_grows_def)
qed

lemma live_ids_visit_file [simp]: "live_ids (visit_file r s lc key node reach) = live_ids reach"
  by (simp add: live_ids_def visit_file_effect)

lemma walk_cases:
  obtains (finished) reach where "a = ([], reach)"
  | (visit) t depth rest reach where "a = (Visit t depth # rest, reach)"
  | (no_nodes) key depth rest reach where "a = (Nodes key depth [] # rest, reach)"
  | (nodes) key depth node es rest reach where "a = (Nodes key depth (node # es) # rest, reach)"
  by (metis list.exhaust prod.exhaust task.exhaust)

lemma walk_step_grows: "walk_grows a (walk_step r s lc ctx a)"
proof (cases a rule: walk_cases)
  case (visit t depth rest reach)
  then show ?thesis
    by (auto simp: walk_grows_def Let_def live_ids_def [symmetric] split: sum.splits option.splits)
      (auto simp: live_ids_def)
next
  case (nodes key depth node es rest reach)
  then show ?thesis
    using visit_file_effect [where r = r and s = s and lc = lc and key = key and node = node and reach = reach]
    by (auto simp: walk_grows_def)
qed (auto simp: walk_grows_def)

lemma walk_coveredI:
  assumes "walk_covered r s lc a" "walk_grows a b" "live_ids (snd b) = live_ids (snd a)"
    "re_errors (snd b) = [] \<Longrightarrow> \<forall>e \<in> pending (fst a). e \<in> pending (fst b)
        \<or> entry_covered r s lc (live_ids (snd b) \<union> wanted (fst b)) (set (re_referenced (snd b))) e"
  shows "walk_covered r s lc b"
  unfolding walk_covered_def
proof (intro impI ballI)
  fix t assume ok: "re_errors (snd b) = []" and t: "t \<in> live_ids (snd b)"
  have "re_errors (snd a) = []" using assms(2) ok by (simp add: walk_grows_def)
  with assms(1,3) t have "tree_covered r s lc (live_ids (snd a) \<union> wanted (fst a)) (set (re_referenced (snd a))) (pending (fst a)) t"
    by (simp add: walk_covered_def)
  moreover have "live_ids (snd a) \<union> wanted (fst a) \<subseteq> live_ids (snd b) \<union> wanted (fst b)"
    "set (re_referenced (snd a)) \<subseteq> set (re_referenced (snd b))"
    using assms(2) by (auto simp: walk_grows_def)
  ultimately show "tree_covered r s lc (live_ids (snd b) \<union> wanted (fst b)) (set (re_referenced (snd b))) (pending (fst b)) t"
    by (rule tree_covered_mono) (use assms(4) [OF ok] in blast)
qed

lemma walk_step_covered:
  assumes "walk_covered r s lc a"
  shows "walk_covered r s lc (walk_step r s lc ctx a)"
proof (cases a rule: walk_cases)
  case (finished reach)
  with assms show ?thesis by simp
next
  case (visit t depth rest reach)
  show ?thesis
  proof (cases "t \<in> live_ids reach")
    case True
    then have "walk_step r s lc ctx a = (rest, reach)" using visit by (simp add: live_ids_def)
    with assms visit True show ?thesis by (simp add: walk_covered_def insert_absorb)
  next
    case unseen: False
    show ?thesis
    proof (cases "read_tree r s t")
      case (Inl e)
      with unseen visit show ?thesis by (simp add: walk_covered_def live_ids_def Let_def)
    next
      case (Inr tree)
      let ?reach1 = "reach\<lparr>re_live_trees := insert (tree_object t) (re_live_trees reach)\<rparr>"
      let ?st = "Nodes (tree_key (rp_ext r) t) depth (tr_entries tree)
          # (case tr_prev tree of Some p \<Rightarrow> [Visit p depth] | None \<Rightarrow> []) @ rest"
      have step: "walk_step r s lc ctx a = (?st, ?reach1)"
        using unseen visit Inr by (simp add: live_ids_def Let_def)
      have L: "live_ids reach \<union> wanted (Visit t depth # rest) \<subseteq> live_ids ?reach1 \<union> wanted ?st"
        "\<forall>u. tr_prev tree = Some u \<longrightarrow> u \<in> wanted ?st" by (auto split: option.splits)
      have "tree_covered r s lc (live_ids ?reach1 \<union> wanted ?st) (set (re_referenced ?reach1)) (pending ?st) u"
        if ok: "re_errors ?reach1 = []" and u: "u \<in> live_ids ?reach1" for u
      proof (cases "u = t")
        case True
        with Inr L(2) show ?thesis by (simp add: tree_covered_def)
      next
        case False
        with ok u assms visit have "tree_covered r s lc (live_ids reach \<union> wanted (Visit t depth # rest))
            (set (re_referenced reach)) (pending (Visit t depth # rest)) u"
          by (simp add: walk_covered_def)
        then show ?thesis by (rule tree_covered_mono) (use L(1) in simp_all)
      qed
      then show ?thesis unfolding step by (simp add: walk_covered_def)
    qed
  qed
next
  case (no_nodes key depth rest reach)
  with assms show ?thesis by (simp add: walk_covered_def)
next
  case (nodes key depth node es rest reach)
  have kinds: "NT_DIR \<noteq> NT_FILE" by (simp add: node_consts)
  show ?thesis
  proof (rule walk_coveredI [OF assms walk_step_grows])
    show "live_ids (snd (walk_step r s lc ctx a)) = live_ids (snd a)" using nodes by auto
    assume ok: "re_errors (snd (walk_step r s lc ctx a)) = []"
    have "entry_covered r s lc (live_ids (snd (walk_step r s lc ctx a)) \<union> wanted (fst (walk_step r s lc ctx a)))
        (set (re_referenced (snd (walk_step r s lc ctx a)))) node"
      using ok nodes kinds visit_file_effect(4) [where r = r and s = s and lc = lc and key = key and node = node and reach = reach]
      by (auto simp: entry_covered_def subdirectory_def split: if_splits)
    moreover have "pending (fst a) = insert node (pending (fst (walk_step r s lc ctx a)))" using nodes by auto
    ultimately show "\<forall>e \<in> pending (fst a). e \<in> pending (fst (walk_step r s lc ctx a))
        \<or> entry_covered r s lc (live_ids (snd (walk_step r s lc ctx a)) \<union> wanted (fst (walk_step r s lc ctx a)))
            (set (re_referenced (snd (walk_step r s lc ctx a)))) e" by simp
  qed
qed

lemma walk_tree_result:
  assumes "walk_tree r s lc ctx t reach = Some reach'" "walk_covered r s lc ([], reach)"
  shows "walk_covered r s lc ([], reach')" "walk_grows ([Visit t 1], reach) ([], reach')"
proof -
  from assms(1) obtain st where w: "while_option (\<lambda>(stack, _). stack \<noteq> []) (walk_step r s lc ctx) ([Visit t 1], reach) = Some (st, reach')"
    by (auto simp: walk_tree_def)
  have "st = []" using while_option_stop [OF w] by simp
  let ?P = "\<lambda>x. walk_covered r s lc x \<and> walk_grows ([Visit t 1], reach) x"
  have "?P (st, reach')"
  proof (rule while_option_rule [OF _ w])
    have "tree_covered r s lc (live_ids reach \<union> wanted [Visit t 1]) R todo u"
      if "tree_covered r s lc (live_ids reach) R todo u" for R todo u
      using that by (rule tree_covered_mono) auto
    with assms(2) show "?P ([Visit t 1], reach)" by (simp add: walk_covered_def)
    show "?P x \<Longrightarrow> case x of (stack, uu_) \<Rightarrow> stack \<noteq> [] \<Longrightarrow> ?P (walk_step r s lc ctx x)" for x
      by (elim conjE, intro conjI, erule walk_step_covered, erule walk_grows_trans [OF _ walk_step_grows])
  qed
  with \<open>st = []\<close> show "walk_covered r s lc ([], reach')" "walk_grows ([Visit t 1], reach) ([], reach')" by simp_all
qed

text \<open>What a walk guarantees about a list of snapshots it has been over.\<close>

definition reach_grows :: "reachability \<Rightarrow> reachability \<Rightarrow> bool" where
  "reach_grows a b \<longleftrightarrow> live_ids a \<subseteq> live_ids b \<and> set (re_referenced a) \<subseteq> set (re_referenced b)
     \<and> (re_errors b = [] \<longrightarrow> re_errors a = [])"

lemma reach_grows_refl [simp]: "reach_grows a a"
  by (simp add: reach_grows_def)

lemma reach_grows_trans:
  assumes "reach_grows a b" "reach_grows b c"
  shows "reach_grows a c"
proof -
  have "live_ids a \<subseteq> live_ids c" "set (re_referenced a) \<subseteq> set (re_referenced c)"
    using subset_trans [of "live_ids a" "live_ids b" "live_ids c"]
      subset_trans [of "set (re_referenced a)" "set (re_referenced b)" "set (re_referenced c)"] assms
    by (simp_all add: reach_grows_def)
  with assms show ?thesis by (simp add: reach_grows_def)
qed

lemma walk_roots_result:
  "walk_roots r s lc ctx ts reach = Some reach' \<Longrightarrow> walk_covered r s lc ([], reach) \<Longrightarrow>
     walk_covered r s lc ([], reach') \<and> reach_grows reach reach' \<and> set ts \<subseteq> live_ids reach'
     \<and> re_snapshots reach' = re_snapshots reach"
proof (induction ts arbitrary: reach)
  case Nil
  then show ?case by simp
next
  case (Cons t ts)
  then obtain reach1 where w: "walk_tree r s lc ctx t reach = Some reach1" "walk_roots r s lc ctx ts reach1 = Some reach'"
    by (auto split: option.splits)
  note t = walk_tree_result [OF w(1) Cons.prems(2)]
  have "reach_grows reach reach1" "t \<in> live_ids reach1" "re_snapshots reach1 = re_snapshots reach"
    using t(2) by (simp_all add: walk_grows_def reach_grows_def)
  moreover note IH = Cons.IH [OF w(2) t(1)]
  moreover have "reach_grows reach reach'" using reach_grows_trans [OF calculation(1)] IH by blast
  ultimately show ?case by (auto simp: reach_grows_def)
qed

lemma walk_snapshots_result:
  "walk_snapshots r s lc ks reach = Some reach' \<Longrightarrow> walk_covered r s lc ([], reach) \<Longrightarrow>
     walk_covered r s lc ([], reach') \<and> reach_grows reach reach'
     \<and> (re_errors reach' = [] \<longrightarrow> (\<exists>snaps. re_snapshots reach' = re_snapshots reach @ snaps \<and> map fst snaps = ks
          \<and> (\<forall>(k, snap) \<in> set snaps. read_snapshot r s k = Inr snap
               \<and> (\<forall>root \<in> set (sn_roots snap). rt_tree root \<in> live_ids reach'))))"
proof (induction ks arbitrary: reach)
  case Nil
  then show ?case by simp
next
  case (Cons key ks)
  show ?case
  proof (cases "read_snapshot r s key")
    case (Inl e)
    have "walk_covered r s lc ([], add_error (SnapshotUnreadable key e) reach)" by (simp add: walk_covered_def)
    with Cons Inl have "walk_covered r s lc ([], reach')" "reach_grows (add_error (SnapshotUnreadable key e) reach) reach'"
      by (simp_all del: add_error_simps)
    then show ?thesis by (auto simp: reach_grows_def)
  next
    case (Inr snap)
    let ?reach0 = "reach\<lparr>re_snapshots := re_snapshots reach @ [(key, snap)]\<rparr>"
    obtain reach1 where w: "walk_roots r s lc key (map rt_tree (sn_roots snap)) ?reach0 = Some reach1"
      and rest: "walk_snapshots r s lc ks reach1 = Some reach'"
      using Cons.prems(1) Inr by (auto split: option.splits)
    have "walk_covered r s lc ([], ?reach0)" using Cons.prems(2) by (simp add: walk_covered_def live_ids_def)
    note one = walk_roots_result [OF w this]
    then have IH: "walk_covered r s lc ([], reach')" "reach_grows reach1 reach'"
      "re_errors reach' = [] \<longrightarrow> (\<exists>snaps. re_snapshots reach' = re_snapshots reach1 @ snaps \<and> map fst snaps = ks
          \<and> (\<forall>(k, snap) \<in> set snaps. read_snapshot r s k = Inr snap
               \<and> (\<forall>root \<in> set (sn_roots snap). rt_tree root \<in> live_ids reach')))"
      using Cons.IH [OF rest] by blast+
    have "reach_grows ?reach0 reach'" using one IH(2) reach_grows_trans by blast
    then have grows: "reach_grows reach reach'" by (simp add: reach_grows_def live_ids_def)
    have "\<forall>root \<in> set (sn_roots snap). rt_tree root \<in> live_ids reach'"
      using one IH(2) by (auto simp: reach_grows_def)
    moreover have "re_snapshots reach1 = re_snapshots reach @ [(key, snap)]" using one by simp
    moreover have "\<exists>snaps'. re_snapshots reach' = re_snapshots reach @ snaps' \<and> map fst snaps' = key # ks
          \<and> (\<forall>(k, snap) \<in> set snaps'. read_snapshot r s k = Inr snap
               \<and> (\<forall>root \<in> set (sn_roots snap). rt_tree root \<in> live_ids reach'))"
      if ok: "re_errors reach' = []" "\<forall>root \<in> set (sn_roots snap). rt_tree root \<in> live_ids reach'"
        "re_snapshots reach1 = re_snapshots reach @ [(key, snap)]"
    proof -
      obtain snaps where "re_snapshots reach' = re_snapshots reach1 @ snaps" "map fst snaps = ks"
        "\<forall>(k, snap) \<in> set snaps. read_snapshot r s k = Inr snap
               \<and> (\<forall>root \<in> set (sn_roots snap). rt_tree root \<in> live_ids reach')"
        using IH(3) ok(1) by blast
      then show ?thesis using ok(2,3) Inr by (intro exI [of _ "(key, snap) # snaps"]) simp
    qed
    ultimately have "re_errors reach' = [] \<longrightarrow> (\<exists>snaps. re_snapshots reach' = re_snapshots reach @ snaps \<and> map fst snaps = key # ks
          \<and> (\<forall>(k, snap) \<in> set snaps. read_snapshot r s k = Inr snap
               \<and> (\<forall>root \<in> set (sn_roots snap). rt_tree root \<in> live_ids reach')))" by blast
    with IH(1) grows show ?thesis by blast
  qed
qed

lemma covered_closed:
  assumes "walk_covered r s lc ([], reach)" "re_errors reach = []" "t \<in> live_ids reach" "(tree_edge r s)\<^sup>*\<^sup>* t u"
  shows "u \<in> live_ids reach"
  using assms(4)
proof (induction rule: rtranclp_induct)
  case base
  show ?case by (rule assms(3))
next
  case (step u v)
  have "tree_covered r s lc (live_ids reach) (set (re_referenced reach)) {} u"
    using assms(1,2) step.IH by (simp add: walk_covered_def)
  with step.hyps(2) show ?case by (auto simp: tree_covered_def tree_edge_def entry_covered_def)
qed

lemma walk_references_found:
  assumes "walk_references r s lc = Some (Inr reach)" "re_errors reach = []"
  shows "list_snapshot_keys r s = Inr (map fst (re_snapshots reach))
    \<and> (\<forall>(k, snap) \<in> set (re_snapshots reach). read_snapshot r s k = Inr snap
         \<and> (\<forall>root t. root \<in> set (sn_roots snap) \<longrightarrow> (tree_edge r s)\<^sup>*\<^sup>* (rt_tree root) t \<longrightarrow>
              tree_object t \<in> re_live_trees reach
              \<and> (\<exists>tree. read_tree r s t = Inr tree \<and> (\<forall>e \<in> set (tr_entries tree). en_kind e = NT_FILE \<longrightarrow>
                   (\<exists>cs. file_chunks r s lc e cs \<and> cs \<subseteq> set (re_referenced reach) \<and> (\<forall>c \<in> cs. lc_contains lc c))))))"
proof -
  from assms(1) obtain ks where ks: "list_snapshot_keys r s = Inr ks"
    and w: "walk_snapshots r s lc ks reach_default = Some reach"
    by (auto simp: walk_references_def split: sum.splits)
  have "walk_covered r s lc ([], reach_default)" by (simp add: walk_covered_def reach_default_def live_ids_def)
  note res = walk_snapshots_result [OF w this]
  then have covered: "walk_covered r s lc ([], reach)" by simp
  have snaps: "map fst (re_snapshots reach) = ks"
    "\<forall>(k, snap) \<in> set (re_snapshots reach). read_snapshot r s k = Inr snap
        \<and> (\<forall>root \<in> set (sn_roots snap). rt_tree root \<in> live_ids reach)"
    using res assms(2) by (auto simp: reach_default_def)
  have "tree_object t \<in> re_live_trees reach
      \<and> (\<exists>tree. read_tree r s t = Inr tree \<and> (\<forall>e \<in> set (tr_entries tree). en_kind e = NT_FILE \<longrightarrow>
           (\<exists>cs. file_chunks r s lc e cs \<and> cs \<subseteq> set (re_referenced reach) \<and> (\<forall>c \<in> cs. lc_contains lc c))))"
    if "u \<in> live_ids reach" "(tree_edge r s)\<^sup>*\<^sup>* u t" for u t
  proof -
    have t: "t \<in> live_ids reach" by (rule covered_closed [OF covered assms(2) that])
    then have "tree_covered r s lc (live_ids reach) (set (re_referenced reach)) {} t"
      using covered assms(2) by (simp add: walk_covered_def)
    with t show ?thesis by (auto simp: tree_covered_def entry_covered_def live_ids_def)
  qed
  note all = this
  show ?thesis
  proof (intro conjI)
    show "list_snapshot_keys r s = Inr (map fst (re_snapshots reach))" using ks snaps(1) by simp
    show "\<forall>(k, snap) \<in> set (re_snapshots reach). read_snapshot r s k = Inr snap
         \<and> (\<forall>root t. root \<in> set (sn_roots snap) \<longrightarrow> (tree_edge r s)\<^sup>*\<^sup>* (rt_tree root) t \<longrightarrow>
              tree_object t \<in> re_live_trees reach
              \<and> (\<exists>tree. read_tree r s t = Inr tree \<and> (\<forall>e \<in> set (tr_entries tree). en_kind e = NT_FILE \<longrightarrow>
                   (\<exists>cs. file_chunks r s lc e cs \<and> cs \<subseteq> set (re_referenced reach) \<and> (\<forall>c \<in> cs. lc_contains lc c)))))"
    proof (intro ballI, clarify)
      fix k snap assume "(k, snap) \<in> set (re_snapshots reach)"
      with snaps(2) have read: "read_snapshot r s k = Inr snap"
        and roots: "\<forall>root \<in> set (sn_roots snap). rt_tree root \<in> live_ids reach" by auto
      show "read_snapshot r s k = Inr snap \<and> (\<forall>root t. root \<in> set (sn_roots snap) \<longrightarrow>
          (tree_edge r s)\<^sup>*\<^sup>* (rt_tree root) t \<longrightarrow> tree_object t \<in> re_live_trees reach
          \<and> (\<exists>tree. read_tree r s t = Inr tree \<and> (\<forall>e \<in> set (tr_entries tree). en_kind e = NT_FILE \<longrightarrow>
               (\<exists>cs. file_chunks r s lc e cs \<and> cs \<subseteq> set (re_referenced reach) \<and> (\<forall>c \<in> cs. lc_contains lc c)))))"
        by (intro conjI [OF read] allI impI) (rule all, use roots in auto)
    qed
  qed
qed

text \<open>C28: a walk that reports no error has missed nothing: every snapshot was read, and every tree
  that can be reached from a root of one of them - through subdirectories and through the earlier
  segments of a directory, to any depth - is among the live trees and was read, and all chunks of
  its files, including the chunks that hold a chunk list, are among the referenced chunks and
  known to the index.\<close>

theorem walk_references_complete:
  assumes "walk_references r s lc = Some (Inr reach)" "re_errors reach = []"
  shows "list_snapshot_keys r s = Inr (map fst (re_snapshots reach))
    \<and> (\<forall>(k, snap) \<in> set (re_snapshots reach). read_snapshot r s k = Inr snap
         \<and> (\<forall>root t. root \<in> set (sn_roots snap) \<longrightarrow> (tree_edge r s)\<^sup>*\<^sup>* (rt_tree root) t \<longrightarrow>
              tree_object t \<in> re_live_trees reach
              \<and> (\<exists>tree. read_tree r s t = Inr tree \<and> (\<forall>e \<in> set (tr_entries tree). en_kind e = NT_FILE \<longrightarrow>
                   (\<exists>cs. file_chunks r s lc e cs \<and> cs \<subseteq> set (re_referenced reach) \<and> (\<forall>c \<in> cs. lc_contains lc c))))))"
  using assms by (rule walk_references_found)

section \<open>The walk ends\<close>

fun task_weight :: "task \<Rightarrow> nat" where
  "task_weight (Visit t d) = 1"
| "task_weight (Nodes k d es) = 1 + 2 * length es"

lemma walk_step_measure:
  assumes "finite A" "{t. \<exists>tree. read_tree r s t = Inr tree} \<subseteq> A" "fst a \<noteq> []"
  shows "((card (A - live_ids (snd (walk_step r s lc ctx a))), sum_list (map task_weight (fst (walk_step r s lc ctx a)))),
      (card (A - live_ids (snd a)), sum_list (map task_weight (fst a)))) \<in> less_than <*lex*> less_than"
proof (cases a rule: walk_cases)
  case (visit t depth rest reach)
  show ?thesis
  proof (cases "t \<in> live_ids reach")
    case True
    with visit show ?thesis by (simp add: live_ids_def)
  next
    case False
    then have new: "tree_object t \<notin> re_live_trees reach" by (simp add: live_ids_def)
    show ?thesis
    proof (cases "read_tree r s t")
      case (Inl e)
      have "card (A - insert t (live_ids reach)) \<le> card (A - live_ids reach)"
        using assms(1) by (intro card_mono) auto
      with visit new Inl show ?thesis by (auto simp: Let_def)
    next
      case (Inr tree)
      then have "t \<in> A" using assms(2) by blast
      with False assms(1) have "card (A - insert t (live_ids reach)) < card (A - live_ids reach)"
        by (intro psubset_card_mono) auto
      with visit new Inr show ?thesis by (simp add: Let_def)
    qed
  qed
next
  case (nodes key depth node es rest reach)
  then show ?thesis by simp
qed (use assms(3) in simp_all)

lemma walk_tree_ends:
  assumes "finite {t. \<exists>tree. read_tree r s t = Inr tree}"
  shows "\<exists>reach'. walk_tree r s lc ctx t reach = Some reach'"
proof -
  let ?A = "{t. \<exists>tree. read_tree r s t = Inr tree}"
  let ?f = "\<lambda>a. (card (?A - live_ids (snd a)), sum_list (map task_weight (fst a)))"
  have "wf (inv_image (less_than <*lex*> less_than) ?f)" by (intro wf_inv_image wf_lex_prod wf_less_than)
  then have "wf {(b, a). (True \<and> (case a of (stack, _) \<Rightarrow> stack \<noteq> [])) \<and> b = walk_step r s lc ctx a}"
    by (rule wf_subset) (use walk_step_measure [OF assms subset_refl] in \<open>fastforce simp: in_inv_image\<close>)
  then have "\<exists>x. while_option (\<lambda>(stack, _). stack \<noteq> []) (walk_step r s lc ctx) ([Visit t 1], reach) = Some x"
    by (rule wf_while_option_Some) simp_all
  then show ?thesis by (auto simp: walk_tree_def)
qed

lemma walk_roots_ends:
  "finite {t. \<exists>tree. read_tree r s t = Inr tree} \<Longrightarrow> \<exists>reach'. walk_roots r s lc ctx ts reach = Some reach'"
proof (induction ts arbitrary: reach)
  case (Cons t ts)
  obtain reach1 where "walk_tree r s lc ctx t reach = Some reach1" using walk_tree_ends [OF Cons.prems] by blast
  with Cons show ?case by simp
qed simp

lemma walk_snapshots_ends:
  "finite {t. \<exists>tree. read_tree r s t = Inr tree} \<Longrightarrow> \<exists>reach'. walk_snapshots r s lc ks reach = Some reach'"
proof (induction ks arbitrary: reach)
  case (Cons k ks)
  show ?case
  proof (cases "read_snapshot r s k")
    case (Inl e)
    with Cons show ?thesis by simp
  next
    case (Inr snap)
    obtain reach1 where "walk_roots r s lc k (map rt_tree (sn_roots snap)) (reach\<lparr>re_snapshots := re_snapshots reach @ [(k, snap)]\<rparr>) = Some reach1"
      using walk_roots_ends [OF Cons.prems] by blast
    with Cons Inr show ?thesis by simp
  qed
qed simp

text \<open>C29: the walk returns on any repository, however damaged or hostile: directories that contain
  themselves, chains of segments that loop and nesting of any depth all end, because a tree is
  visited once.\<close>

theorem walk_references_total:
  assumes "store_ok (rp_ops r) objs" "hex_ok (rp_ext r)" "finite {k. objs s k \<noteq> None}"
  shows "\<exists>res. walk_references r s lc = Some res"
  using walk_snapshots_ends [OF readable_trees_finite [OF assms], of lc _ reach_default]
  by (auto simp: walk_references_def split: sum.splits)

section \<open>Witnesses\<close>

definition demo_walk_snapshot :: snapshot where
  "demo_walk_snapshot = demo_snapshot\<lparr>sn_roots := [\<lparr>rt_path = [47], rt_tree = TreeId (pad32 [1])\<rparr>]\<rparr>"

definition demo_walk_repo :: "map_state repository" where
  "demo_walk_repo = demo_repo 0 [new_tree [] (Some (TreeId [])), new_tree [] None] [demo_walk_snapshot] []"

definition demo_walk_state :: map_state where
  "demo_walk_state = ([(demo_snap_key, replicate 24 0 @ [0] @ demo_tag (rk_meta (rp_keys demo_walk_repo)) (ascii demo_snap_key), 0),
     (tree_key demo_ext (TreeId (pad32 [1])), replicate 24 0 @ [1] @ demo_tag (rk_meta (rp_keys demo_walk_repo)) (pad32 [1]), 0)], 0)"

lemma demo_walk_simps [simp]:
  "rp_ops demo_walk_repo = map_store" "rp_ext demo_walk_repo = demo_ext" "ev_parse_ts (rp_env demo_walk_repo) tx = Inr 0"
  "ev_snapshot (rp_env demo_walk_repo) = demo_codec [demo_walk_snapshot]"
  "ev_tree (rp_env demo_walk_repo) = demo_codec [new_tree [] (Some (TreeId [])), new_tree [] None]"
  by (simp_all add: demo_walk_repo_def)

lemma pad32_1: "pad32 [1] \<noteq> replicate 32 0"
  by (simp add: pad32_def upt_rec numeral_eq_Suc)

lemma demo_walk_tree: "read_tree demo_walk_repo demo_walk_state (TreeId (pad32 [1])) = Inr (new_tree [] None)"
proof -
  let ?t = "TreeId (pad32 [1])" and ?c = "demo_codec [new_tree [] (Some (TreeId [])), new_tree [] None]"
  have "demo_snap_key \<noteq> tree_key demo_ext ?t"
    by (simp add: demo_snap_key_def snapshot_key_def key_defs SNAPSHOTS_PREFIX_def TREES_PREFIX_def)
  then have g: "backend_get map_store (tree_key demo_ext ?t) demo_walk_state
      = Inr (replicate 24 0 @ [1] @ demo_tag (rk_meta (rp_keys demo_walk_repo)) (pad32 [1]))"
    by (intro live_get(1) [OF map_store_ok map_store_live, where tm = 0]) (simp add: map_objs_def demo_walk_state_def)
  have o: "open_tree demo_ext (rp_keys demo_walk_repo) ?t
      (replicate 24 0 @ [1] @ demo_tag (rk_meta (rp_keys demo_walk_repo)) (pad32 [1])) = Inr [1]"
    unfolding open_tree_def tree_id.sel by (rule open_seal(1) [OF demo_aead_ok demo_nonce_ok demo_seal])
  have "cbor_encode ?c (new_tree [] None) = Inr [1]"
    by (simp add: demo_codec_def cbor_encode_def new_tree_def upt_rec)
  then have d: "cbor_decode_as ?c [1] = Inr (new_tree [] None)"
    by (intro codec_roundtrip [OF demo_codec_ok [where V = UNIV]]) simp_all
  have "tree_validate (new_tree [] None) = Inr ()" by (simp add: tree_validate_def new_tree_def)
  with g o d have "read_tree_once demo_walk_repo demo_walk_state (tree_key demo_ext ?t) ?t = Inr (new_tree [] None)"
    by (auto simp: read_tree_once_Inr tree_copy_def tree_id_of_def)
  then show ?thesis by (simp add: read_tree_def)
qed

lemma demo_walk_snap: "read_snapshot demo_walk_repo demo_walk_state demo_snap_key = Inr demo_walk_snapshot"
proof -
  have g: "backend_get map_store demo_snap_key demo_walk_state
      = Inr (replicate 24 0 @ [0] @ demo_tag (rk_meta (rp_keys demo_walk_repo)) (ascii demo_snap_key))"
    by (rule live_get(1) [OF map_store_ok map_store_live, where tm = 0]) (simp add: map_objs_def demo_walk_state_def)
  have o: "open_snapshot demo_ext (rp_keys demo_walk_repo) demo_snap_key
      (replicate 24 0 @ [0] @ demo_tag (rk_meta (rp_keys demo_walk_repo)) (ascii demo_snap_key)) = Inr [0]"
    unfolding open_snapshot_def by (rule open_seal(1) [OF demo_aead_ok demo_nonce_ok demo_seal])
  have "snapshot_validate demo_walk_snapshot = Inr ()"
    using pad32_1 by (simp add: snapshot_validate_def demo_walk_snapshot_def demo_snapshot_def tree_is_zero_def TREE_ZERO_def zero_id_def)
  then have p: "parse_snapshot (demo_codec [demo_walk_snapshot]) [0] = Inr demo_walk_snapshot" by (simp add: parse_snapshot_def)
  have k: "snapshot_key demo_ext (sn_client_id demo_walk_snapshot) ''t'' = demo_snap_key"
    "length (sn_client_id demo_walk_snapshot) = 16" "sn_time_ns demo_walk_snapshot = 0"
    by (simp_all add: demo_walk_snapshot_def demo_snapshot_def demo_snap_key_def)
  show ?thesis
    unfolding read_snapshot_def get_snapshot_bytes_def demo_walk_simps g
    using o p k by (simp add: demo_snap_ts parse_key_timestamp_def fits_i64_def)
qed

lemma demo_walk_keys: "list_snapshot_keys demo_walk_repo demo_walk_state = Inr [demo_snap_key]"
  by (simp add: list_snapshot_keys_def backend_list_def backend_path_def map_store_def demo_walk_state_def
      map_meta_def from_meta_def timestamp_ok_def MIN_TIMESTAMP_def MAX_TIMESTAMP_def under_prefix_def
      starts_with_def demo_snap_key_def snapshot_key_def SNAPSHOTS_PREFIX_def ends_with_def REPLICA_SUFFIX_def
      tree_key_def TREES_PREFIX_def)

lemma demo_walk:
  "walk_references demo_walk_repo demo_walk_state lc = Some (Inr \<lparr>re_snapshots = [(demo_snap_key, demo_walk_snapshot)],
     re_live_trees = {tree_object (TreeId (pad32 [1]))}, re_referenced = [], re_errors = [], re_visits = []\<rparr>)"
  by (simp add: walk_references_def demo_walk_keys demo_walk_snap walk_tree_def while_option_unfold demo_walk_tree
      reach_default_def Let_def) (simp add: demo_walk_snapshot_def walk_tree_def while_option_unfold demo_walk_tree
      new_tree_def Let_def)

theorem walk_references_complete_witness:
  "\<exists>reach. walk_references demo_walk_repo demo_walk_state (index_view new_index) = Some (Inr reach)
     \<and> tree_object (TreeId (pad32 [1])) \<in> re_live_trees reach"
proof -
  let ?reach = "\<lparr>re_snapshots = [(demo_snap_key, demo_walk_snapshot)],
     re_live_trees = {tree_object (TreeId (pad32 [1]))}, re_referenced = [], re_errors = [], re_visits = []\<rparr>"
  have "re_errors ?reach = []" by simp
  from walk_references_complete [OF demo_walk this]
  have "\<forall>root t. root \<in> set (sn_roots demo_walk_snapshot) \<longrightarrow> (tree_edge demo_walk_repo demo_walk_state)\<^sup>*\<^sup>* (rt_tree root) t
      \<longrightarrow> tree_object t \<in> re_live_trees ?reach" by simp
  then have "tree_object (TreeId (pad32 [1])) \<in> re_live_trees ?reach" by (simp add: demo_walk_snapshot_def)
  with demo_walk show ?thesis by blast
qed

theorem walk_references_total_witness: "\<exists>res. walk_references demo_walk_repo demo_walk_state (index_view new_index) = Some res"
proof -
  have "finite {k. map_objs demo_walk_state k \<noteq> None}"
    using finite_dom_map_of [of "fst demo_walk_state"] by (simp add: map_objs_def dom_def)
  from walk_references_total [where objs = map_objs, OF _ _ this, of demo_walk_repo] show ?thesis
    by (simp add: map_store_ok demo_hex_ok)
qed

end
