(* ===== verification/Prune_Index.thy ===== *)
theory Prune_Index
  imports Reach
begin

text \<open>
  The \<open>PruneIndex\<close> of \<open>crates/kist-core/src/prune.rs\<close>: every (chunk, pack) pair of the effective
  index, sorted, from which \<open>prune\<close> looks up chunks, chooses the canonical pack of every referenced
  chunk and answers what a repack has to move. The unstable sort is the stable one: elements it
  cannot tell apart have the same chunk, pack and offset.
\<close>

record prune_index =
  px_records :: "table_record list"
  px_referenced :: "bool list"

abbreviation tb_pack :: "table_record \<Rightarrow> object_id" where "tb_pack r \<equiv> lo_pack (tb_location r)"

definition prune_index_new :: "table_record list \<Rightarrow> prune_index" where
  "prune_index_new rs =
     (let records = dedup_by (\<lambda>later earlier. tb_id later = tb_id earlier \<and> tb_pack later = tb_pack earlier)
            (sort_key (\<lambda>r. (tb_id r, tb_pack r, lo_offset (tb_location r))) rs)
      in \<lparr>px_records = records, px_referenced = replicate (length records) False\<rparr>)"

definition px_group :: "prune_index \<Rightarrow> chunk_id \<Rightarrow> nat \<times> nat" where
  "px_group x i =
     (let lo = partition_point (\<lambda>r. tb_id r < i) (px_records x)
      in (lo, lo + partition_point (\<lambda>r. tb_id r = i) (drop lo (px_records x))))"

definition px_range :: "prune_index \<Rightarrow> chunk_id \<Rightarrow> nat list" where
  "px_range x i = (case px_group x i of (lo, hi) \<Rightarrow> [lo..<hi])"

function skip_to :: "table_record list \<Rightarrow> chunk_id \<Rightarrow> nat \<Rightarrow> nat" where
  "skip_to rs chunk pos =
     (if pos < length rs \<and> tb_id (rs ! pos) < chunk then skip_to rs chunk (pos + 1) else pos)"
  by pat_completeness auto
termination by (relation "measure (\<lambda>(rs, chunk, pos). length rs - pos)") auto

function scan_group :: "table_record list \<Rightarrow> chunk_id \<Rightarrow> (object_id \<Rightarrow> bool) \<Rightarrow> object_id set \<Rightarrow> nat \<Rightarrow>
    (object_id \<times> nat) option \<Rightarrow> bool list \<Rightarrow> (object_id \<times> nat) option \<times> bool list" where
  "scan_group rs chunk is_marked phantoms i best flags =
     (if i < length rs \<and> tb_id (rs ! i) = chunk then
        let pid = tb_pack (rs ! i)
        in if pid \<in> phantoms then scan_group rs chunk is_marked phantoms (i + 1) best flags
           else let better = (case best of None \<Rightarrow> True
                  | Some (bp, l) \<Rightarrow> canonical_rank pid is_marked < canonical_rank bp is_marked)
             in scan_group rs chunk is_marked phantoms (i + 1)
                  (if better then Some (pid, lo_length (tb_location (rs ! i))) else best) (flags[i := True])
      else (best, flags))"
  by pat_completeness auto
termination by (relation "measure (\<lambda>(rs, chunk, m, ph, i, best, flags). length rs - i)") auto

declare skip_to.simps [simp del] scan_group.simps [simp del]

definition add_live :: "object_id \<Rightarrow> nat \<Rightarrow> (object_id \<rightharpoonup> nat) \<Rightarrow> (object_id \<rightharpoonup> nat)" where
  "add_live pack len live = live(pack \<mapsto> add64 (case live pack of None \<Rightarrow> 0 | Some n \<Rightarrow> n) len)"

fun canonicalize :: "table_record list \<Rightarrow> (object_id \<Rightarrow> bool) \<Rightarrow> object_id set \<Rightarrow> chunk_id list \<Rightarrow> nat \<Rightarrow> bool list
    \<Rightarrow> object_id set \<Rightarrow> (object_id \<rightharpoonup> nat) \<Rightarrow> core_error + (bool list \<times> object_id set \<times> (object_id \<rightharpoonup> nat))" where
  "canonicalize rs is_marked phantoms [] pos flags needed live = Inr (flags, needed, live)"
| "canonicalize rs is_marked phantoms (chunk # cs) pos flags needed live =
     (let pos' = skip_to rs chunk pos
      in case scan_group rs chunk is_marked phantoms pos' None flags of
           (None, flags') \<Rightarrow> Inl (Unsafe ''chunk is referenced but no existing pack holds it'')
         | (Some (pack, len), flags') \<Rightarrow>
             canonicalize rs is_marked phantoms cs pos' flags' (insert pack needed) (add_live pack len live))"

definition mark_and_canonicalize :: "prune_index \<Rightarrow> chunk_id list \<Rightarrow> (object_id \<Rightarrow> bool) \<Rightarrow> object_id set
    \<Rightarrow> core_error + (prune_index \<times> object_id set \<times> (object_id \<rightharpoonup> nat))" where
  "mark_and_canonicalize x ref_ids is_marked phantoms =
     and_then (canonicalize (px_records x) is_marked phantoms (dedup_by (=) (sort ref_ids)) 0 (px_referenced x) {} Map.empty)
       (\<lambda>(flags, needed, live). Inr (x\<lparr>px_referenced := flags\<rparr>, needed, live))"

definition px_is_referenced :: "prune_index \<Rightarrow> chunk_id \<Rightarrow> bool" where
  "px_is_referenced x i = list_ex (\<lambda>j. px_referenced x ! j) (px_range x i)"

definition px_held_by :: "prune_index \<Rightarrow> chunk_id \<Rightarrow> object_id set \<Rightarrow> bool" where
  "px_held_by x i packs = list_ex (\<lambda>j. tb_pack (px_records x ! j) \<in> packs) (px_range x i)"

definition px_contains :: "prune_index \<Rightarrow> chunk_id \<Rightarrow> bool" where
  "px_contains x i \<longleftrightarrow> px_range x i \<noteq> []"

definition px_get :: "prune_index \<Rightarrow> chunk_id \<Rightarrow> chunk_location option" where
  "px_get x i = (case px_range x i of [] \<Rightarrow> None | j # js \<Rightarrow> Some (tb_location (px_records x ! j)))"

interpretation prune_locator: chunk_locator px_contains px_get
  by unfold_locales (simp add: px_contains_def px_get_def split: list.splits)

definition prune_view :: "prune_index \<Rightarrow> locator" where
  "prune_view x = \<lparr>lc_contains = px_contains x, lc_get = px_get x\<rparr>"

lemma prune_view_ok: "locator_ok (prune_view x)"
  by (simp add: locator_ok_def prune_view_def prune_locator.contains_get)

section \<open>Groups\<close>

text \<open>What the constructor establishes: sorted by chunk and pack, each pair once.\<close>

definition px_sorted :: "table_record list \<Rightarrow> bool" where
  "px_sorted rs \<longleftrightarrow> sorted_wrt (<) (map (\<lambda>r. (tb_id r, tb_pack r)) rs)"

lemma px_sorted_new: "px_sorted (px_records (prune_index_new rs))"
proof -
  let ?f = "\<lambda>r. (tb_id r, tb_pack r)" and ?s = "sort_key (\<lambda>r. (tb_id r, tb_pack r, lo_offset (tb_location r))) rs"
  have "sorted_wrt (\<lambda>a b. (tb_id a, tb_pack a, lo_offset (tb_location a)) \<le> (tb_id b, tb_pack b, lo_offset (tb_location b))) ?s"
    using sorted_sort_key [of "\<lambda>r. (tb_id r, tb_pack r, lo_offset (tb_location r))" rs] by (simp add: sorted_map)
  then have "sorted (map ?f ?s)"
    unfolding sorted_map by (rule sorted_wrt_mono_rel [rotated]) (auto simp: less_eq_prod_def)
  from dedup_by_key_strict [OF this] show ?thesis
    by (simp add: px_sorted_def prune_index_new_def Let_def)
qed

lemma px_sorted_ids: "px_sorted rs \<Longrightarrow> i \<le> j \<Longrightarrow> j < length rs \<Longrightarrow> tb_id (rs ! i) \<le> tb_id (rs ! j)"
  unfolding px_sorted_def
  by (cases "i = j") (auto simp: sorted_wrt_iff_nth_less dest!: le_neq_implies_less intro: order_less_imp_le)

lemma px_sorted_packs:
  assumes "px_sorted rs" "i < length rs" "j < length rs" "tb_id (rs ! i) = tb_id (rs ! j)" "tb_pack (rs ! i) = tb_pack (rs ! j)"
  shows "i = j"
  using assms unfolding px_sorted_def by (auto simp: sorted_wrt_iff_nth_less) (metis linorder_neqE_nat order_less_irrefl)

lemma px_records_new_keys:
  "(\<lambda>r. (tb_id r, tb_pack r)) ` set (px_records (prune_index_new rs)) = (\<lambda>r. (tb_id r, tb_pack r)) ` set rs"
proof -
  let ?f = "\<lambda>r. (tb_id r, tb_pack r)" and ?s = "sort_key (\<lambda>r. (tb_id r, tb_pack r, lo_offset (tb_location r))) rs"
  have "sorted_wrt (\<lambda>a b. (tb_id a, tb_pack a, lo_offset (tb_location a)) \<le> (tb_id b, tb_pack b, lo_offset (tb_location b))) ?s"
    using sorted_sort_key [of "\<lambda>r. (tb_id r, tb_pack r, lo_offset (tb_location r))" rs] by (simp add: sorted_map)
  then have "sorted (map ?f ?s)"
    unfolding sorted_map by (rule sorted_wrt_mono_rel [rotated]) (auto simp: less_eq_prod_def)
  from dedup_by_key_image [OF this] show ?thesis by (simp add: prune_index_new_def Let_def)
qed

section \<open>The scan of a group is a minimum\<close>

definition holder_min :: "(object_id \<Rightarrow> bool) \<Rightarrow> table_record list \<Rightarrow> table_record option" where
  "holder_min m rs = (case sort_key (\<lambda>r. canonical_rank (tb_pack r) m) rs of [] \<Rightarrow> None | r # _ \<Rightarrow> Some r)"

definition live_holders :: "table_record list \<Rightarrow> object_id set \<Rightarrow> chunk_id \<Rightarrow> table_record list" where
  "live_holders rs ph c = filter (\<lambda>r. tb_id r = c \<and> tb_pack r \<notin> ph) rs"

abbreviation pack_len :: "table_record \<Rightarrow> object_id \<times> nat" where
  "pack_len r \<equiv> (tb_pack r, lo_length (tb_location r))"

definition better_holder :: "(object_id \<Rightarrow> bool) \<Rightarrow> table_record \<Rightarrow> table_record \<Rightarrow> table_record" where
  "better_holder m a r = (if canonical_rank (tb_pack r) m < canonical_rank (tb_pack a) m then r else a)"

lemma hd_insort_key: "hd (insort_key f x ys) = (if ys = [] \<or> f x \<le> f (hd ys) then x else hd ys)"
  by (cases ys) auto

lemma insort_key_not_Nil [simp]: "insort_key f x ys \<noteq> []"
  by (cases ys) auto

lemma holder_min_Some: "holder_min m (a # rs) = Some (foldl (better_holder m) a rs)"
proof (induction rs arbitrary: a)
  case (Cons r rs)
  let ?k = "\<lambda>r. canonical_rank (tb_pack r) m"
  have min: "holder_min m (x # xs) = Some (hd (sort_key ?k (x # xs)))" for x xs
    by (simp add: holder_min_def split: list.splits)
  have "hd (sort_key ?k (a # r # rs)) = hd (sort_key ?k (better_holder m a r # rs))"
    by (auto simp: hd_insort_key better_holder_def)
  with Cons [of "better_holder m a r"] show ?case by (simp add: min)
qed (simp add: holder_min_def)

lemma holder_min_sorted:
  assumes "holder_min m rs = Some r"
  obtains xs where "sort_key (\<lambda>r. canonical_rank (tb_pack r) m) rs = r # xs" "set rs = insert r (set xs)"
    "\<forall>x \<in> set xs. canonical_rank (tb_pack r) m \<le> canonical_rank (tb_pack x) m"
proof -
  from assms obtain xs where xs: "sort_key (\<lambda>r. canonical_rank (tb_pack r) m) rs = r # xs"
    by (auto simp: holder_min_def split: list.splits)
  from set_sort [of "\<lambda>r. canonical_rank (tb_pack r) m" rs] have "set rs = insert r (set xs)" by (simp add: xs)
  moreover from sorted_sort_key [of "\<lambda>r. canonical_rank (tb_pack r) m" rs]
  have "\<forall>x \<in> set xs. canonical_rank (tb_pack r) m \<le> canonical_rank (tb_pack x) m" by (simp add: xs)
  ultimately show thesis using that xs by simp
qed

lemma holder_min_in: "holder_min m rs = Some r \<Longrightarrow> r \<in> set rs"
  by (erule holder_min_sorted) simp

lemma holder_min_le: "holder_min m rs = Some r \<Longrightarrow> q \<in> set rs \<Longrightarrow> canonical_rank (tb_pack r) m \<le> canonical_rank (tb_pack q) m"
  by (erule holder_min_sorted) auto

lemma holder_min_None: "holder_min m rs = None \<longleftrightarrow> rs = []"
  by (cases rs) (simp_all add: holder_min_def holder_min_Some split: list.splits)

text \<open>The scan reads the run of the chunk that starts at its index.\<close>

definition run_at :: "table_record list \<Rightarrow> chunk_id \<Rightarrow> nat \<Rightarrow> table_record list" where
  "run_at rs c i = takeWhile (\<lambda>r. tb_id r = c) (drop i rs)"

lemma run_at_step:
  "run_at rs c i = (if i < length rs \<and> tb_id (rs ! i) = c then rs ! i # run_at rs c (i + 1) else [])"
proof (cases "i < length rs")
  case True
  then show ?thesis by (simp add: run_at_def Cons_nth_drop_Suc [OF True, symmetric])
qed (simp add: run_at_def)

lemma scan_group_best:
  "fst (scan_group rs c m ph i best flags) =
     (let run = filter (\<lambda>r. tb_pack r \<notin> ph) (run_at rs c i)
      in case best of None \<Rightarrow> map_option pack_len (holder_min m run)
         | Some (p, l) \<Rightarrow> Some (foldl (\<lambda>(bp, bl) r. if canonical_rank (tb_pack r) m < canonical_rank bp m
              then pack_len r else (bp, bl)) (p, l) run))"
proof (induction rs c m ph i best flags rule: scan_group.induct)
  case (1 rs c m ph i best flags)
  have fold: "foldl (\<lambda>(bp, bl) r. if canonical_rank (tb_pack r) m < canonical_rank bp m then pack_len r else (bp, bl))
      (pack_len a) xs = pack_len (foldl (better_holder m) a xs)" for a xs
    by (induction xs arbitrary: a) (auto simp: better_holder_def)
  show ?case
  proof (cases "i < length rs \<and> tb_id (rs ! i) = c")
    case False
    then show ?thesis
      by (simp only: scan_group.simps [of rs c m ph i] run_at_step [of rs c i] if_not_P [OF False])
        (simp add: holder_min_def split: option.splits)
  next
    case True
    show ?thesis
      by (simp only: scan_group.simps [of rs c m ph i] run_at_step [of rs c i] if_P [OF True])
        (use 1 True in \<open>auto simp: Let_def holder_min_Some fold split: option.splits\<close>)
  qed
qed

lemma scan_group_flags:
  "length flags = length rs \<Longrightarrow>
   snd (scan_group rs c m ph i best flags) =
     map (\<lambda>j. flags ! j \<or> (i \<le> j \<and> j < i + length (run_at rs c i) \<and> tb_pack (rs ! j) \<notin> ph)) [0..<length rs]"
proof (induction rs c m ph i best flags rule: scan_group.induct)
  case (1 rs c m ph i best flags)
  show ?case
  proof (cases "i < length rs \<and> tb_id (rs ! i) = c")
    case False
    then have "run_at rs c i = []" by (subst run_at_step) (rule if_not_P [OF False])
    with 1(3) show ?thesis
      by (simp only: scan_group.simps [of rs c m ph i] if_not_P [OF False]) (rule nth_equalityI; auto)
  next
    case True
    then have run: "length (run_at rs c i) = Suc (length (run_at rs c (i + 1)))"
      by (simp only: run_at_step [of rs c i] if_P [OF True]) simp
    show ?thesis
    proof (cases "tb_pack (rs ! i) \<in> ph")
      case phantom: True
      from 1(1) [OF True refl phantom 1(3)] phantom True show ?thesis
        by (simp only: scan_group.simps [of rs c m ph i] if_P [OF True] run Let_def if_P [OF phantom])
          (auto simp: not_less_eq_eq le_less_Suc_eq intro: Suc_leI le_neq_implies_less)
    next
      case held: False
      from 1(2) [OF True refl held refl] 1(3) held True show ?thesis
        by (simp only: scan_group.simps [of rs c m ph i] if_P [OF True] run Let_def if_not_P [OF held])
          (auto simp: nth_list_update not_less_eq_eq le_less_Suc_eq)
    qed
  qed
qed

lemma skip_to_props:
  assumes "pos \<le> length rs"
  shows "pos \<le> skip_to rs c pos" "skip_to rs c pos \<le> length rs"
    "\<And>j. pos \<le> j \<Longrightarrow> j < skip_to rs c pos \<Longrightarrow> tb_id (rs ! j) < c"
    "skip_to rs c pos < length rs \<Longrightarrow> c \<le> tb_id (rs ! skip_to rs c pos)"
proof -
  have "pos \<le> skip_to rs c pos \<and> skip_to rs c pos \<le> length rs
    \<and> (\<forall>j. pos \<le> j \<longrightarrow> j < skip_to rs c pos \<longrightarrow> tb_id (rs ! j) < c)
    \<and> (skip_to rs c pos < length rs \<longrightarrow> c \<le> tb_id (rs ! skip_to rs c pos))"
    using assms
  proof (induction rs c pos rule: skip_to.induct)
    case (1 rs c pos)
    show ?case
    proof (cases "pos < length rs \<and> tb_id (rs ! pos) < c")
      case True
      have "skip_to rs c pos = skip_to rs c (pos + 1)" by (simp only: skip_to.simps [of rs c pos] if_P [OF True])
      moreover have "tb_id (rs ! j) < c" if "pos \<le> j" "j < skip_to rs c (pos + 1)" for j
        using that True 1(1) [OF True] by (cases "j = pos") auto
      ultimately show ?thesis using 1(1) [OF True] True by auto
    next
      case False
      have "skip_to rs c pos = pos" by (simp only: skip_to.simps [of rs c pos] if_not_P [OF False])
      with False 1(2) show ?thesis by auto
    qed
  qed
  then show "pos \<le> skip_to rs c pos" "skip_to rs c pos \<le> length rs"
    "\<And>j. pos \<le> j \<Longrightarrow> j < skip_to rs c pos \<Longrightarrow> tb_id (rs ! j) < c"
    "skip_to rs c pos < length rs \<Longrightarrow> c \<le> tb_id (rs ! skip_to rs c pos)"
    by auto
qed

text \<open>Once everything before an index is below the chunk, the run at that index is the whole group.\<close>

lemma run_at_index:
  assumes "px_sorted rs" "i \<le> length rs" "\<And>j. j < i \<Longrightarrow> tb_id (rs ! j) < c" "i < length rs \<Longrightarrow> c \<le> tb_id (rs ! i)"
    "j < length rs"
  shows "i \<le> j \<and> j < i + length (run_at rs c i) \<longleftrightarrow> tb_id (rs ! j) = c"
proof
  assume j: "i \<le> j \<and> j < i + length (run_at rs c i)"
  then have "j - i < length (takeWhile (\<lambda>r. tb_id r = c) (drop i rs))" by (auto simp: run_at_def)
  from nth_mem [OF this] set_takeWhileD [of _ "\<lambda>r. tb_id r = c"]
  have "tb_id (takeWhile (\<lambda>r. tb_id r = c) (drop i rs) ! (j - i)) = c" by blast
  with takeWhile_nth [OF \<open>j - i < length (takeWhile (\<lambda>r. tb_id r = c) (drop i rs))\<close>] j assms(2,5)
  show "tb_id (rs ! j) = c" by simp
next
  assume c: "tb_id (rs ! j) = c"
  then have ij: "i \<le> j" using assms(3) [of j] by fastforce
  have "j < i + length (run_at rs c i)"
  proof (rule ccontr)
    let ?k = "length (run_at rs c i)"
    assume "\<not> j < i + ?k"
    with assms(5) have k: "i + ?k \<le> j" "?k < length (drop i rs)" by auto
    from nth_length_takeWhile [of "\<lambda>r. tb_id r = c" "drop i rs"] k assms(2)
    have "tb_id (rs ! (i + ?k)) \<noteq> c" by (simp add: run_at_def)
    moreover have "tb_id (rs ! (i + ?k)) \<le> c" using px_sorted_ids [OF assms(1) k(1) assms(5)] c by simp
    moreover have "c \<le> tb_id (rs ! (i + ?k))"
      using px_sorted_ids [OF assms(1), of i "i + ?k"] k(2) assms(4) by force
    ultimately show False by simp
  qed
  with ij show "i \<le> j \<and> j < i + length (run_at rs c i)" by auto
qed

lemma run_at_group:
  assumes "px_sorted rs" "i \<le> length rs" "\<And>j. j < i \<Longrightarrow> tb_id (rs ! j) < c" "i < length rs \<Longrightarrow> c \<le> tb_id (rs ! i)"
  shows "run_at rs c i = filter (\<lambda>r. tb_id r = c) rs"
proof -
  let ?k = "length (run_at rs c i)"
  have index: "i \<le> j \<and> j < i + ?k \<longleftrightarrow> tb_id (rs ! j) = c" if "j < length rs" for j
    by (rule run_at_index [OF assms that])
  have k: "i + ?k \<le> length rs"
    using length_takeWhile_le [of "\<lambda>r. tb_id r = c" "drop i rs"] assms(2) by (simp add: run_at_def)
  have split: "rs = take i rs @ run_at rs c i @ drop (i + ?k) rs"
    using takeWhile_eq_take [of "\<lambda>r. tb_id r = c" "drop i rs"]
    by (simp add: run_at_def) (metis add.commute append_take_drop_id drop_drop)
  have "filter (\<lambda>r. tb_id r = c) (take i rs) = []"
    using assms(2) by (fastforce simp: filter_empty_conv in_set_conv_nth dest: assms(3))
  moreover have "filter (\<lambda>r. tb_id r = c) (drop (i + ?k) rs) = []"
  proof -
    have "tb_id x \<noteq> c" if "x \<in> set (drop (i + ?k) rs)" for x
    proof -
      from that obtain l where "l < length rs - (i + ?k)" "x = rs ! (i + ?k + l)"
        using k by (auto simp: in_set_conv_nth)
      then have l: "i + ?k + l < length rs" "x = rs ! (i + ?k + l)" by simp_all
      with index [OF l(1)] show ?thesis by simp
    qed
    then show ?thesis by (auto simp: filter_empty_conv)
  qed
  moreover have "filter (\<lambda>r. tb_id r = c) (run_at rs c i) = run_at rs c i"
    by (auto simp: run_at_def filter_id_conv dest: set_takeWhileD)
  moreover from arg_cong [OF split, of "filter (\<lambda>r. tb_id r = c)"]
  have "filter (\<lambda>r. tb_id r = c) rs = filter (\<lambda>r. tb_id r = c) (take i rs)
      @ filter (\<lambda>r. tb_id r = c) (run_at rs c i) @ filter (\<lambda>r. tb_id r = c) (drop (i + ?k) rs)" by simp
  ultimately show ?thesis by simp
qed

definition canonical_holder :: "table_record list \<Rightarrow> (object_id \<Rightarrow> bool) \<Rightarrow> object_id set \<Rightarrow> chunk_id \<Rightarrow> table_record option" where
  "canonical_holder rs m ph c = holder_min m (live_holders rs ph c)"

lemma scan_group_spec:
  assumes "px_sorted rs" "pos \<le> length rs" "\<And>j. j < pos \<Longrightarrow> tb_id (rs ! j) < c" "length flags = length rs"
  shows "scan_group rs c m ph (skip_to rs c pos) None flags =
      (map_option pack_len (canonical_holder rs m ph c),
       map (\<lambda>j. flags ! j \<or> (tb_id (rs ! j) = c \<and> tb_pack (rs ! j) \<notin> ph)) [0..<length rs])"
proof -
  let ?i = "skip_to rs c pos"
  have below: "tb_id (rs ! j) < c" if "j < ?i" for j
    using assms(3) skip_to_props(3) [OF assms(2)] that by (cases "j < pos") auto
  note at = assms(1) skip_to_props(2) [OF assms(2)] below skip_to_props(4) [OF assms(2)]
  have "fst (scan_group rs c m ph ?i None flags) = map_option pack_len (canonical_holder rs m ph c)"
    using run_at_group [OF at]
    by (simp add: scan_group_best canonical_holder_def live_holders_def Let_def conj_commute)
  moreover have "snd (scan_group rs c m ph ?i None flags) =
      map (\<lambda>j. flags ! j \<or> (tb_id (rs ! j) = c \<and> tb_pack (rs ! j) \<notin> ph)) [0..<length rs]"
  proof -
    have "?i \<le> j \<and> j < ?i + length (run_at rs c ?i) \<and> tb_pack (rs ! j) \<notin> ph \<longleftrightarrow> tb_id (rs ! j) = c \<and> tb_pack (rs ! j) \<notin> ph"
      if "j < length rs" for j using run_at_index [OF at that] by blast
    then show ?thesis by (auto simp: scan_group_flags assms(4))
  qed
  ultimately show ?thesis by (simp add: prod_eq_iff)
qed

abbreviation canonical_pack :: "table_record list \<Rightarrow> (object_id \<Rightarrow> bool) \<Rightarrow> object_id set \<Rightarrow> chunk_id \<Rightarrow> object_id" where
  "canonical_pack rs m ph c \<equiv> tb_pack (the (canonical_holder rs m ph c))"

abbreviation canonical_len :: "table_record list \<Rightarrow> (object_id \<Rightarrow> bool) \<Rightarrow> object_id set \<Rightarrow> chunk_id \<Rightarrow> nat" where
  "canonical_len rs m ph c \<equiv> lo_length (tb_location (the (canonical_holder rs m ph c)))"

definition live_sum :: "table_record list \<Rightarrow> (object_id \<Rightarrow> bool) \<Rightarrow> object_id set \<Rightarrow> chunk_id list \<Rightarrow>
    (object_id \<rightharpoonup> nat) \<Rightarrow> (object_id \<rightharpoonup> nat)" where
  "live_sum rs m ph cs live = (\<lambda>p. if p \<in> canonical_pack rs m ph ` set cs
     then Some (((case live p of None \<Rightarrow> 0 | Some n \<Rightarrow> n)
                + sum_list (map (canonical_len rs m ph) (filter (\<lambda>c. canonical_pack rs m ph c = p) cs))) mod 2 ^ 64)
     else live p)"

lemma canonicalize_spec:
  assumes "px_sorted rs" "pos \<le> length rs" "\<And>j c. c \<in> set cs \<Longrightarrow> j < pos \<Longrightarrow> tb_id (rs ! j) < c"
    "length flags = length rs" "sorted_wrt (<) cs"
  shows "canonicalize rs m ph cs pos flags needed live =
    (if \<exists>c \<in> set cs. live_holders rs ph c = [] then Inl (Unsafe ''chunk is referenced but no existing pack holds it'')
     else Inr (map (\<lambda>j. flags ! j \<or> (tb_id (rs ! j) \<in> set cs \<and> tb_pack (rs ! j) \<notin> ph)) [0..<length rs],
               needed \<union> canonical_pack rs m ph ` set cs, live_sum rs m ph cs live))"
  using assms
proof (induction rs m ph cs pos flags needed live rule: canonicalize.induct)
  case (1 rs m ph pos flags needed live)
  then show ?case by (auto simp: live_sum_def intro: nth_equalityI)
next
  case (2 rs m ph c cs pos flags needed live)
  let ?i = "skip_to rs c pos"
  from 2(4) have scan: "scan_group rs c m ph ?i None flags =
      (map_option pack_len (canonical_holder rs m ph c),
       map (\<lambda>j. flags ! j \<or> (tb_id (rs ! j) = c \<and> tb_pack (rs ! j) \<notin> ph)) [0..<length rs])"
    by (intro scan_group_spec [OF 2(2) 2(3) _ 2(5)]) simp
  show ?case
  proof (cases "canonical_holder rs m ph c")
    case None
    then have "live_holders rs ph c = []" by (simp add: canonical_holder_def holder_min_None)
    with None show ?thesis by (simp add: scan)
  next
    case (Some r)
    have held: "live_holders rs ph c \<noteq> []"
      using Some holder_min_None [of m "live_holders rs ph c"] by (auto simp: canonical_holder_def)
    have below: "tb_id (rs ! j) < d" if "d \<in> set cs" "j < ?i" for d j
      using that 2(4,6) skip_to_props(3) [OF 2(3)] by (cases "j < pos") force+
    have fold: "live_sum rs m ph cs (add_live (tb_pack r) (lo_length (tb_location r)) live) = live_sum rs m ph (c # cs) live"
    proof
      fix p
      have "filter (\<lambda>c. canonical_pack rs m ph c = p) cs = []" if "p \<notin> canonical_pack rs m ph ` set cs"
        using that by (auto simp: filter_empty_conv)
      then show "live_sum rs m ph cs (add_live (tb_pack r) (lo_length (tb_location r)) live) p = live_sum rs m ph (c # cs) live p"
        by (cases "p \<in> canonical_pack rs m ph ` set cs"; cases "p = tb_pack r") (simp_all add: live_sum_def add_live_def add64_def Some eq_commute mod_simps add.assoc)
    qed
    from 2(1) [OF refl scan [unfolded Some, simplified, symmetric] refl refl 2(2) skip_to_props(2) [OF 2(3)] below] 2(6)
    have "canonicalize rs m ph cs ?i (map (\<lambda>j. flags ! j \<or> (tb_id (rs ! j) = c \<and> tb_pack (rs ! j) \<notin> ph)) [0..<length rs])
        (insert (tb_pack r) needed) (add_live (tb_pack r) (lo_length (tb_location r)) live) =
      (if \<exists>c \<in> set cs. live_holders rs ph c = [] then Inl (Unsafe ''chunk is referenced but no existing pack holds it'')
       else Inr (map (\<lambda>j. (flags ! j \<or> (tb_id (rs ! j) = c \<and> tb_pack (rs ! j) \<notin> ph))
                   \<or> (tb_id (rs ! j) \<in> set cs \<and> tb_pack (rs ! j) \<notin> ph)) [0..<length rs],
                 insert (tb_pack r) needed \<union> canonical_pack rs m ph ` set cs, live_sum rs m ph (c # cs) live))"
      by (simp add: fold cong: map_cong)
    with held show ?thesis by (auto simp: scan Some)
  qed
qed

section \<open>What the index answers\<close>

lemma prune_index_lengths [simp]: "length (px_referenced (prune_index_new rs)) = length (px_records (prune_index_new rs))"
  by (simp add: prune_index_new_def Let_def)

lemma ref_ids_strict: "sorted_wrt (<) (dedup_by (=) (sort ids :: chunk_id list))"
  using dedup_by_key_strict [of "\<lambda>x. x" "sort ids"] by simp

lemma ref_ids_set [simp]: "set (dedup_by (=) (sort ids :: chunk_id list)) = set ids"
  using dedup_by_key_image [of "\<lambda>x. x" "sort ids"] by simp

lemma mark_and_canonicalize_eq:
  "mark_and_canonicalize (prune_index_new rs) ids m ph =
     (let x = prune_index_new rs; cs = dedup_by (=) (sort ids)
      in if \<exists>c \<in> set ids. live_holders (px_records x) ph c = []
         then Inl (Unsafe ''chunk is referenced but no existing pack holds it'')
         else Inr (x\<lparr>px_referenced := map (\<lambda>r. tb_id r \<in> set ids \<and> tb_pack r \<notin> ph) (px_records x)\<rparr>,
                   canonical_pack (px_records x) m ph ` set ids, live_sum (px_records x) m ph cs Map.empty))"
proof -
  let ?x = "prune_index_new rs"
  have fresh: "\<not> px_referenced ?x ! j" if "j < length (px_records ?x)" for j
    using that by (simp add: prune_index_new_def Let_def)
  have flags: "map (\<lambda>j. px_referenced ?x ! j \<or> (tb_id (px_records ?x ! j) \<in> set ids \<and> tb_pack (px_records ?x ! j) \<notin> ph))
      [0..<length (px_records ?x)] = map (\<lambda>r. tb_id r \<in> set ids \<and> tb_pack r \<notin> ph) (px_records ?x)"
    by (rule nth_equalityI) (simp_all add: fresh)
  show ?thesis
    unfolding mark_and_canonicalize_def
    by (subst canonicalize_spec) (simp_all add: px_sorted_new ref_ids_strict flags Let_def)
qed

text \<open>\<open>group\<close> delimits exactly the records of the chunk.\<close>

lemma px_group_run:
  "px_group x i = (let lo = partition_point (\<lambda>r. tb_id r < i) (px_records x)
                   in (lo, lo + length (run_at (px_records x) i lo)))"
  by (simp add: px_group_def run_at_def partition_point_def Let_def)

lemma px_group_at:
  fixes x defines "lo i \<equiv> partition_point (\<lambda>r. tb_id r < i) (px_records x)"
  shows "lo i \<le> length (px_records x)" "\<And>j. j < lo i \<Longrightarrow> tb_id (px_records x ! j) < i"
    "lo i < length (px_records x) \<Longrightarrow> i \<le> tb_id (px_records x ! lo i)"
  using partition_point_le [of "\<lambda>r. tb_id r < i" "px_records x"] partition_point_before [of _ "\<lambda>r. tb_id r < i" "px_records x"]
    partition_point_at [of "\<lambda>r. tb_id r < i" "px_records x"]
  by (auto simp: lo_def)

lemma px_range_mem:
  assumes "px_sorted (px_records x)"
  shows "j \<in> set (px_range x i) \<longleftrightarrow> j < length (px_records x) \<and> tb_id (px_records x ! j) = i"
proof -
  let ?lo = "partition_point (\<lambda>r. tb_id r < i) (px_records x)"
  have "j < length (px_records x) \<Longrightarrow> ?lo \<le> j \<and> j < ?lo + length (run_at (px_records x) i ?lo) \<longleftrightarrow> tb_id (px_records x ! j) = i"
    by (rule run_at_index [OF assms px_group_at(1) px_group_at(2) px_group_at(3)])
  moreover have "?lo + length (run_at (px_records x) i ?lo) \<le> length (px_records x)"
    using length_takeWhile_le [of "\<lambda>r. tb_id r = i" "drop ?lo (px_records x)"] px_group_at(1) [of i x]
    by (simp add: run_at_def)
  ultimately show ?thesis by (auto simp: px_range_def px_group_run Let_def)
qed

lemma px_range_records:
  assumes "px_sorted (px_records x)"
  shows "map ((!) (px_records x)) (px_range x i) = filter (\<lambda>r. tb_id r = i) (px_records x)"
proof -
  let ?lo = "partition_point (\<lambda>r. tb_id r < i) (px_records x)"
  have run: "run_at (px_records x) i ?lo = filter (\<lambda>r. tb_id r = i) (px_records x)"
    by (rule run_at_group [OF assms px_group_at(1) px_group_at(2) px_group_at(3)])
  have "map ((!) (px_records x)) [?lo..<?lo + length (run_at (px_records x) i ?lo)] = run_at (px_records x) i ?lo"
    using takeWhile_eq_take [of "\<lambda>r. tb_id r = i" "drop ?lo (px_records x)"]
      length_takeWhile_le [of "\<lambda>r. tb_id r = i" "drop ?lo (px_records x)"] px_group_at(1) [of i x]
    by (intro nth_equalityI) (auto simp: run_at_def takeWhile_nth)
  with run show ?thesis by (simp add: px_range_def px_group_run Let_def)
qed

lemma px_contains_iff:
  assumes "px_sorted (px_records x)"
  shows "px_contains x i \<longleftrightarrow> i \<in> tb_id ` set (px_records x)"
proof -
  have "px_contains x i \<longleftrightarrow> filter (\<lambda>r. tb_id r = i) (px_records x) \<noteq> []"
    by (simp add: px_contains_def px_range_records [OF assms, symmetric])
  then show ?thesis by (auto simp: filter_empty_conv)
qed

lemma px_get_eq:
  "px_sorted (px_records x) \<Longrightarrow>
   px_get x i = (case filter (\<lambda>r. tb_id r = i) (px_records x) of [] \<Rightarrow> None | r # _ \<Rightarrow> Some (tb_location r))"
  using px_range_records [of x i] by (auto simp: px_get_def split: list.splits)

lemma px_get_mem:
  assumes "px_sorted (px_records x)" "px_get x i = Some l"
  shows "\<exists>r \<in> set (px_records x). tb_id r = i \<and> tb_location r = l"
proof -
  show ?thesis
  proof (cases "filter (\<lambda>r. tb_id r = i) (px_records x)")
    case Nil
    with assms(2) px_get_eq [OF assms(1), of i] show ?thesis by simp
  next
    case (Cons r rs)
    then have "r \<in> set (filter (\<lambda>r. tb_id r = i) (px_records x))" by simp
    moreover have "tb_location r = l" using Cons assms(2) px_get_eq [OF assms(1), of i] by simp
    ultimately show ?thesis by auto
  qed
qed

text \<open>
  C27: For every list of referenced chunks, in any order and with repetitions, the merge of
  \<open>mark_and_canonicalize\<close> agrees with its reference definition: it refuses exactly when a referenced
  chunk has no holder outside the phantom packs; otherwise the needed packs are the canonical
  ones (an unmarked holder first, then the smallest name), the live bytes are the sums of the
  canonical records modulo \<open>2^64\<close> (the \<open>+=\<close> of \<open>prune.rs\<close> wraps in a release build), and the
  flags say which holders are referenced.
\<close>

theorem mark_and_canonicalize_reference:
  "mark_and_canonicalize (prune_index_new rs) ids m ph =
     (let x = prune_index_new rs; recs = px_records x
      in if \<exists>c \<in> set ids. live_holders recs ph c = []
         then Inl (Unsafe ''chunk is referenced but no existing pack holds it'')
         else Inr (x\<lparr>px_referenced := map (\<lambda>r. tb_id r \<in> set ids \<and> tb_pack r \<notin> ph) recs\<rparr>,
                   canonical_pack recs m ph ` set ids,
                   \<lambda>p. if p \<in> canonical_pack recs m ph ` set ids
                       then Some ((\<Sum>c \<in> {c \<in> set ids. canonical_pack recs m ph c = p}. canonical_len recs m ph c) mod 2 ^ 64)
                       else None))"
proof -
  let ?recs = "px_records (prune_index_new rs)" and ?cs = "dedup_by (=) (sort ids)"
  have "distinct ?cs" using ref_ids_strict by (rule strict_sorted_iff [THEN iffD1, THEN conjunct2])
  then have "sum_list (map (canonical_len ?recs m ph) (filter (\<lambda>c. canonical_pack ?recs m ph c = p) ?cs))
      = (\<Sum>c \<in> {c \<in> set ids. canonical_pack ?recs m ph c = p}. canonical_len ?recs m ph c)" for p
    by (subst sum_list_distinct_conv_sum_set) (simp_all add: conj_commute)
  then have "live_sum ?recs m ph ?cs Map.empty = (\<lambda>p. if p \<in> canonical_pack ?recs m ph ` set ids
      then Some ((\<Sum>c \<in> {c \<in> set ids. canonical_pack ?recs m ph c = p}. canonical_len ?recs m ph c) mod 2 ^ 64) else None)"
    by (simp add: live_sum_def cong: if_cong)
  then show ?thesis by (simp add: mark_and_canonicalize_eq Let_def)
qed

end
