(* ===== verification/Prune_Plan.thy ===== *)
theory Prune_Plan
  imports Prune_Index Retention
begin

text \<open>
  \<open>prune_plan\<close> of \<open>crates/kist-core/src/prune.rs\<close>: read, walk and decide, without writing. The
  steps are numbered as in the code. A time is an \<open>OffsetDateTime\<close> in nanoseconds, a modification
  time of the store a number of seconds; a \<open>std::time::Duration\<close> is a number of nanoseconds. The
  outer option is the panic of time arithmetic outside the years the \<open>time\<close> crate supports (and a
  walk that would not end; \<open>walk_references_total\<close> excludes it). Hash maps are association lists
  in the order of the listing; what the code reads from one in an unspecified order it sorts.
\<close>

section \<open>Panics, errors and results\<close>

definition run_then :: "('e + 'a) option \<Rightarrow> ('a \<Rightarrow> ('e + 'b) option) \<Rightarrow> ('e + 'b) option" where
  "run_then m f = (case m of None \<Rightarrow> None | Some (Inl e) \<Rightarrow> Some (Inl e) | Some (Inr x) \<Rightarrow> f x)"

lemma run_then_Inr [result_simps]:
  "run_then m f = Some (Inr y) \<longleftrightarrow> (\<exists>x. m = Some (Inr x) \<and> f x = Some (Inr y))"
  by (auto simp: run_then_def split: option.splits sum.splits)

lemma run_then_simps [simp]:
  "run_then None f = None" "run_then (Some (Inl e)) f = Some (Inl e)" "run_then (Some (Inr x)) f = f x"
  by (simp_all add: run_then_def)

fun filter_may :: "('a \<Rightarrow> bool option) \<Rightarrow> 'a list \<Rightarrow> 'a list option" where
  "filter_may f [] = Some []"
| "filter_may f (x # xs) =
     (case f x of None \<Rightarrow> None | Some b \<Rightarrow> map_option (\<lambda>ys. if b then x # ys else ys) (filter_may f xs))"

fun map_may :: "('a \<Rightarrow> 'b option) \<Rightarrow> 'a list \<Rightarrow> 'b list option" where
  "map_may f [] = Some []"
| "map_may f (x # xs) = (case f x of None \<Rightarrow> None | Some y \<Rightarrow> map_option ((#) y) (map_may f xs))"

lemma filter_may_Some: "filter_may f xs = Some ys \<longleftrightarrow>
    (\<forall>x \<in> set xs. f x \<noteq> None) \<and> ys = filter (\<lambda>x. f x = Some True) xs"
  by (induction xs arbitrary: ys) (auto split: option.splits)

lemma map_may_Some: "map_may f xs = Some ys \<longleftrightarrow> (\<forall>x \<in> set xs. f x \<noteq> None) \<and> ys = map (\<lambda>x. the (f x)) xs"
  by (induction xs arbitrary: ys) (auto split: option.splits)

section \<open>Options, targets and the report\<close>

definition to_time_duration :: "nat \<Rightarrow> string \<Rightarrow> core_error + nat" where
  \<comment> \<open>the seconds must fit an \<open>i64\<close>\<close>
  "to_time_duration d what = (if d div 1000000000 < 2 ^ 63 then Inr d else Inl (Usage what))"

definition time_add :: "int \<Rightarrow> nat \<Rightarrow> int option" where
  "time_add t d = (if nanos_ok (t + int d) then Some (t + int d) else None)"

definition modified_at :: "object_info \<Rightarrow> int" where "modified_at i = oi_modified i * NANOS"

definition DEFAULT_GC_GRACE :: nat where "DEFAULT_GC_GRACE = 72 * 3600 * 1000000000"
definition MAX_EFFECTIVE_BLOBS :: nat where "MAX_EFFECTIVE_BLOBS = 64"

record prune_options =
  po_grace :: nat
  po_inactive_after :: nat
  po_clock_skew :: nat
  po_repack_below :: nat
  po_dry_run :: bool
  po_now :: "int option"

definition prune_options_default :: prune_options where
  "prune_options_default = \<lparr>po_grace = DEFAULT_GC_GRACE, po_inactive_after = 30 * 24 * 3600 * 1000000000,
     po_clock_skew = 3600 * 1000000000, po_repack_below = 50, po_dry_run = False, po_now = None\<rparr>"

record prune_report =
  pr_snapshots :: nat
  pr_live_trees :: nat
  pr_live_packs :: nat
  pr_marked :: nat
  pr_marked_bytes :: nat
  pr_revived :: nat
  pr_stale_marks :: nat
  pr_deleted :: nat
  pr_deleted_bytes :: nat
  pr_blocked :: nat
  pr_waiting :: nat
  pr_repacked_packs :: nat
  pr_repacked_bytes :: nat
  pr_new_packs :: nat
  pr_skipped :: "string list"

definition prune_report_default :: prune_report where
  "prune_report_default = \<lparr>pr_snapshots = 0, pr_live_trees = 0, pr_live_packs = 0, pr_marked = 0,
     pr_marked_bytes = 0, pr_revived = 0, pr_stale_marks = 0, pr_deleted = 0, pr_deleted_bytes = 0,
     pr_blocked = 0, pr_waiting = 0, pr_repacked_packs = 0, pr_repacked_bytes = 0, pr_new_packs = 0,
     pr_skipped = []\<rparr>"

datatype gc_kind = PackObject | TreeObject | IndexObject

fun kind_rank :: "gc_kind \<Rightarrow> nat" where
  "kind_rank PackObject = 0" | "kind_rank TreeObject = 1" | "kind_rank IndexObject = 2"

definition as_tree :: "object_id \<Rightarrow> tree_id" where "as_tree i = TreeId (object_bytes i)"

fun kind_key :: "ext \<Rightarrow> gc_kind \<Rightarrow> object_id \<Rightarrow> string" where
  "kind_key ext PackObject i = pack_key ext i"
| "kind_key ext TreeObject i = tree_key ext (as_tree i)"
| "kind_key ext IndexObject i = index_key ext i"

record target =
  tg_kind :: gc_kind
  tg_id :: object_id
  tg_info :: object_info

type_synonym listing = "(object_id \<times> object_info) list"

record gc_plan =
  pl_dry_run :: bool
  pl_report :: prune_report
  pl_indexed :: "(object_id \<times> index_pack) list"
  pl_phantoms :: "object_id set"
  pl_marked_packs :: "object_id set"
  pl_all_blob_ids :: "object_id list"
  pl_effective_blobs :: nat
  pl_idx :: prune_index
  pl_needed :: "object_id set"
  pl_to_delete :: "(target \<times> object_info) list"
  pl_marks_to_remove :: "object_id list"
  pl_repack :: "object_id list"
  pl_to_mark :: "target list"
  pl_target_size :: nat

section \<open>Index and listings (steps 1 and 3)\<close>

definition pack_records :: "index_pack \<Rightarrow> table_record list" where
  "pack_records p = map (\<lambda>e. \<lparr>tb_id = pe_id e, tb_location = location (ip_pack p) e\<rparr>) (ip_entries p)"

definition index_records :: "index_pack list \<Rightarrow> table_record list" where
  "index_records ps = concat (map pack_records ps)"

fun indexed_packs :: "index_pack list \<Rightarrow> (object_id \<times> index_pack) list \<Rightarrow> (object_id \<times> index_pack) list" where
  "indexed_packs [] acc = acc"
| "indexed_packs (p # ps) acc =
     indexed_packs ps (if map_of acc (ip_pack p) = None then acc @ [(ip_pack p, p)] else acc)"

definition insert_listed :: "ext \<Rightarrow> object_info \<Rightarrow> listing \<Rightarrow> listing" where
  "insert_listed ext i acc =
     (case object_id_from_key ext (oi_key i) of Inr k \<Rightarrow> AList.update k i acc | Inl e \<Rightarrow> acc)"

definition list_ids :: "'s repository \<Rightarrow> 's \<Rightarrow> string \<Rightarrow> core_error + listing" where
  "list_ids r s prefix =
     and_then (map_err BackendE (backend_list (rp_ops r) prefix s))
       (\<lambda>listed. Inr (fold (insert_listed (rp_ext r)) listed []))"

section \<open>Live bytes, active clients (steps 4 and 5)\<close>

definition pack_live_total :: "(object_id \<rightharpoonup> nat) \<Rightarrow> (object_id \<times> index_pack) list \<Rightarrow> object_id \<Rightarrow> nat \<times> nat" where
  "pack_live_total live indexed i =
     (case map_of indexed i of
        None \<Rightarrow> (0, 0)
      | Some p \<Rightarrow> (case live i of None \<Rightarrow> 0 | Some n \<Rightarrow> n,
          foldl (\<lambda>total e. sat_add64 total (pe_length e)) 0 (ip_entries p)))"

fun latest_by_client :: "(string \<times> snapshot) list \<Rightarrow> (bytes \<times> int) list \<Rightarrow> core_error + (bytes \<times> int) list" where
  "latest_by_client [] acc = Inr acc"
| "latest_by_client ((key, snap) # rest) acc =
     (let t = sn_time_ns snap; c = sn_client_id snap
      in if \<not> nanos_ok t then Inl (Unsafe ''bad time'')
         else latest_by_client rest
           (case map_of acc c of
              None \<Rightarrow> AList.update c t acc
            | Some old \<Rightarrow> AList.update c (if t > old then t else old) acc))"

definition min_active_latest :: "int list \<Rightarrow> int \<Rightarrow> nat \<Rightarrow> nat \<Rightarrow> int option option" where
  \<comment> \<open>the subtractions are only made when there is a client\<close>
  "min_active_latest latest now inactive skew =
     (if latest = [] then Some None
      else case time_sub now inactive of
        None \<Rightarrow> None
      | Some bound \<Rightarrow>
          map_option (\<lambda>ts. if ts = [] then None else Some (Min (set ts)))
            (map_may (\<lambda>t. time_sub t skew) (filter (\<lambda>t. t \<ge> bound) latest)))"

section \<open>What becomes of a mark (step 6)\<close>

datatype fate = Stale | Revived | Waiting | Blocked | Doomed target

record gc_lists =
  gl_packs :: listing
  gl_trees :: listing
  gl_indexes :: listing

definition find_object :: "gc_lists \<Rightarrow> object_id \<Rightarrow> (gc_kind \<times> object_info) option" where
  "find_object gl i =
     (case map_of (gl_packs gl) i of
        Some x \<Rightarrow> Some (PackObject, x)
      | None \<Rightarrow>
          (case map_of (gl_trees gl) i of
             Some x \<Rightarrow> Some (TreeObject, x)
           | None \<Rightarrow> map_option (\<lambda>x. (IndexObject, x)) (map_of (gl_indexes gl) i)))"

definition mark_fate :: "gc_lists \<Rightarrow> (gc_kind \<Rightarrow> object_id \<Rightarrow> bool) \<Rightarrow> nat \<Rightarrow> int \<Rightarrow> int option \<Rightarrow>
    object_id \<Rightarrow> object_info \<Rightarrow> fate option" where
  "mark_fate gl live grace now newest i mark =
     (case find_object gl i of
        None \<Rightarrow> Some Stale
      | Some (kind, info) \<Rightarrow>
          (if live kind i then Some Revived
           else case time_add (modified_at mark) grace of
             None \<Rightarrow> None
           | Some due \<Rightarrow> Some
               (if due > now then Waiting
                else if newest \<noteq> None \<and> modified_at mark \<ge> the newest then Blocked
                else Doomed \<lparr>tg_kind = kind, tg_id = i, tg_info = info\<rparr>)))"

record mark_tally =
  mt_stale :: nat
  mt_revived :: nat
  mt_waiting :: nat
  mt_blocked :: nat
  mt_remove :: "object_id list"
  mt_delete :: "(target \<times> object_info) list"

definition tally_mark :: "object_id \<Rightarrow> object_info \<Rightarrow> fate \<Rightarrow> mark_tally \<Rightarrow> mark_tally" where
  "tally_mark i mark fate m =
     (case fate of
        Stale \<Rightarrow> m\<lparr>mt_stale := mt_stale m + 1, mt_remove := mt_remove m @ [i]\<rparr>
      | Revived \<Rightarrow> m\<lparr>mt_revived := mt_revived m + 1, mt_remove := mt_remove m @ [i]\<rparr>
      | Waiting \<Rightarrow> m\<lparr>mt_waiting := mt_waiting m + 1\<rparr>
      | Blocked \<Rightarrow> m\<lparr>mt_blocked := mt_blocked m + 1\<rparr>
      | Doomed t \<Rightarrow> m\<lparr>mt_delete := mt_delete m @ [(t, mark)]\<rparr>)"

fun decide_marks :: "(object_id \<Rightarrow> object_info \<Rightarrow> fate option) \<Rightarrow> listing \<Rightarrow> mark_tally \<Rightarrow> mark_tally option" where
  "decide_marks fate [] m = Some m"
| "decide_marks fate ((i, mark) # rest) m =
     (case fate i mark of None \<Rightarrow> None | Some f \<Rightarrow> decide_marks fate rest (tally_mark i mark f m))"

section \<open>Candidates for repacking and new marks (steps 7 and 8)\<close>

definition older_than_grace :: "object_info \<Rightarrow> nat \<Rightarrow> int \<Rightarrow> bool option" where
  "older_than_grace info grace now = map_option (\<lambda>due. due \<le> now) (time_add (modified_at info) grace)"

definition worth_repacking :: "nat \<Rightarrow> nat \<times> nat \<Rightarrow> bool" where
  "worth_repacking percent = (\<lambda>(live, total). total > 0 \<and> sat_mul64 live 100 < sat_mul64 total percent)"

definition repack_candidates :: "object_id set \<Rightarrow> listing \<Rightarrow> listing \<Rightarrow> (object_id \<Rightarrow> nat \<times> nat) \<Rightarrow>
    nat \<Rightarrow> int \<Rightarrow> nat \<Rightarrow> object_id list option" where
  "repack_candidates needed marks packs bytes grace now percent =
     (if percent = 0 then Some []
      else filter_may
        (\<lambda>i. if map_of marks i \<noteq> None then Some False
             else case map_of packs i of
               None \<Rightarrow> Some False
             | Some info \<Rightarrow> map_option (\<lambda>old. old \<and> worth_repacking percent (bytes i)) (older_than_grace info grace now))
        (sorted_list_of_set needed))"

definition mark_candidates :: "gc_lists \<Rightarrow> target list" where
  "mark_candidates gl =
     map (\<lambda>(i, info). \<lparr>tg_kind = PackObject, tg_id = i, tg_info = info\<rparr>) (gl_packs gl)
     @ map (\<lambda>(i, info). \<lparr>tg_kind = TreeObject, tg_id = i, tg_info = info\<rparr>) (gl_trees gl)
     @ map (\<lambda>(i, info). \<lparr>tg_kind = IndexObject, tg_id = i, tg_info = info\<rparr>) (gl_indexes gl)"

definition new_marks :: "gc_lists \<Rightarrow> (gc_kind \<Rightarrow> object_id \<Rightarrow> bool) \<Rightarrow> listing \<Rightarrow> nat \<Rightarrow> int \<Rightarrow> target list option" where
  "new_marks gl live marks grace now =
     filter_may
       (\<lambda>t. if live (tg_kind t) (tg_id t) \<or> map_of marks (tg_id t) \<noteq> None then Some False
            else older_than_grace (tg_info t) grace now)
       (mark_candidates gl)"

definition repack_marks :: "listing \<Rightarrow> object_id list \<Rightarrow> target list" where
  "repack_marks packs repack =
     concat (map (\<lambda>i. case map_of packs i of
         None \<Rightarrow> [] | Some info \<Rightarrow> [\<lparr>tg_kind = PackObject, tg_id = i, tg_info = info\<rparr>]) repack)"

definition target_rank :: "target \<Rightarrow> nat \<times> object_id" where
  "target_rank t = (kind_rank (tg_kind t), tg_id t)"

definition target_bytes :: "target list \<Rightarrow> nat" where
  "target_bytes ts = wrap64 (sum_list (map (\<lambda>t. oi_size (tg_info t)) ts))"

section \<open>The plan\<close>

text \<open>What steps 1 to 4 find out: the strict index, the walk, the listings and the canonical packs.\<close>

record prune_facts =
  pv_reach :: reachability
  pv_blobs :: index_blobs
  pv_lists :: gc_lists
  pv_marks :: listing
  pv_idx :: prune_index
  pv_needed :: "object_id set"
  pv_live :: "object_id \<rightharpoonup> nat"

definition load_blobs_strict :: "'s repository \<Rightarrow> 's \<Rightarrow> core_error + index_blobs" where
  "load_blobs_strict r s =
     and_then (load_index_blobs r s) (\<lambda>(blobs, errors).
       if errors \<noteq> [] then Inl (Unsafe ''index object(s) cannot be read'') else Inr blobs)"

definition list_everything :: "'s repository \<Rightarrow> 's \<Rightarrow> core_error + (gc_lists \<times> listing)" where
  "list_everything r s =
     and_then (list_ids r s PACKS_PREFIX) (\<lambda>packs.
       and_then (list_ids r s TREES_PREFIX) (\<lambda>trees.
         and_then (list_ids r s INDEXES_PREFIX) (\<lambda>indexes.
           and_then (list_ids r s GC_PREFIX) (\<lambda>marks.
             Inr (\<lparr>gl_packs = packs, gl_trees = trees, gl_indexes = indexes\<rparr>, marks)))))"

definition phantom_packs :: "(object_id \<times> index_pack) list \<Rightarrow> listing \<Rightarrow> object_id set" where
  "phantom_packs indexed packs = set (filter (\<lambda>i. map_of packs i = None) (map fst indexed))"

definition prune_observe :: "'s repository \<Rightarrow> 's \<Rightarrow> (core_error + prune_facts) option" where
  "prune_observe r s =
     run_then (Some (load_blobs_strict r s)) (\<lambda>blobs.
       let packs = effective_packs blobs;
           idx = prune_index_new (index_records packs)
       in run_then (walk_references r s (prune_view idx)) (\<lambda>reach.
         if re_errors reach \<noteq> [] then Some (Inl (Unsafe ''reference(s) cannot be resolved''))
         else run_then (Some (list_everything r s)) (\<lambda>(gl, marks).
           run_then (Some (mark_and_canonicalize idx (re_referenced reach) (\<lambda>i. map_of marks i \<noteq> None)
               (phantom_packs (indexed_packs packs []) (gl_packs gl)))) (\<lambda>(idx', needed, live).
             Some (Inr \<lparr>pv_reach = reach, pv_blobs = blobs, pv_lists = gl, pv_marks = marks, pv_idx = idx',
                        pv_needed = needed, pv_live = live\<rparr>)))))"

definition is_live :: "prune_facts \<Rightarrow> gc_kind \<Rightarrow> object_id \<Rightarrow> bool" where
  "is_live v kind i =
     (case kind of
        PackObject \<Rightarrow> i \<in> pv_needed v
      | TreeObject \<Rightarrow> i \<in> re_live_trees (pv_reach v)
      | IndexObject \<Rightarrow> i \<in> fst ` set (ibs_effective (pv_blobs v)))"

definition plan_report :: "bool \<Rightarrow> prune_facts \<Rightarrow> mark_tally \<Rightarrow> object_id list \<Rightarrow> target list \<Rightarrow> prune_report" where
  "plan_report dry v m repack marks = prune_report_default
     \<lparr>pr_snapshots := length (re_snapshots (pv_reach v)), pr_live_trees := card (re_live_trees (pv_reach v)),
      pr_live_packs := card (pv_needed v), pr_stale_marks := mt_stale m, pr_revived := mt_revived m,
      pr_waiting := mt_waiting m, pr_blocked := mt_blocked m, pr_repacked_packs := length repack,
      pr_marked := length marks, pr_marked_bytes := target_bytes marks,
      pr_deleted := (if dry then length (mt_delete m) else 0),
      pr_deleted_bytes := (if dry then target_bytes (map fst (mt_delete m)) else 0)\<rparr>"

definition no_marks :: mark_tally where
  "no_marks = \<lparr>mt_stale = 0, mt_revived = 0, mt_waiting = 0, mt_blocked = 0, mt_remove = [], mt_delete = []\<rparr>"

definition prune_decide :: "'s repository \<Rightarrow> prune_options \<Rightarrow> int \<Rightarrow> nat \<Rightarrow> nat \<Rightarrow> prune_facts \<Rightarrow>
    (core_error + gc_plan) option" where
  "prune_decide r opts now grace inactive v =
     (let gl = pv_lists v; marks = pv_marks v; reach = pv_reach v;
          indexed = indexed_packs (effective_packs (pv_blobs v)) [];
          bytes = pack_live_total (pv_live v) indexed
      in run_then (Some (latest_by_client (re_snapshots reach) [])) (\<lambda>latest.
         run_then (Some (to_time_duration (po_clock_skew opts) ''clock_skew'')) (\<lambda>skew.
         case min_active_latest (map snd latest) now inactive skew of None \<Rightarrow> None | Some newest \<Rightarrow>
         (case decide_marks (mark_fate gl (is_live v) grace now newest) marks no_marks of None \<Rightarrow> None | Some m \<Rightarrow>
         (case repack_candidates (pv_needed v) marks (gl_packs gl) bytes grace now (po_repack_below opts) of
            None \<Rightarrow> None | Some repack \<Rightarrow>
         (case new_marks gl (is_live v) marks grace now of None \<Rightarrow> None | Some fresh \<Rightarrow>
           (let to_mark = sort_key target_rank (fresh @ repack_marks (gl_packs gl) repack);
                blobs = pv_blobs v
            in Some (Inr
              \<lparr>pl_dry_run = po_dry_run opts, pl_report = plan_report (po_dry_run opts) v m repack to_mark,
               pl_indexed = indexed, pl_phantoms = phantom_packs indexed (gl_packs gl),
               pl_marked_packs = set (filter (\<lambda>i. map_of indexed i \<noteq> None) (map fst marks)),
               pl_all_blob_ids = map fst (ibs_effective blobs) @ ibs_superseded blobs,
               pl_effective_blobs = card (fst ` set (ibs_effective blobs)),
               pl_idx = pv_idx v, pl_needed = pv_needed v,
               pl_to_delete = sort_key (\<lambda>(t, _). target_rank t) (mt_delete m),
               pl_marks_to_remove = mt_remove m, pl_repack = repack, pl_to_mark = to_mark,
               pl_target_size = rc_pack_target_size (rp_config r)\<rparr>))))))))"

definition plan_now :: "prune_options \<Rightarrow> int \<Rightarrow> int" where
  "plan_now opts clock = (case po_now opts of Some t \<Rightarrow> t | None \<Rightarrow> clock)"

definition prune_plan :: "'s repository \<Rightarrow> prune_options \<Rightarrow> int \<Rightarrow> 's \<Rightarrow> (core_error + gc_plan) option" where
  \<comment> \<open>the clock is read once, when the options name no time\<close>
  "prune_plan r opts clock s =
     run_then (Some (to_time_duration (po_grace opts) ''grace'')) (\<lambda>grace.
       run_then (Some (to_time_duration (po_inactive_after opts) ''inactive_after'')) (\<lambda>inactive.
         run_then (prune_observe r s)
           (prune_decide r opts (plan_now opts clock) grace inactive)))"

section \<open>What the plan decides\<close>

lemma distinct_insert_listed: "distinct (map fst acc) \<Longrightarrow> distinct (map fst (insert_listed ext i acc))"
  by (auto simp: insert_listed_def distinct_update split: sum.splits)

lemma list_ids_distinct: "list_ids r s p = Inr l \<Longrightarrow> distinct (map fst l)"
proof -
  have "distinct (map fst (fold (insert_listed ext) is acc))" if "distinct (map fst acc)" for ext "is" acc
    using that by (induction "is" arbitrary: acc) (simp_all add: distinct_insert_listed)
  then show "list_ids r s p = Inr l \<Longrightarrow> distinct (map fst l)" by (auto simp: list_ids_def result_simps)
qed

lemma decide_marks_Some:
  "decide_marks fate ms m = Some m' \<Longrightarrow>
     set (mt_delete m') = set (mt_delete m) \<union> {(t, mk). \<exists>i. (i, mk) \<in> set ms \<and> fate i mk = Some (Doomed t)}
     \<and> set (mt_remove m') = set (mt_remove m) \<union> {i. \<exists>mk. (i, mk) \<in> set ms \<and> (fate i mk = Some Stale \<or> fate i mk = Some Revived)}"
proof (induction fate ms m rule: decide_marks.induct)
  case (1 fate m)
  then show ?case by simp
next
  case (2 fate i mark rest m)
  from 2(2) obtain f where f: "fate i mark = Some f" and "decide_marks fate rest (tally_mark i mark f m) = Some m'"
    by (auto split: option.splits)
  from 2(1) [OF this] f show ?case by (cases f) (auto simp: tally_mark_def)
qed

lemma decide_marks_total: "decide_marks fate ms m = Some m' \<Longrightarrow> (i, mk) \<in> set ms \<Longrightarrow> fate i mk \<noteq> None"
  by (induction fate ms m rule: decide_marks.induct) (auto split: option.splits)

lemma latest_by_client_Inr:
  assumes "latest_by_client snaps acc = Inr out" "distinct (map fst acc)"
  shows "distinct (map fst out)"
    and "map_of out c = Some t \<Longrightarrow> map_of acc c = Some t \<or> (\<exists>(k, sn) \<in> set snaps. sn_client_id sn = c \<and> sn_time_ns sn = t)"
    and "(k, sn) \<in> set snaps \<Longrightarrow> \<exists>t \<ge> sn_time_ns sn. map_of out (sn_client_id sn) = Some t"
    and "map_of acc c = Some t \<Longrightarrow> \<exists>t' \<ge> t. map_of out c = Some t'"
proof -
  have "distinct (map fst out)
    \<and> (\<forall>c t. map_of out c = Some t \<longrightarrow> map_of acc c = Some t \<or> (\<exists>(k, sn) \<in> set snaps. sn_client_id sn = c \<and> sn_time_ns sn = t))
    \<and> (\<forall>(k, sn) \<in> set snaps. \<exists>t \<ge> sn_time_ns sn. map_of out (sn_client_id sn) = Some t)
    \<and> (\<forall>c t. map_of acc c = Some t \<longrightarrow> (\<exists>t' \<ge> t. map_of out c = Some t'))"
    using assms
  proof (induction snaps acc rule: latest_by_client.induct)
    case (1 acc)
    then show ?case by auto
  next
    case (2 key snap rest acc)
    let ?t = "sn_time_ns snap" and ?c = "sn_client_id snap"
    define new where "new = (case map_of acc ?c of None \<Rightarrow> ?t | Some old \<Rightarrow> (if ?t > old then ?t else old))"
    let ?acc = "AList.update ?c new acc"
    have eq: "(case map_of acc ?c of None \<Rightarrow> AList.update ?c ?t acc
        | Some old \<Rightarrow> AList.update ?c (if ?t > old then ?t else old) acc) = ?acc"
      unfolding new_def by (simp split: option.splits)
    have new: "?t \<le> new" "new = ?t \<or> map_of acc ?c = Some new" and newer: "\<And>old. map_of acc ?c = Some old \<Longrightarrow> old \<le> new"
      unfolding new_def by (auto split: option.splits)
    have ok: "nanos_ok ?t" and rest: "latest_by_client rest ?acc = Inr out"
      using 2(2) by (auto simp: Let_def eq split: if_splits)
    have acc: "map_of ?acc = (map_of acc)(?c \<mapsto> new)" by (simp add: update_conv')
    have IH: "distinct (map fst out)
      \<and> (\<forall>c t. map_of out c = Some t \<longrightarrow> map_of ?acc c = Some t \<or> (\<exists>(k, sn) \<in> set rest. sn_client_id sn = c \<and> sn_time_ns sn = t))
      \<and> (\<forall>(k, sn) \<in> set rest. \<exists>t \<ge> sn_time_ns sn. map_of out (sn_client_id sn) = Some t)
      \<and> (\<forall>c t. map_of ?acc c = Some t \<longrightarrow> (\<exists>t' \<ge> t. map_of out c = Some t'))"
      by (rule 2(1) [OF refl refl, unfolded eq, OF _ rest distinct_update [OF 2(3)]]) (simp add: ok)
    then have IH1: "distinct (map fst out)"
      and IH2: "\<And>c t. map_of out c = Some t \<Longrightarrow> map_of ?acc c = Some t \<or> (\<exists>(k, sn) \<in> set rest. sn_client_id sn = c \<and> sn_time_ns sn = t)"
      and IH3: "\<And>k sn. (k, sn) \<in> set rest \<Longrightarrow> \<exists>t \<ge> sn_time_ns sn. map_of out (sn_client_id sn) = Some t"
      and IH4: "\<And>c t. map_of ?acc c = Some t \<Longrightarrow> \<exists>t' \<ge> t. map_of out c = Some t'" by blast+
    obtain t' where t': "new \<le> t'" "map_of out ?c = Some t'"
      using IH4 [of ?c new] by (auto simp: acc)
    have "map_of acc c = Some t \<or> (\<exists>(k, sn) \<in> set ((key, snap) # rest). sn_client_id sn = c \<and> sn_time_ns sn = t)"
      if "map_of out c = Some t" for c t
    proof (cases "map_of ?acc c = Some t")
      case True
      show ?thesis
      proof (cases "c = ?c")
        case same: True
        with True have "t = new" by (simp add: acc)
        with new(2) same show ?thesis by auto
      qed (use True in \<open>simp add: acc\<close>)
    next
      case False
      with IH2 [OF that] show ?thesis by fastforce
    qed
    moreover have "\<exists>t \<ge> sn_time_ns sn. map_of out (sn_client_id sn) = Some t" if "(k, sn) \<in> set ((key, snap) # rest)" for k sn
    proof (cases "(k, sn) \<in> set rest")
      case False
      with that have "sn = snap" by simp
      with t' new(1) show ?thesis using order_trans by blast
    qed (rule IH3)
    moreover have "\<exists>t' \<ge> t. map_of out c = Some t'" if "map_of acc c = Some t" for c t
    proof (cases "c = ?c")
      case True
      with that newer have "t \<le> t'" using t'(1) by fastforce
      with t'(2) True show ?thesis by blast
    next
      case False
      with that show ?thesis by (intro IH4) (simp add: acc)
    qed
    ultimately show ?case using IH1 by blast
  qed
  then show "distinct (map fst out)"
    and "map_of out c = Some t \<Longrightarrow> map_of acc c = Some t \<or> (\<exists>(k, sn) \<in> set snaps. sn_client_id sn = c \<and> sn_time_ns sn = t)"
    and "(k, sn) \<in> set snaps \<Longrightarrow> \<exists>t \<ge> sn_time_ns sn. map_of out (sn_client_id sn) = Some t"
    and "map_of acc c = Some t \<Longrightarrow> \<exists>t' \<ge> t. map_of out c = Some t'" by blast+
qed

lemma min_active_latest_Some:
  assumes "min_active_latest latest now inactive skew = Some newest"
  shows "newest \<noteq> None \<and> m \<ge> the newest \<longleftrightarrow> (\<exists>t \<in> set latest. t \<ge> now - int inactive \<and> m \<ge> t - int skew)"
proof (cases "latest = []")
  case True
  with assms show ?thesis by (simp add: min_active_latest_def)
next
  case False
  with assms obtain ts where b: "time_sub now inactive = Some (now - int inactive)"
    and ts: "map_may (\<lambda>t. time_sub t skew) (filter (\<lambda>t. t \<ge> now - int inactive) latest) = Some ts"
    and n: "newest = (if ts = [] then None else Some (Min (set ts)))"
    by (auto simp: min_active_latest_def time_sub_def split: option.splits if_splits)
  have "ts = map (\<lambda>t. t - int skew) (filter (\<lambda>t. t \<ge> now - int inactive) latest)"
    using ts unfolding map_may_Some by (auto simp: time_sub_def split: if_splits)
  then have "set ts = (\<lambda>t. t - int skew) ` {t \<in> set latest. t \<ge> now - int inactive}" by simp
  then have "(\<exists>x \<in> set ts. x \<le> m) \<longleftrightarrow> (\<exists>t \<in> set latest. t \<ge> now - int inactive \<and> m \<ge> t - int skew)" by auto
  moreover have "newest \<noteq> None \<and> m \<ge> the newest \<longleftrightarrow> (\<exists>x \<in> set ts. x \<le> m)"
    unfolding n by (cases "ts = []") (simp_all add: Min_le_iff)
  ultimately show ?thesis by (simp only: )
qed

lemma prune_decide_SomeE:
  assumes "prune_decide r opts now grace inactive v = Some (Inr p)"
  obtains latest newest m repack fresh where
    "latest_by_client (re_snapshots (pv_reach v)) [] = Inr latest"
    "min_active_latest (map snd latest) now inactive (po_clock_skew opts) = Some newest"
    "decide_marks (mark_fate (pv_lists v) (is_live v) grace now newest) (pv_marks v) no_marks = Some m"
    "repack_candidates (pv_needed v) (pv_marks v) (gl_packs (pv_lists v))
       (pack_live_total (pv_live v) (indexed_packs (effective_packs (pv_blobs v)) [])) grace now (po_repack_below opts) = Some repack"
    "new_marks (pv_lists v) (is_live v) (pv_marks v) grace now = Some fresh"
    "pl_to_delete p = sort_key (\<lambda>(t, _). target_rank t) (mt_delete m)" "pl_marks_to_remove p = mt_remove m"
    "pl_repack p = repack" "pl_to_mark p = sort_key target_rank (fresh @ repack_marks (gl_packs (pv_lists v)) repack)"
    "pl_idx p = pv_idx v" "pl_needed p = pv_needed v" "pl_indexed p = indexed_packs (effective_packs (pv_blobs v)) []"
    "pl_phantoms p = phantom_packs (pl_indexed p) (gl_packs (pv_lists v))"
    "pl_all_blob_ids p = map fst (ibs_effective (pv_blobs v)) @ ibs_superseded (pv_blobs v)"
    "pl_dry_run p = po_dry_run opts"
proof -
  from assms obtain latest skew where l: "latest_by_client (re_snapshots (pv_reach v)) [] = Inr latest"
    and s: "to_time_duration (po_clock_skew opts) ''clock_skew'' = Inr skew"
    by (auto simp: prune_decide_def Let_def result_simps)
  from s have skew: "skew = po_clock_skew opts" by (auto simp: to_time_duration_def split: if_splits)
  from assms l s obtain newest m where n: "min_active_latest (map snd latest) now inactive (po_clock_skew opts) = Some newest"
    and m: "decide_marks (mark_fate (pv_lists v) (is_live v) grace now newest) (pv_marks v) no_marks = Some m"
    by (auto simp: prune_decide_def Let_def skew split: option.splits)
  from assms l s n m obtain repack fresh where
    "repack_candidates (pv_needed v) (pv_marks v) (gl_packs (pv_lists v))
       (pack_live_total (pv_live v) (indexed_packs (effective_packs (pv_blobs v)) [])) grace now (po_repack_below opts) = Some repack"
    "new_marks (pv_lists v) (is_live v) (pv_marks v) grace now = Some fresh"
    by (auto simp: prune_decide_def Let_def skew split: option.splits)
  with that [OF l n m this] assms l s n m show ?thesis by (auto simp: prune_decide_def Let_def skew)
qed

lemma prune_plan_SomeE:
  assumes "prune_plan r opts clock s = Some (Inr p)"
  obtains v where "prune_observe r s = Some (Inr v)"
    "prune_decide r opts (plan_now opts clock) (po_grace opts) (po_inactive_after opts) v = Some (Inr p)"
  using assms that by (auto simp: prune_plan_def plan_now_def result_simps to_time_duration_def split: if_splits)

lemma prune_observe_SomeE:
  assumes "prune_observe r s = Some (Inr v)"
  obtains "load_blobs_strict r s = Inr (pv_blobs v)"
    "walk_references r s (prune_view (prune_index_new (index_records (effective_packs (pv_blobs v))))) = Some (Inr (pv_reach v))"
    "re_errors (pv_reach v) = []" "list_everything r s = Inr (pv_lists v, pv_marks v)"
    "mark_and_canonicalize (prune_index_new (index_records (effective_packs (pv_blobs v)))) (re_referenced (pv_reach v))
       (\<lambda>i. map_of (pv_marks v) i \<noteq> None) (phantom_packs (indexed_packs (effective_packs (pv_blobs v)) []) (gl_packs (pv_lists v)))
     = Inr (pv_idx v, pv_needed v, pv_live v)"
proof -
  from assms obtain blobs reach gl marks idx needed live where
    *: "load_blobs_strict r s = Inr blobs"
    "walk_references r s (prune_view (prune_index_new (index_records (effective_packs blobs)))) = Some (Inr reach)"
    "re_errors reach = []" "list_everything r s = Inr (gl, marks)"
    "mark_and_canonicalize (prune_index_new (index_records (effective_packs blobs))) (re_referenced reach)
       (\<lambda>i. map_of marks i \<noteq> None) (phantom_packs (indexed_packs (effective_packs blobs) []) (gl_packs gl)) = Inr (idx, needed, live)"
    and v: "v = \<lparr>pv_reach = reach, pv_blobs = blobs, pv_lists = gl, pv_marks = marks, pv_idx = idx,
                pv_needed = needed, pv_live = live\<rparr>"
    by (auto simp: prune_observe_def Let_def result_simps split: if_splits)
  with that show ?thesis by simp
qed

lemma observed_marks_distinct: "prune_observe r s = Some (Inr v) \<Longrightarrow> distinct (map fst (pv_marks v))"
  by (erule prune_observe_SomeE) (auto simp: list_everything_def result_simps list_ids_distinct)

text \<open>
  C26: What a prune deletes and what it does not: after the walk and the listings, a marked object is
  scheduled for deletion exactly when it still exists, nothing refers to it, its mark is older
  than the grace period, and every client with a snapshot inside the activity window has one
  that is later than the mark by more than the clock skew.
\<close>

theorem prune_deletion_rule:
  assumes "prune_plan r opts clock s = Some (Inr p)" "prune_observe r s = Some (Inr v)"
  shows "(t, mark) \<in> set (pl_to_delete p) \<longleftrightarrow>
      map_of (pv_marks v) (tg_id t) = Some mark
      \<and> find_object (pv_lists v) (tg_id t) = Some (tg_kind t, tg_info t)
      \<and> \<not> is_live v (tg_kind t) (tg_id t)
      \<and> modified_at mark + int (po_grace opts) \<le> plan_now opts clock
      \<and> (\<forall>(k, snap) \<in> set (re_snapshots (pv_reach v)). sn_time_ns snap \<ge> plan_now opts clock - int (po_inactive_after opts) \<longrightarrow>
           (\<exists>(k', snap') \<in> set (re_snapshots (pv_reach v)). sn_client_id snap' = sn_client_id snap
              \<and> modified_at mark < sn_time_ns snap' - int (po_clock_skew opts)))"
proof -
  let ?now = "plan_now opts clock" and ?S = "set (re_snapshots (pv_reach v))"
  obtain v' where v': "prune_observe r s = Some (Inr v')"
    and d: "prune_decide r opts ?now (po_grace opts) (po_inactive_after opts) v' = Some (Inr p)"
    by (rule prune_plan_SomeE [OF assms(1)])
  have "v' = v" using v' assms(2) by simp
  with d obtain latest newest m where l: "latest_by_client (re_snapshots (pv_reach v)) [] = Inr latest"
    and n: "min_active_latest (map snd latest) ?now (po_inactive_after opts) (po_clock_skew opts) = Some newest"
    and m: "decide_marks (mark_fate (pv_lists v) (is_live v) (po_grace opts) ?now newest) (pv_marks v) no_marks = Some m"
    and del: "set (pl_to_delete p) = set (mt_delete m)"
    by (elim prune_decide_SomeE) auto
  note lat = latest_by_client_Inr [OF l]
  have pair: "x \<in> snd ` set latest \<longleftrightarrow> (\<exists>c. map_of latest c = Some x)" for x
    using lat(1) by (force simp: map_of_eq_Some_iff)
  have block: "newest \<noteq> None \<and> modified_at mark \<ge> the newest \<longleftrightarrow>
      (\<exists>c x. map_of latest c = Some x \<and> x \<ge> ?now - int (po_inactive_after opts) \<and> modified_at mark \<ge> x - int (po_clock_skew opts))"
    unfolding min_active_latest_Some [OF n] set_map using pair by blast
  have clients: "\<not> (newest \<noteq> None \<and> modified_at mark \<ge> the newest) \<longleftrightarrow>
      (\<forall>(k, snap) \<in> ?S. sn_time_ns snap \<ge> ?now - int (po_inactive_after opts) \<longrightarrow>
        (\<exists>(k', snap') \<in> ?S. sn_client_id snap' = sn_client_id snap \<and> modified_at mark < sn_time_ns snap' - int (po_clock_skew opts)))"
    (is "?L \<longleftrightarrow> ?R")
  proof
    assume L: ?L
    show ?R
    proof (intro ballI, clarify)
      fix k snap assume ks: "(k, snap) \<in> ?S" "sn_time_ns snap \<ge> ?now - int (po_inactive_after opts)"
      obtain x where x: "sn_time_ns snap \<le> x" "map_of latest (sn_client_id snap) = Some x"
        using lat(3) [OF _ ks(1)] by auto
      with L block ks(2) have "modified_at mark < x - int (po_clock_skew opts)" by (meson not_le order_trans)
      moreover obtain k' snap' where "(k', snap') \<in> ?S" "sn_client_id snap' = sn_client_id snap" "sn_time_ns snap' = x"
        using lat(2) [OF _ x(2)] by auto
      ultimately show "\<exists>(k', snap') \<in> ?S. sn_client_id snap' = sn_client_id snap
          \<and> modified_at mark < sn_time_ns snap' - int (po_clock_skew opts)" by blast
    qed
  next
    assume R: ?R
    show ?L
      unfolding block
    proof (intro notI, elim exE conjE)
      fix c x assume x: "map_of latest c = Some x" "x \<ge> ?now - int (po_inactive_after opts)"
        "modified_at mark \<ge> x - int (po_clock_skew opts)"
      obtain k snap where "(k, snap) \<in> ?S" "sn_client_id snap = c" "sn_time_ns snap = x"
        using lat(2) [OF _ x(1)] by auto
      with R x(2) obtain k' snap' where s': "(k', snap') \<in> ?S" "sn_client_id snap' = c"
        "modified_at mark < sn_time_ns snap' - int (po_clock_skew opts)" by fast
      from lat(3) [OF _ s'(1)] s'(2) x(1) have "sn_time_ns snap' \<le> x" by auto
      with s'(3) x(3) show False by simp
    qed
  qed
  have fate: "mark_fate (pv_lists v) (is_live v) (po_grace opts) ?now newest i mark = Some (Doomed t) \<longleftrightarrow>
      i = tg_id t \<and> find_object (pv_lists v) (tg_id t) = Some (tg_kind t, tg_info t) \<and> \<not> is_live v (tg_kind t) (tg_id t)
      \<and> time_add (modified_at mark) (po_grace opts) \<noteq> None \<and> modified_at mark + int (po_grace opts) \<le> ?now
      \<and> \<not> (newest \<noteq> None \<and> modified_at mark \<ge> the newest)" for i
    by (cases t) (auto simp: mark_fate_def time_add_def split: option.splits if_splits)
  have marks: "(i, mark) \<in> set (pv_marks v) \<longleftrightarrow> map_of (pv_marks v) i = Some mark" for i
    using observed_marks_distinct [OF assms(2)] by simp
  have fits: "time_add (modified_at mark) (po_grace opts) \<noteq> None"
    if "map_of (pv_marks v) (tg_id t) = Some mark" "find_object (pv_lists v) (tg_id t) = Some (tg_kind t, tg_info t)"
      "\<not> is_live v (tg_kind t) (tg_id t)"
  proof -
    have "mark_fate (pv_lists v) (is_live v) (po_grace opts) ?now newest (tg_id t) mark \<noteq> None"
      using decide_marks_total [OF m, of "tg_id t" mark] marks [of "tg_id t"] that(1) by simp
    with that(2,3) show ?thesis by (auto simp: mark_fate_def split: option.splits)
  qed
  from decide_marks_Some [OF m] have "(t, mark) \<in> set (pl_to_delete p) \<longleftrightarrow>
      (\<exists>i. (i, mark) \<in> set (pv_marks v) \<and> mark_fate (pv_lists v) (is_live v) (po_grace opts) ?now newest i mark = Some (Doomed t))"
    unfolding del by (simp add: no_marks_def)
  then show ?thesis unfolding fate marks clients using fits by blast
qed

section \<open>A repository with garbage, for witnesses\<close>

definition demo_gc_id :: object_id where "demo_gc_id = ObjectId (pad32 [1])"

definition demo_gc_repo :: "map_state repository" where "demo_gc_repo = demo_repo 0 [] [] []"

definition demo_gc_state :: map_state where
  "demo_gc_state = ([(tree_key demo_ext (as_tree demo_gc_id), [], 0), (gc_key demo_ext demo_gc_id, GC_MARK_MAGIC, 0)], 1)"

definition demo_gc_options :: prune_options where
  "demo_gc_options = prune_options_default\<lparr>po_now := Some (300000 * NANOS)\<rparr>"

definition demo_gc_tree :: object_info where
  "demo_gc_tree = \<lparr>oi_key = tree_key demo_ext (as_tree demo_gc_id), oi_size = 0, oi_modified = 0\<rparr>"

definition demo_gc_mark :: object_info where
  "demo_gc_mark = \<lparr>oi_key = gc_key demo_ext demo_gc_id, oi_size = 8, oi_modified = 0\<rparr>"

definition demo_gc_facts :: prune_facts where
  "demo_gc_facts = \<lparr>pv_reach = reach_default, pv_blobs = \<lparr>ibs_effective = [], ibs_superseded = []\<rparr>,
     pv_lists = \<lparr>gl_packs = [], gl_trees = [(demo_gc_id, demo_gc_tree)], gl_indexes = []\<rparr>,
     pv_marks = [(demo_gc_id, demo_gc_mark)], pv_idx = prune_index_new [], pv_needed = {}, pv_live = Map.empty\<rparr>"

lemma demo_gc_simps [simp]:
  "rp_ext demo_gc_repo = demo_ext" "rp_ops demo_gc_repo = map_store"
  by (simp_all add: demo_gc_repo_def)

lemmas demo_list_defs = backend_list_def backend_path_def map_store_def under_prefix_def starts_with_def
  map_meta_def from_meta_def timestamp_ok_def MIN_TIMESTAMP_def MAX_TIMESTAMP_def

lemma demo_gc_names:
  "object_id_from_key demo_ext (tree_key demo_ext (as_tree demo_gc_id)) = Inr demo_gc_id"
  "object_id_from_key demo_ext (gc_key demo_ext demo_gc_id) = Inr demo_gc_id"
proof -
  have "length (object_bytes demo_gc_id) = 32" by (simp add: demo_gc_id_def)
  note name = object_id_from_prefixed [OF demo_hex_ok this]
  show "object_id_from_key demo_ext (tree_key demo_ext (as_tree demo_gc_id)) = Inr demo_gc_id"
    using name [of TREES_PREFIX] by (simp add: key_defs as_tree_def)
  show "object_id_from_key demo_ext (gc_key demo_ext demo_gc_id) = Inr demo_gc_id"
    using name [of GC_PREFIX] by (simp add: key_defs)
qed

lemma demo_gc_lists:
  "backend_list map_store TREES_PREFIX demo_gc_state = Inr [demo_gc_tree]"
  "backend_list map_store GC_PREFIX demo_gc_state = Inr [demo_gc_mark]"
  "backend_list map_store PACKS_PREFIX demo_gc_state = Inr []"
  "backend_list map_store INDEXES_PREFIX demo_gc_state = Inr []"
  "backend_list map_store SNAPSHOTS_PREFIX demo_gc_state = Inr []"
  by (simp_all add: demo_list_defs demo_gc_state_def tree_key_def gc_key_def prefix_defs demo_gc_tree_def
      demo_gc_mark_def GC_MARK_MAGIC_def)

lemma demo_gc_observe: "prune_observe demo_gc_repo demo_gc_state = Some (Inr demo_gc_facts)"
proof -
  have "list_ids demo_gc_repo demo_gc_state TREES_PREFIX = Inr [(demo_gc_id, demo_gc_tree)]"
    "list_ids demo_gc_repo demo_gc_state GC_PREFIX = Inr [(demo_gc_id, demo_gc_mark)]"
    "list_ids demo_gc_repo demo_gc_state PACKS_PREFIX = Inr []"
    "list_ids demo_gc_repo demo_gc_state INDEXES_PREFIX = Inr []"
    by (simp_all add: list_ids_def demo_gc_lists insert_listed_def demo_gc_tree_def demo_gc_mark_def demo_gc_names)
  moreover have "walk_references demo_gc_repo demo_gc_state lc = Some (Inr reach_default)" for lc
    by (simp add: walk_references_def list_snapshot_keys_def demo_gc_lists)
  moreover have "load_blobs_strict demo_gc_repo demo_gc_state = Inr \<lparr>ibs_effective = [], ibs_superseded = []\<rparr>"
    by (simp add: load_blobs_strict_def load_index_blobs_def demo_gc_lists split_superseded_def)
  ultimately show ?thesis
    by (simp add: prune_observe_def list_everything_def effective_packs_def index_records_def reach_default_def
        mark_and_canonicalize_def demo_gc_facts_def)
qed

lemma demo_gc_plan:
  "\<exists>p. prune_plan demo_gc_repo demo_gc_options 0 demo_gc_state = Some (Inr p)
     \<and> pl_to_delete p = [(\<lparr>tg_kind = TreeObject, tg_id = demo_gc_id, tg_info = demo_gc_tree\<rparr>, demo_gc_mark)]"
  by (simp add: prune_plan_def demo_gc_observe prune_decide_def demo_gc_facts_def reach_default_def Let_def
      demo_gc_options_def prune_options_default_def to_time_duration_def DEFAULT_GC_GRACE_def plan_now_def
      min_active_latest_def mark_fate_def find_object_def is_live_def modified_at_def time_add_def nanos_ok_def
      NANOS_def demo_gc_mark_def timestamp_ok_def MIN_TIMESTAMP_def MAX_TIMESTAMP_def tally_mark_def no_marks_def
      repack_candidates_def new_marks_def mark_candidates_def)

theorem prune_deletion_rule_witness:
  "\<exists>p. prune_plan demo_gc_repo demo_gc_options 0 demo_gc_state = Some (Inr p)
     \<and> (\<lparr>tg_kind = TreeObject, tg_id = demo_gc_id, tg_info = demo_gc_tree\<rparr>, demo_gc_mark) \<in> set (pl_to_delete p)"
proof -
  obtain p where p: "prune_plan demo_gc_repo demo_gc_options 0 demo_gc_state = Some (Inr p)"
    using demo_gc_plan by blast
  from prune_deletion_rule [OF p demo_gc_observe, of "\<lparr>tg_kind = TreeObject, tg_id = demo_gc_id, tg_info = demo_gc_tree\<rparr>" demo_gc_mark]
  have "(\<lparr>tg_kind = TreeObject, tg_id = demo_gc_id, tg_info = demo_gc_tree\<rparr>, demo_gc_mark) \<in> set (pl_to_delete p)"
    by (simp add: demo_gc_facts_def find_object_def is_live_def reach_default_def modified_at_def demo_gc_mark_def
        demo_gc_options_def prune_options_default_def DEFAULT_GC_GRACE_def plan_now_def NANOS_def)
  with p show ?thesis by blast
qed

end
