(* ===== verification/Store_Frame.thy ===== *)
theory Store_Frame
  imports Backend
begin

text \<open>
  What a sequence of store operations may change. \<open>frame K\<close> relates two contents of the store when
  every key either kept its object or now has a content \<open>K\<close> allows (\<open>None\<close>: it was deleted);
  \<open>io_within\<close> says it of all runs of an operation, failed ones included. The rules follow the
  structure of the code, so the frame of a long procedure is computed by its introduction rules.
\<close>

named_theorems frame_intros

definition io_try :: "('e, 's, 'a) io \<Rightarrow> ('e + 'a \<Rightarrow> ('f, 's, 'b) io) \<Rightarrow> ('f, 's, 'b) io" where
  \<comment> \<open>\<open>match m.await { .. }\<close>\<close>
  "io_try m h = (\<lambda>s. case m s of (r, s') \<Rightarrow> h r s')"

fun io_fold :: "('x \<Rightarrow> 'a \<Rightarrow> ('e, 's, 'a) io) \<Rightarrow> 'x list \<Rightarrow> 'a \<Rightarrow> ('e, 's, 'a) io" where
  \<comment> \<open>a loop that updates a local variable\<close>
  "io_fold f [] acc = io_lift (Inr acc)"
| "io_fold f (x # xs) acc = io_then (f x acc) (io_fold f xs)"

type_synonym key_rule = "string \<Rightarrow> (bytes \<times> int) option \<Rightarrow> bool"

definition frame :: "key_rule \<Rightarrow> objects \<Rightarrow> objects \<Rightarrow> bool" where
  "frame K ob ob' \<longleftrightarrow> (\<forall>k. ob' k = ob k \<or> K k (ob' k))"

definition io_within :: "('s \<Rightarrow> objects) \<Rightarrow> key_rule \<Rightarrow> ('e, 's, 'a) io \<Rightarrow> bool" where
  "io_within objs K m \<longleftrightarrow> (\<forall>s. frame K (objs s) (objs (snd (m s))))"

lemma frame_refl [simp]: "frame K ob ob" by (simp add: frame_def)

lemma frame_trans: "frame K a b \<Longrightarrow> frame K b c \<Longrightarrow> frame K a c"
  unfolding frame_def by metis

lemma frame_mono: "frame K a b \<Longrightarrow> (\<And>k x. K k x \<Longrightarrow> L k x) \<Longrightarrow> frame L a b"
  unfolding frame_def by blast

lemma within_mono: "io_within objs K m \<Longrightarrow> (\<And>k x. K k x \<Longrightarrow> L k x) \<Longrightarrow> io_within objs L m"
  unfolding io_within_def using frame_mono by blast

lemma withinD: "io_within objs K m \<Longrightarrow> m s = (r, s') \<Longrightarrow> frame K (objs s) (objs s')"
  unfolding io_within_def by (metis snd_conv)

lemma within_lift [frame_intros]: "io_within objs K (io_lift r)"
  by (simp add: io_within_def io_lift_def)

lemma within_read [frame_intros]: "io_within objs K (io_read q)"
  by (simp add: io_within_def io_read_def)

lemma within_try [frame_intros]:
  assumes "io_within objs K m" "\<And>r. io_within objs K (h r)"
  shows "io_within objs K (io_try m h)"
  unfolding io_within_def
proof
  fix s
  obtain r s1 where m: "m s = (r, s1)" by force
  have "frame K (objs s) (objs s1)" by (rule withinD [OF assms(1) m])
  moreover have "frame K (objs s1) (objs (snd (h r s1)))" using assms(2) by (simp add: io_within_def)
  ultimately show "frame K (objs s) (objs (snd (io_try m h s)))"
    by (simp add: io_try_def m frame_trans [of K "objs s" "objs s1"])
qed

lemma within_then [frame_intros]:
  assumes "io_within objs K m" "\<And>x. io_within objs K (f x)"
  shows "io_within objs K (io_then m f)"
proof -
  have "io_then m f = io_try m (\<lambda>r. case r of Inl e \<Rightarrow> io_lift (Inl e) | Inr x \<Rightarrow> f x)"
    by (simp add: fun_eq_iff io_then_def io_try_def io_lift_def split: prod.splits sum.splits)
  moreover have "io_within objs K (case r of Inl e \<Rightarrow> io_lift (Inl e) | Inr x \<Rightarrow> f x)" for r
    using assms(2) by (auto intro: frame_intros split: sum.splits)
  ultimately show ?thesis by (simp only: within_try [OF assms(1)])
qed

lemma within_then_value:
  assumes "io_within objs K m" "\<And>s x s'. m s = (Inr x, s') \<Longrightarrow> io_within objs K (f x)"
  shows "io_within objs K (io_then m f)"
  unfolding io_within_def
proof
  fix s
  obtain r s1 where m: "m s = (r, s1)" by force
  have first: "frame K (objs s) (objs s1)" by (rule withinD [OF assms(1) m])
  show "frame K (objs s) (objs (snd (io_then m f s)))"
  proof (cases r)
    case (Inl e)
    with m first show ?thesis by (simp add: io_then_def)
  next
    case (Inr x)
    with m assms(2) have "frame K (objs s1) (objs (snd (f x s1)))" by (simp add: io_within_def)
    with m Inr first show ?thesis by (simp add: io_then_def frame_trans [of K "objs s" "objs s1"])
  qed
qed

lemma within_err [frame_intros]: "io_within objs K m \<Longrightarrow> io_within objs K (io_err h m)"
  unfolding io_within_def io_err_def by (simp add: case_prod_beta)

lemma within_each [frame_intros]: "(\<And>x. x \<in> set xs \<Longrightarrow> io_within objs K (f x)) \<Longrightarrow> io_within objs K (io_each f xs)"
  by (induction xs) (auto intro!: frame_intros)

lemma within_fold [frame_intros]:
  "(\<And>x acc. x \<in> set xs \<Longrightarrow> io_within objs K (f x acc)) \<Longrightarrow> io_within objs K (io_fold f xs acc)"
  by (induction xs arbitrary: acc) (auto intro!: frame_intros)

lemma within_if [frame_intros]:
  "(b \<Longrightarrow> io_within objs K m) \<Longrightarrow> (\<not> b \<Longrightarrow> io_within objs K n) \<Longrightarrow> io_within objs K (if b then m else n)"
  by simp

lemma within_put:
  assumes "store_ok ops objs" "\<And>t. K k (Some (bs, t))"
  shows "io_within objs K (backend_put ops k bs)"
  unfolding io_within_def
proof
  fix s
  obtain r s' where p: "backend_put ops k bs s = (r, s')" by force
  from backend_put_objs(2) [OF assms(1) p] assms(2)
  show "frame K (objs s) (objs (snd (backend_put ops k bs s)))" by (auto simp: frame_def p)
qed

lemma within_put_if_absent:
  assumes "store_ok ops objs" "\<And>t. K k (Some (bs, t))"
  shows "io_within objs K (backend_put_if_absent ops k bs)"
  unfolding io_within_def
proof
  fix s
  obtain r s' where p: "backend_put_if_absent ops k bs s = (r, s')" by force
  from backend_put_if_absent_objs(3) [OF assms(1) p] assms(2)
  show "frame K (objs s) (objs (snd (backend_put_if_absent ops k bs s)))" by (auto simp: frame_def p)
qed

lemma within_delete:
  assumes "store_ok ops objs" "K k None"
  shows "io_within objs K (backend_delete ops k)"
  unfolding io_within_def
proof
  fix s
  obtain r s' where p: "backend_delete ops k s = (r, s')" by force
  from backend_delete_objs(3) [OF assms(1) p] assms(2)
  show "frame K (objs s) (objs (snd (backend_delete ops k s)))" by (auto simp: frame_def p)
qed

end
