(* ===== verification/Prune_Exec.thy ===== *)
theory Prune_Exec
  imports Prune_Plan Store_Frame Repo_Laws Pack_Store
begin

text \<open>
  \<open>PrunePlan::execute\<close> and \<open>repack_packs\<close> of \<open>crates/kist-core/src/prune.rs\<close>: carrying out a plan, in
  the order the code writes: new packs, the new index, deletions, marks, sweeps. \<open>rnd\<close> is the
  stream of nonces the run draws. An operation that fails ends the run where it is.
\<close>

section \<open>Repacking (step 9)\<close>

record repack_state =
  rq_writer :: pack_writer
  rq_copied :: "chunk_id set"
  rq_out :: "index_pack list"
  rq_moved :: nat
  rq_failed :: "(object_id \<times> core_error) list"
  rq_draws :: nat

fun repack_decode :: "ext \<Rightarrow> repo_keys \<Rightarrow> string \<Rightarrow> bytes \<Rightarrow> nat \<Rightarrow> pack_entry list \<Rightarrow> core_error + (chunk_id \<times> bytes) list" where
  "repack_decode ext keys key bs limit [] = Inr []"
| "repack_decode ext keys key bs limit (e # es) =
     and_then (ok_or (Corrupt key ''chunk points outside the pack'')
         (get_slice (pe_offset e) (sat_add64 (pe_offset e) (pe_length e)) bs)) (\<lambda>sealed.
       and_then (decode_chunk ext keys (pe_id e) sealed (pe_raw_len e) limit) (\<lambda>plain.
         and_then (repack_decode ext keys key bs limit es) (\<lambda>rest. Inr ((pe_id e, plain) # rest))))"

definition repack_cut :: "ext \<Rightarrow> pack_trailer codec \<Rightarrow> (nat \<Rightarrow> string + bytes) \<Rightarrow> nat \<Rightarrow> pack_writer \<Rightarrow>
    core_error + (pack_writer \<times> finished_pack list \<times> nat)" where
  "repack_cut ext codec rnd n w =
     (if pw_is_full w
      then (case pw_finish ext codec (rnd n) w of
          (Inl e, w') \<Rightarrow> Inl e
        | (Inr None, w') \<Rightarrow> Inr (w', [], n)
        | (Inr (Some f), w') \<Rightarrow> Inr (w', [f], n + 1))
      else Inr (w, [], n))"

fun repack_add :: "ext \<Rightarrow> pack_trailer codec \<Rightarrow> (nat \<Rightarrow> string + bytes) \<Rightarrow> (chunk_id \<times> bytes) list \<Rightarrow> nat \<Rightarrow> pack_writer \<Rightarrow>
    core_error + (pack_writer \<times> finished_pack list \<times> nat \<times> nat)" where
  "repack_add ext codec rnd [] n w = Inr (w, [], 0, n)"
| "repack_add ext codec rnd ((i, plain) # rest) n w =
     and_then (pw_add ext (rnd n) w i plain) (\<lambda>(entry, w1).
       and_then (repack_cut ext codec rnd (n + 1) w1) (\<lambda>(w2, fs, n2).
         and_then (repack_add ext codec rnd rest n2 w2) (\<lambda>(w3, gs, moved, n3).
           Inr (w3, fs @ gs, add64 (pe_length entry) moved, n3))))"

definition pack_item :: "finished_pack \<Rightarrow> index_pack" where
  "pack_item f = \<lparr>ip_pack = fp_id f, ip_size = length (fp_bytes f), ip_entries = fp_entries f\<rparr>"

definition store_pack :: "'s repository \<Rightarrow> finished_pack \<Rightarrow> (core_error, 's, unit) io" where
  "store_pack r f = io_err BackendE (backend_put (rp_ops r) (pack_key (rp_ext r) (fp_id f)) (fp_bytes f))"

definition repack_entries :: "prune_index \<Rightarrow> object_id set \<Rightarrow> chunk_id set \<Rightarrow> index_pack \<Rightarrow> pack_entry list" where
  "repack_entries idx kept copied p =
     filter (\<lambda>e. px_is_referenced idx (pe_id e) \<and> \<not> px_held_by idx (pe_id e) kept \<and> pe_id e \<notin> copied) (ip_entries p)"

definition repack_one :: "'s repository \<Rightarrow> (nat \<Rightarrow> string + bytes) \<Rightarrow> (object_id \<times> index_pack) list \<Rightarrow> prune_index \<Rightarrow>
    object_id set \<Rightarrow> object_id \<Rightarrow> repack_state \<Rightarrow> (core_error, 's, repack_state) io" where
  "repack_one r rnd indexed idx kept pack q =
     (case map_of indexed pack of None \<Rightarrow> io_lift (Inr q) | Some p \<Rightarrow>
       (let entries = repack_entries idx kept (rq_copied q) p; key = pack_key (rp_ext r) pack
        in if entries = [] then io_lift (Inr q)
           else io_try (io_read (backend_get (rp_ops r) key)) (\<lambda>res. case res of
               Inl e \<Rightarrow> io_lift (Inr (q\<lparr>rq_failed := rq_failed q @ [(pack, BackendE e)]\<rparr>))
             | Inr bs \<Rightarrow>
                 (case repack_decode (rp_ext r) (rp_keys r) key bs (max_chunk r) entries of
                    Inl e \<Rightarrow> io_lift (Inr (q\<lparr>rq_failed := rq_failed q @ [(pack, e)]\<rparr>))
                  | Inr plains \<Rightarrow>
                      io_then (io_lift (repack_add (rp_ext r) (ev_trailer (rp_env r)) rnd plains (rq_draws q) (rq_writer q)))
                        (\<lambda>(w, fs, moved, n).
                          io_then (io_each (store_pack r) fs) (\<lambda>_.
                            io_lift (Inr (q\<lparr>rq_writer := w, rq_copied := rq_copied q \<union> pe_id ` set entries,
                              rq_out := rq_out q @ map pack_item fs, rq_moved := add64 (rq_moved q) moved,
                              rq_draws := n\<rparr>))))))))"

definition repack_start :: "'s repository \<Rightarrow> nat \<Rightarrow> repack_state" where
  "repack_start r tsize = \<lparr>rq_writer = new_pack_writer (rp_keys r) tsize (max_chunk r), rq_copied = {},
     rq_out = [], rq_moved = 0, rq_failed = [], rq_draws = 0\<rparr>"

definition repack_last :: "'s repository \<Rightarrow> (nat \<Rightarrow> string + bytes) \<Rightarrow> repack_state \<Rightarrow> (core_error, 's, repack_state) io" where
  "repack_last r rnd q =
     (case pw_finish (rp_ext r) (ev_trailer (rp_env r)) (rnd (rq_draws q)) (rq_writer q) of
        (Inl e, w) \<Rightarrow> io_lift (Inl e)
      | (Inr None, w) \<Rightarrow> io_lift (Inr q)
      | (Inr (Some f), w) \<Rightarrow>
          io_then (store_pack r f) (\<lambda>_. io_lift (Inr (q\<lparr>rq_out := rq_out q @ [pack_item f], rq_draws := rq_draws q + 1\<rparr>))))"

definition repack_packs :: "'s repository \<Rightarrow> (nat \<Rightarrow> string + bytes) \<Rightarrow> object_id list \<Rightarrow> (object_id \<times> index_pack) list \<Rightarrow>
    prune_index \<Rightarrow> object_id set \<Rightarrow> nat \<Rightarrow> (core_error, 's, repack_state) io" where
  "repack_packs r rnd packs indexed idx kept tsize =
     (if packs = [] then io_lift (Inr (repack_start r tsize))
      else io_then (io_fold (repack_one r rnd indexed idx kept) packs (repack_start r tsize)) (repack_last r rnd))"

section \<open>The new index (step 10)\<close>

definition deleted_packs :: "gc_plan \<Rightarrow> object_id set" where
  "deleted_packs p = set (map (\<lambda>(t, _). tg_id t)
     (filter (\<lambda>(t, _). tg_kind t = PackObject \<and> map_of (pl_indexed p) (tg_id t) \<noteq> None) (pl_to_delete p)))"

definition needs_index :: "gc_plan \<Rightarrow> index_pack list \<Rightarrow> bool" where
  "needs_index p new \<longleftrightarrow> deleted_packs p \<noteq> {} \<or> new \<noteq> [] \<or> pl_phantoms p \<noteq> {} \<or> pl_effective_blobs p > MAX_EFFECTIVE_BLOBS"

definition index_content :: "gc_plan \<Rightarrow> index_pack list \<Rightarrow> index_pack list" where
  "index_content p new =
     (let dropped = (\<lambda>x. ip_pack x \<in> deleted_packs p \<or> ip_pack x \<in> pl_phantoms p);
          marked_now = (\<lambda>x. ip_pack x \<in> set (pl_repack p) \<or> ip_pack x \<in> pl_marked_packs p);
          old = map snd (pl_indexed p)
      in new @ sort_key ip_pack (filter (\<lambda>x. \<not> dropped x \<and> \<not> marked_now x) old)
         @ sort_key ip_pack (filter (\<lambda>x. \<not> dropped x \<and> marked_now x) old))"

definition exec_blob :: "gc_plan \<Rightarrow> index_pack list \<Rightarrow> index_blob" where
  "exec_blob p new = (new_blob (index_content p new))\<lparr>ib_supersedes := sort (pl_all_blob_ids p)\<rparr>"

definition exec_index :: "'s repository \<Rightarrow> string + bytes \<Rightarrow> gc_plan \<Rightarrow> index_pack list \<Rightarrow> (core_error, 's, unit) io" where
  "exec_index r os p new =
     (if needs_index p new then io_then (write_index r os (exec_blob p new)) (\<lambda>_. io_lift (Inr ()))
      else io_lift (Inr ()))"

section \<open>Deletions and marks (steps 11 and 12)\<close>

definition delete_if_there :: "'s repository \<Rightarrow> string \<Rightarrow> (core_error, 's, unit) io" where
  "delete_if_there r key =
     io_try (backend_delete (rp_ops r) key) (\<lambda>res. io_lift (case res of
       Inr u \<Rightarrow> Inr () | Inl (ObjNotFound k) \<Rightarrow> Inr () | Inl e \<Rightarrow> Inl (BackendE e)))"

record prune_run =
  ru_report :: prune_report
  ru_remove :: "object_id list"

definition run_revive :: "object_id \<Rightarrow> prune_run \<Rightarrow> prune_run" where
  "run_revive i ru = \<lparr>ru_report = (ru_report ru)\<lparr>pr_revived := pr_revived (ru_report ru) + 1\<rparr>, ru_remove = ru_remove ru @ [i]\<rparr>"

definition run_stale :: "object_id \<Rightarrow> prune_run \<Rightarrow> prune_run" where
  "run_stale i ru = \<lparr>ru_report = (ru_report ru)\<lparr>pr_stale_marks := pr_stale_marks (ru_report ru) + 1\<rparr>, ru_remove = ru_remove ru @ [i]\<rparr>"

definition run_deleted :: "target \<Rightarrow> prune_run \<Rightarrow> prune_run" where
  "run_deleted t ru = \<lparr>ru_report = (ru_report ru)\<lparr>pr_deleted := pr_deleted (ru_report ru) + 1,
     pr_deleted_bytes := add64 (pr_deleted_bytes (ru_report ru)) (oi_size (tg_info t))\<rparr>, ru_remove = ru_remove ru @ [tg_id t]\<rparr>"

definition run_skipped :: "string \<Rightarrow> prune_run \<Rightarrow> prune_run" where
  "run_skipped key ru = ru\<lparr>ru_report := (ru_report ru)\<lparr>pr_skipped := pr_skipped (ru_report ru) @ [key]\<rparr>\<rparr>"

definition group_keys :: "ext \<Rightarrow> target \<Rightarrow> string list" where
  "group_keys ext t =
     (case tg_kind t of
        PackObject \<Rightarrow> [parity_key ext (tg_id t)]
      | TreeObject \<Rightarrow> [tree_replica_key ext (as_tree (tg_id t)), touch_key ext (as_tree (tg_id t))]
      | IndexObject \<Rightarrow> [])"

definition really_delete :: "'s repository \<Rightarrow> target \<Rightarrow> prune_run \<Rightarrow> (core_error, 's, prune_run) io" where
  "really_delete r t ru =
     (let key = kind_key (rp_ext r) (tg_kind t) (tg_id t)
      in io_try (backend_delete (rp_ops r) key) (\<lambda>res. case res of
          Inl e \<Rightarrow> io_lift (Inr (run_skipped key ru))
        | Inr u \<Rightarrow> io_then (io_each (delete_if_there r) (group_keys (rp_ext r) t)) (\<lambda>_. io_lift (Inr (run_deleted t ru)))))"

definition delete_untouched :: "'s repository \<Rightarrow> target \<Rightarrow> object_info \<Rightarrow> prune_run \<Rightarrow> (core_error, 's, prune_run) io" where
  "delete_untouched r t mark ru =
     (if tg_kind t = TreeObject then
        io_try (io_read (backend_head (rp_ops r) (touch_key (rp_ext r) (as_tree (tg_id t))))) (\<lambda>res. case res of
            Inr h \<Rightarrow> (if oi_modified h \<ge> oi_modified mark then io_lift (Inr (run_revive (tg_id t) ru)) else really_delete r t ru)
          | Inl (ObjNotFound k) \<Rightarrow> really_delete r t ru
          | Inl e \<Rightarrow> io_lift (Inl (BackendE e)))
      else really_delete r t ru)"

definition delete_target :: "'s repository \<Rightarrow> target \<times> object_info \<Rightarrow> prune_run \<Rightarrow> (core_error, 's, prune_run) io" where
  "delete_target r = (\<lambda>(t, mark) ru.
     io_try (io_read (backend_head (rp_ops r) (kind_key (rp_ext r) (tg_kind t) (tg_id t)))) (\<lambda>res. case res of
         Inr h \<Rightarrow> (if oi_modified h \<ge> oi_modified mark then io_lift (Inr (run_revive (tg_id t) ru)) else delete_untouched r t mark ru)
       | Inl (ObjNotFound k) \<Rightarrow> io_lift (Inr (run_stale (tg_id t) ru))
       | Inl e \<Rightarrow> io_lift (Inl (BackendE e))))"

definition remove_mark :: "'s repository \<Rightarrow> object_id \<Rightarrow> (core_error, 's, unit) io" where
  "remove_mark r i = delete_if_there r (gc_key (rp_ext r) i)"

definition put_mark :: "'s repository \<Rightarrow> target \<Rightarrow> (core_error, 's, unit) io" where
  "put_mark r t =
     io_try (backend_put_if_absent (rp_ops r) (gc_key (rp_ext r) (tg_id t)) GC_MARK_MAGIC) (\<lambda>res. io_lift (case res of
       Inr u \<Rightarrow> Inr () | Inl (ObjAlreadyExists k) \<Rightarrow> Inr () | Inl e \<Rightarrow> Inl (BackendE e)))"

section \<open>Sweeps (steps 13 and 14)\<close>

definition list_keys :: "'s repository \<Rightarrow> string \<Rightarrow> (core_error, 's, string list) io" where
  "list_keys r prefix = io_then (io_err BackendE (io_read (backend_list (rp_ops r) prefix))) (\<lambda>os. io_lift (Inr (map oi_key os)))"

definition exists_key :: "'s repository \<Rightarrow> string \<Rightarrow> (core_error, 's, bool) io" where
  "exists_key r key = io_err BackendE (io_read (backend_exists (rp_ops r) key))"

definition sweep_sidecar :: "'s repository \<Rightarrow> string set \<Rightarrow> string \<Rightarrow> (core_error, 's, unit) io" where
  "sweep_sidecar r stored key =
     io_then
       (case object_id_from_key (rp_ext r) key of
          Inl e \<Rightarrow> io_lift (Inr True)
        | Inr i \<Rightarrow>
            (if pack_key (rp_ext r) i \<in> stored then io_lift (Inr False)
             else io_then (exists_key r (pack_key (rp_ext r) i)) (\<lambda>b. io_lift (Inr (\<not> b)))))
       (\<lambda>gone. if gone then delete_if_there r key else io_lift (Inr ()))"

definition sweep_parity :: "'s repository \<Rightarrow> (core_error, 's, unit) io" where
  "sweep_parity r =
     io_then (list_keys r PACKS_PREFIX) (\<lambda>stored.
       io_then (list_keys r PARITY_PREFIX) (\<lambda>sidecars. io_each (sweep_sidecar r (set stored)) sidecars))"

definition sweep_one_touch :: "'s repository \<Rightarrow> string \<Rightarrow> (core_error, 's, unit) io" where
  "sweep_one_touch r key =
     (case strip_prefix (TOUCH_PREFIX @ ''/'') key of
        None \<Rightarrow> io_lift (Inr ())
      | Some hex \<Rightarrow>
          (case id_from_hex (rp_ext r) hex of
             Inl e \<Rightarrow> io_try (backend_delete (rp_ops r) key) (\<lambda>res. io_lift (Inr ()))
           | Inr bs \<Rightarrow>
               io_then (exists_key r (tree_key (rp_ext r) (TreeId bs))) (\<lambda>b.
                 if b then io_lift (Inr ()) else delete_if_there r key)))"

definition sweep_touch :: "'s repository \<Rightarrow> (core_error, 's, unit) io" where
  "sweep_touch r = io_then (list_keys r TOUCH_PREFIX) (io_each (sweep_one_touch r))"

section \<open>The whole run\<close>

definition exec_marks :: "gc_plan \<Rightarrow> repack_state \<Rightarrow> target list" where
  \<comment> \<open>a pack that could not be repacked is not marked\<close>
  "exec_marks p q = filter (\<lambda>t. \<not> (tg_kind t = PackObject \<and> tg_id t \<in> fst ` set (rq_failed q))) (pl_to_mark p)"

definition exec_report :: "ext \<Rightarrow> gc_plan \<Rightarrow> repack_state \<Rightarrow> prune_report" where
  "exec_report ext p q = (pl_report p)\<lparr>pr_repacked_bytes := rq_moved q, pr_new_packs := length (rq_out q),
     pr_skipped := pr_skipped (pl_report p) @ map (\<lambda>(i, e). pack_key ext i) (rq_failed q),
     pr_repacked_packs := pr_repacked_packs (pl_report p) - card (fst ` set (rq_failed q)),
     pr_marked := length (exec_marks p q), pr_marked_bytes := target_bytes (exec_marks p q)\<rparr>"

definition exec_writes :: "'s repository \<Rightarrow> (nat \<Rightarrow> string + bytes) \<Rightarrow> gc_plan \<Rightarrow> (core_error, 's, repack_state) io" where
  "exec_writes r rnd p =
     io_then (repack_packs r rnd (pl_repack p) (pl_indexed p) (pl_idx p) (pl_needed p - set (pl_repack p)) (pl_target_size p)) (\<lambda>q.
       io_then (exec_index r (rnd (rq_draws q)) p (rq_out q)) (\<lambda>_. io_lift (Inr q)))"

definition exec_removals :: "'s repository \<Rightarrow> gc_plan \<Rightarrow> repack_state \<Rightarrow> (core_error, 's, prune_report) io" where
  "exec_removals r p q =
     io_then (io_fold (delete_target r) (pl_to_delete p)
         \<lparr>ru_report = exec_report (rp_ext r) p q, ru_remove = pl_marks_to_remove p\<rparr>) (\<lambda>ru.
       io_then (io_each (remove_mark r) (ru_remove ru)) (\<lambda>_.
         io_then (io_each (put_mark r) (exec_marks p q)) (\<lambda>_.
           io_then (sweep_parity r) (\<lambda>_.
             io_then (sweep_touch r) (\<lambda>_. io_lift (Inr (ru_report ru)))))))"

definition prune_execute :: "'s repository \<Rightarrow> (nat \<Rightarrow> string + bytes) \<Rightarrow> gc_plan \<Rightarrow> (core_error, 's, prune_report) io" where
  "prune_execute r rnd p =
     (if pl_dry_run p then io_lift (Inr (pl_report p))
      else io_then (exec_writes r rnd p) (exec_removals r p))"

definition prune :: "'s repository \<Rightarrow> prune_options \<Rightarrow> int \<Rightarrow> (nat \<Rightarrow> string + bytes) \<Rightarrow> 's \<Rightarrow>
    ((core_error + prune_report) \<times> 's) option" where
  "prune r opts clock rnd s =
     map_option (\<lambda>plan. case plan of Inl e \<Rightarrow> (Inl e, s) | Inr p \<Rightarrow> prune_execute r rnd p s) (prune_plan r opts clock s)"

section \<open>What a run may change\<close>

definition content_addressed :: "ext \<Rightarrow> key_rule" where
  "content_addressed ext k x \<longleftrightarrow> (\<exists>i bs t. (k = pack_key ext i \<or> k = index_key ext i) \<and> x = Some (bs, t) \<and> object_id_of ext bs = i)"

definition garbage_removed :: "ext \<Rightarrow> (target \<times> object_info) list \<Rightarrow> key_rule" where
  "garbage_removed ext ts k x \<longleftrightarrow>
     x = None \<and> (\<exists>(t, mark) \<in> set ts. k = kind_key ext (tg_kind t) (tg_id t) \<or> k \<in> set (group_keys ext t))
     \<or> under_prefix GC_PREFIX k \<or> x = None \<and> (under_prefix PARITY_PREFIX k \<or> under_prefix TOUCH_PREFIX k)"

definition target_removed :: "ext \<Rightarrow> target \<Rightarrow> key_rule" where
  "target_removed ext t k x \<longleftrightarrow> x = None \<and> (k = kind_key ext (tg_kind t) (tg_id t) \<or> k \<in> set (group_keys ext t))"

definition well_named :: "ext \<Rightarrow> finished_pack \<Rightarrow> bool" where
  "well_named ext f \<longleftrightarrow> object_id_of ext (fp_bytes f) = fp_id f"

lemma pw_finish_named: "pw_finish ext codec os w = (Inr (Some f), w') \<Longrightarrow> well_named ext f"
  by (auto simp: pw_finish_def well_named_def result_simps Let_def split: if_splits)

lemma repack_cut_named: "repack_cut ext codec rnd n w = Inr (w', fs, m) \<Longrightarrow> f \<in> set fs \<Longrightarrow> well_named ext f"
  by (auto simp: repack_cut_def pw_finish_named split: if_splits prod.splits sum.splits option.splits)

lemma repack_add_named: "repack_add ext codec rnd ps n w = Inr (w', fs, moved, m) \<Longrightarrow> f \<in> set fs \<Longrightarrow> well_named ext f"
  by (induction ext codec rnd ps n w arbitrary: w' fs moved m rule: repack_add.induct)
    (auto simp: result_simps dest: repack_cut_named)


lemma store_pack_within:
  assumes store: "store_ok (rp_ops r) objs"
  shows "well_named (rp_ext r) f \<Longrightarrow> io_within objs (content_addressed (rp_ext r)) (store_pack r f)"
  unfolding store_pack_def
  by (intro within_err within_put [OF store]) (auto simp: content_addressed_def well_named_def)

lemma repack_one_within:
  assumes store: "store_ok (rp_ops r) objs"
  shows "io_within objs (content_addressed (rp_ext r)) (repack_one r rnd indexed idx kept pack q)"
  proof (cases "map_of indexed pack")
  case None
  then show ?thesis by (simp add: repack_one_def within_lift)
next
  case (Some p)
  have add: "io_within objs (content_addressed (rp_ext r))
      (io_then (io_lift (repack_add (rp_ext r) (ev_trailer (rp_env r)) rnd plains (rq_draws q) (rq_writer q)))
        (\<lambda>(w, fs, moved, n). io_then (io_each (store_pack r) fs) (\<lambda>_. io_lift (Inr (h w fs moved n)))))" for plains h
  proof (rule within_then_value [OF within_lift])
    fix s x s'
    assume "io_lift (repack_add (rp_ext r) (ev_trailer (rp_env r)) rnd plains (rq_draws q) (rq_writer q)) s = (Inr x, s')"
    then have "repack_add (rp_ext r) (ev_trailer (rp_env r)) rnd plains (rq_draws q) (rq_writer q) = Inr x"
      by (simp add: io_lift_def)
    then show "io_within objs (content_addressed (rp_ext r))
        (case x of (w, fs, moved, n) \<Rightarrow> io_then (io_each (store_pack r) fs) (\<lambda>_. io_lift (Inr (h w fs moved n))))"
      by (cases x) (auto intro!: frame_intros store_pack_within [OF store] dest: repack_add_named)
  qed
  then show ?thesis
    unfolding repack_one_def Let_def Some option.case
    by (auto intro!: within_if within_lift within_try within_read split: sum.splits)
qed

lemma repack_packs_within:
  assumes store: "store_ok (rp_ops r) objs"
  shows "io_within objs (content_addressed (rp_ext r)) (repack_packs r rnd packs indexed idx kept n)"
  proof -
  have "io_within objs (content_addressed (rp_ext r)) (repack_last r rnd q)" for q
    unfolding repack_last_def
    by (auto intro!: within_lift within_then store_pack_within [OF store] dest: pw_finish_named split: prod.splits sum.splits option.splits)
  then show ?thesis
    unfolding repack_packs_def by (intro within_if within_lift within_then within_fold repack_one_within [OF store])
qed

lemma write_index_within:
  assumes store: "store_ok (rp_ops r) objs"
  shows "io_within objs (content_addressed (rp_ext r)) (write_index r os blob)"
  unfolding write_index_def Let_def
  by (intro within_then within_lift within_err within_put [OF store]) (auto simp: content_addressed_def)

lemma exec_writes_within:
  assumes store: "store_ok (rp_ops r) objs"
  shows "io_within objs (content_addressed (rp_ext r)) (exec_writes r rnd p)"
  unfolding exec_writes_def exec_index_def
  by (intro within_then within_if within_lift repack_packs_within [OF store] write_index_within [OF store])

lemma delete_if_there_within:
  assumes store: "store_ok (rp_ops r) objs"
  shows "K key None \<Longrightarrow> io_within objs K (delete_if_there r key)"
  unfolding delete_if_there_def by (intro within_try within_lift within_delete [OF store])

lemma delete_target_frame:
  assumes store: "store_ok (rp_ops r) objs"
  shows "io_within objs (target_removed (rp_ext r) t) (delete_target r (t, mark) ru)"
proof -
  let ?K = "target_removed (rp_ext r) t"
  have "?K (kind_key (rp_ext r) (tg_kind t) (tg_id t)) None" and "\<And>k. k \<in> set (group_keys (rp_ext r) t) \<Longrightarrow> ?K k None"
    by (auto simp: target_removed_def)
  then have del: "io_within objs ?K (really_delete r t ru)"
    unfolding really_delete_def Let_def
    by (intro within_try within_delete [OF store])
      (auto intro!: frame_intros delete_if_there_within [OF store] split: sum.splits)
  have "io_within objs ?K (delete_untouched r t mark ru)"
    unfolding delete_untouched_def
    by (intro within_if within_try within_read del)
      (auto intro!: within_if within_lift del split: sum.splits backend_error.splits)
  then show ?thesis
    unfolding delete_target_def prod.case
    by (intro within_try within_read)
      (auto intro!: within_if within_lift split: sum.splits backend_error.splits)
qed

lemma delete_target_within:
  assumes "store_ok (rp_ops r) objs" "x \<in> set ts"
  shows "io_within objs (garbage_removed (rp_ext r) ts) (delete_target r x ru)"
  using assms within_mono [OF delete_target_frame [OF assms(1)], of "fst x" "garbage_removed (rp_ext r) ts" "snd x" ru]
  by (fastforce simp: target_removed_def garbage_removed_def)

lemma list_keys_Inr:
  assumes store: "store_ok (rp_ops r) objs"
  shows "list_keys r prefix s = (Inr ks, s') \<Longrightarrow> k \<in> set ks \<Longrightarrow> under_prefix prefix k"
  proof -
  assume l: "list_keys r prefix s = (Inr ks, s')" and k: "k \<in> set ks"
  from l obtain os where os: "backend_list (rp_ops r) prefix s = Inr os" and ks: "ks = map oi_key os"
    by (auto simp: list_keys_def result_simps)
  from backend_list_objs(2) [OF store os] k ks show ?thesis by (auto simp: set_eq_iff image_iff)
qed

lemma list_keys_within: "io_within objs K (list_keys r prefix)"
  unfolding list_keys_def by (intro within_then within_err within_read within_lift)

lemma exists_key_within: "io_within objs K (exists_key r key)"
  unfolding exists_key_def by (intro within_err within_read)

lemma gc_key_prefix: "under_prefix GC_PREFIX (gc_key ext i)"
  by (simp add: under_prefix_def starts_with_def gc_key_def)

lemma sweeps_within:
  assumes store: "store_ok (rp_ops r) objs"
  shows "io_within objs (garbage_removed (rp_ext r) ts) (sweep_parity r)"
  "io_within objs (garbage_removed (rp_ext r) ts) (sweep_touch r)"
  proof -
  let ?K = "garbage_removed (rp_ext r) ts"
  have side: "io_within objs ?K (sweep_sidecar r stored key)" if "under_prefix PARITY_PREFIX key" for stored key
    unfolding sweep_sidecar_def
    by (auto intro!: within_then within_if within_lift exists_key_within delete_if_there_within [OF store]
        simp: garbage_removed_def that split: sum.splits)
  show "io_within objs ?K (sweep_parity r)"
    unfolding sweep_parity_def
    by (rule within_then [OF list_keys_within], rule within_then_value [OF list_keys_within])
      (auto intro!: within_each side dest: list_keys_Inr [OF store])
  have touch: "io_within objs ?K (sweep_one_touch r key)" if "under_prefix TOUCH_PREFIX key" for key
  proof -
    have "?K key None" using that by (simp add: garbage_removed_def)
    then show ?thesis
      unfolding sweep_one_touch_def
      by (auto intro!: within_then within_if within_lift within_try within_delete [OF store] exists_key_within
          delete_if_there_within [OF store] split: option.splits sum.splits)
  qed
  show "io_within objs ?K (sweep_touch r)"
    unfolding sweep_touch_def
    by (rule within_then_value [OF list_keys_within]) (auto intro!: within_each touch dest: list_keys_Inr [OF store])
qed

lemma exec_removals_within:
  assumes store: "store_ok (rp_ops r) objs"
  shows "io_within objs (garbage_removed (rp_ext r) (pl_to_delete p)) (exec_removals r p q)"
  proof -
  let ?K = "garbage_removed (rp_ext r) (pl_to_delete p)"
  have gc: "?K (gc_key (rp_ext r) i) x" for i x using gc_key_prefix by (simp add: garbage_removed_def)
  have put: "io_within objs ?K (put_mark r t)" for t
    unfolding put_mark_def by (intro within_try within_lift within_put_if_absent [OF store] gc)
  show ?thesis
    unfolding exec_removals_def
    by (intro within_then within_fold within_each within_lift sweeps_within [OF store] delete_target_within [OF store] put)
      (simp_all add: remove_mark_def delete_if_there_within [OF store] gc)
qed

section \<open>What nothing needs is all that goes\<close>

lemma under_prefix_keys [simp]:
  "\<not> under_prefix SNAPSHOTS_PREFIX (pack_key ext i)" "\<not> under_prefix SNAPSHOTS_PREFIX (index_key ext i)"
  "\<not> under_prefix SNAPSHOTS_PREFIX (tree_key ext t)" "\<not> under_prefix SNAPSHOTS_PREFIX (tree_replica_key ext t)"
  "\<not> under_prefix SNAPSHOTS_PREFIX (touch_key ext t)" "\<not> under_prefix SNAPSHOTS_PREFIX (parity_key ext i)"
  "\<not> under_prefix GC_PREFIX (tree_key ext t)" "\<not> under_prefix GC_PREFIX (tree_replica_key ext t)"
  "\<not> under_prefix GC_PREFIX (pack_key ext i)" "\<not> under_prefix PARITY_PREFIX (pack_key ext i)"
  "\<not> under_prefix TOUCH_PREFIX (pack_key ext i)" "\<not> under_prefix PARITY_PREFIX (tree_key ext t)"
  "\<not> under_prefix TOUCH_PREFIX (tree_key ext t)" "\<not> under_prefix PARITY_PREFIX (tree_replica_key ext t)"
  "\<not> under_prefix TOUCH_PREFIX (tree_replica_key ext t)"
  by (simp_all add: under_prefix_def starts_with_def key_defs prefix_defs)

lemma under_prefix_disjoint:
  "under_prefix SNAPSHOTS_PREFIX k \<Longrightarrow> \<not> under_prefix GC_PREFIX k \<and> \<not> under_prefix PARITY_PREFIX k \<and> \<not> under_prefix TOUCH_PREFIX k"
  unfolding under_prefix_def starts_with_iff prefix_defs by auto

lemma group_keys_kinds:
  "k \<in> set (group_keys ext t) \<Longrightarrow> (\<exists>i. k = parity_key ext i) \<or> k = tree_replica_key ext (as_tree (tg_id t)) \<or> k = touch_key ext (as_tree (tg_id t))"
  by (cases "tg_kind t") (auto simp: group_keys_def)

lemma as_tree_object [simp]: "as_tree i = t \<longleftrightarrow> i = tree_object t"
  by (cases i; cases t) (simp add: as_tree_def tree_object_def)

lemma tree_object_as_tree [simp]: "tree_object (as_tree i) = i"
  by (cases i) (simp add: as_tree_def tree_object_def)

lemma planned_is_garbage:
  assumes "prune_plan r opts clock s = Some (Inr p)" "prune_observe r s = Some (Inr v)" "(t, mark) \<in> set (pl_to_delete p)"
  shows "\<not> is_live v (tg_kind t) (tg_id t)"
proof -
  obtain v' where v': "prune_observe r s = Some (Inr v')"
    and d: "prune_decide r opts (plan_now opts clock) (po_grace opts) (po_inactive_after opts) v' = Some (Inr p)"
    by (rule prune_plan_SomeE [OF assms(1)])
  have "v' = v" using v' assms(2) by simp
  with d obtain newest m where
      m: "decide_marks (mark_fate (pv_lists v) (is_live v) (po_grace opts) (plan_now opts clock) newest) (pv_marks v) no_marks = Some m"
    and del: "set (pl_to_delete p) = set (mt_delete m)"
    by (elim prune_decide_SomeE) auto
  from decide_marks_Some [OF m] assms(3) obtain i where
    "mark_fate (pv_lists v) (is_live v) (po_grace opts) (plan_now opts clock) newest i mark = Some (Doomed t)"
    by (auto simp: del no_marks_def)
  then show ?thesis by (auto simp: mark_fate_def split: option.splits prod.splits if_splits)
qed

lemma prune_execute_frame:
  assumes "store_ok (rp_ops r) objs" "prune_execute r rnd p s = (res, s')"
  obtains s1 where "frame (content_addressed (rp_ext r)) (objs s) (objs s1)"
    "frame (garbage_removed (rp_ext r) (pl_to_delete p)) (objs s1) (objs s')"
proof (cases "pl_dry_run p")
  case True
  with assms(2) have "s' = s" by (simp add: prune_execute_def io_lift_def)
  with that [of s] show ?thesis by simp
next
  case False
  obtain q s1 where w: "exec_writes r rnd p s = (q, s1)" by force
  have f: "frame (content_addressed (rp_ext r)) (objs s) (objs s1)" by (rule withinD [OF exec_writes_within [OF assms(1)] w])
  show ?thesis
  proof (cases q)
    case (Inl e)
    with assms(2) False w have "s' = s1" by (simp add: prune_execute_def io_then_def)
    with f that show ?thesis by simp
  next
    case (Inr q')
    with assms(2) False w have "exec_removals r p q' s1 = (res, s')" by (simp add: prune_execute_def io_then_def)
    with f that withinD [OF exec_removals_within [OF assms(1)]] show ?thesis by blast
  qed
qed

lemma prune_SomeE:
  assumes "prune r opts clock rnd s = Some (res, s')"
  obtains e where "prune_plan r opts clock s = Some (Inl e)" "s' = s" "res = Inl e"
    | p where "prune_plan r opts clock s = Some (Inr p)" "prune_execute r rnd p s = (res, s')"
proof -
  from assms obtain plan where plan: "prune_plan r opts clock s = Some plan"
    and run: "(case plan of Inl e \<Rightarrow> (Inl e, s) | Inr p \<Rightarrow> prune_execute r rnd p s) = (res, s')"
    by (auto simp: prune_def)
  show ?thesis
  proof (cases plan)
    case (Inl e)
    with plan run show ?thesis by (intro that(1)) auto
  next
    case (Inr p)
    with plan run show ?thesis by (intro that(2)) simp_all
  qed
qed

lemma indexed_packs_keys: "map_of (indexed_packs ps acc) i \<noteq> None \<longleftrightarrow> map_of acc i \<noteq> None \<or> i \<in> ip_pack ` set ps"
  by (induction ps acc rule: indexed_packs.induct) (auto simp: map_add_Some_iff map_add_def split: option.splits if_splits)

lemma index_records_pack: "h \<in> set (index_records ps) \<Longrightarrow> tb_pack h \<in> ip_pack ` set ps"
  by (auto simp: index_records_def pack_records_def location_def)

text \<open>A referenced chunk has a needed holder that is not a phantom.\<close>

lemma needed_holder:
  assumes "mark_and_canonicalize (prune_index_new (index_records ps)) ids m (phantom_packs (indexed_packs ps []) packs)
      = Inr (x, needed, live)"
    and "c \<in> set ids"
    and "\<And>h. tb_pack h \<in> needed \<Longrightarrow> P h"
  shows "\<exists>h \<in> set (index_records ps). tb_id h = c \<and> map_of packs (tb_pack h) \<noteq> None \<and> P h"
proof -
  let ?x = "prune_index_new (index_records ps)" and ?ph = "phantom_packs (indexed_packs ps []) packs"
  from assms(1) have all: "\<forall>c \<in> set ids. live_holders (px_records ?x) ?ph c \<noteq> []"
    and needed: "needed = canonical_pack (px_records ?x) m ?ph ` set ids"
    by (auto simp: mark_and_canonicalize_eq Let_def split: if_splits)
  from all assms(2) obtain h where h: "canonical_holder (px_records ?x) m ?ph c = Some h"
    using holder_min_None [of m "live_holders (px_records ?x) ?ph c"] by (auto simp: canonical_holder_def)
  then have mem: "h \<in> set (px_records ?x)" "tb_id h = c" "tb_pack h \<notin> ?ph"
    using holder_min_in [of m "live_holders (px_records ?x) ?ph c" h] by (auto simp: canonical_holder_def live_holders_def)
  then obtain h' where h': "h' \<in> set (index_records ps)" "tb_id h' = c" "tb_pack h' = tb_pack h"
    using px_records_new_keys [of "index_records ps"] by (auto simp: set_eq_iff image_iff) (metis prod.inject)
  have "map_of (indexed_packs ps []) (tb_pack h) \<noteq> None"
    using index_records_pack [OF h'(1)] h'(3) by (simp add: indexed_packs_keys del: not_None_eq)
  then have "tb_pack h \<in> set (map fst (indexed_packs ps []))" by (metis map_of_eq_None_iff set_map)
  with mem(3) have "map_of packs (tb_pack h) \<noteq> None" unfolding phantom_packs_def by auto
  moreover have "tb_pack h' \<in> needed" using needed assms(2) h h'(3) by force
  ultimately show ?thesis using h' assms(3) by (metis)
qed

definition same_or_content :: "ext \<Rightarrow> objects \<Rightarrow> objects \<Rightarrow> string \<Rightarrow> object_id \<Rightarrow> bool" where
  \<comment> \<open>unchanged, or written again with bytes of the same content hash\<close>
  "same_or_content ext ob ob' k i \<longleftrightarrow> ob' k = ob k \<or> (\<exists>bs t. ob' k = Some (bs, t) \<and> object_id_of ext bs = i)"

definition targeted :: "gc_plan \<Rightarrow> gc_kind \<Rightarrow> object_id \<Rightarrow> bool" where
  "targeted p kind i \<longleftrightarrow> (\<exists>(u, mark) \<in> set (pl_to_delete p). tg_kind u = kind \<and> tg_id u = i)"

lemma garbage_tree:
  assumes "hex_ok ext" "garbage_removed ext ts k x" "k = tree_key ext t \<or> k = tree_replica_key ext t"
  shows "\<exists>(u, mark) \<in> set ts. tg_kind u = TreeObject \<and> tg_id u = tree_object t"
proof -
  from assms(2,3) obtain u mark where u: "(u, mark) \<in> set ts"
    "k = kind_key ext (tg_kind u) (tg_id u) \<or> k \<in> set (group_keys ext u)"
    by (auto simp: garbage_removed_def)
  with assms(1,3) have "tg_kind u = TreeObject \<and> tg_id u = tree_object t"
    by (cases "tg_kind u") (auto simp: group_keys_def)
  with u(1) show ?thesis by blast
qed

lemma garbage_pack:
  assumes "hex_ok ext" "garbage_removed ext ts (pack_key ext i) x"
  shows "\<exists>(u, mark) \<in> set ts. tg_kind u = PackObject \<and> tg_id u = i"
proof -
  from assms(2) obtain u mark where u: "(u, mark) \<in> set ts"
    "pack_key ext i = kind_key ext (tg_kind u) (tg_id u) \<or> pack_key ext i \<in> set (group_keys ext u)"
    by (auto simp: garbage_removed_def)
  with assms(1) have "tg_kind u = PackObject \<and> tg_id u = i"
    by (cases "tg_kind u") (auto simp: group_keys_def)
  with u(1) show ?thesis by blast
qed

lemma garbage_snapshot: "under_prefix SNAPSHOTS_PREFIX k \<Longrightarrow> \<not> garbage_removed ext ts k x"
proof
  assume k: "under_prefix SNAPSHOTS_PREFIX k" and "garbage_removed ext ts k x"
  then obtain u where "k = kind_key ext (tg_kind u) (tg_id u) \<or> k \<in> set (group_keys ext u)"
    using under_prefix_disjoint [OF k] by (auto simp: garbage_removed_def)
  then show False using k group_keys_kinds [of k ext u] by (cases "tg_kind u") auto
qed

lemma execute_keeps:
  assumes "prune_execute r rnd p s = (res, s')" "store_ok (rp_ops r) objs" "hex_ok (rp_ext r)"
  shows "under_prefix SNAPSHOTS_PREFIX k \<Longrightarrow> objs s' k = objs s k"
    and "\<not> targeted p TreeObject (tree_object t) \<Longrightarrow> objs s' (tree_key (rp_ext r) t) = objs s (tree_key (rp_ext r) t)
      \<and> objs s' (tree_replica_key (rp_ext r) t) = objs s (tree_replica_key (rp_ext r) t)"
    and "\<not> targeted p PackObject i \<Longrightarrow> same_or_content (rp_ext r) (objs s) (objs s') (pack_key (rp_ext r) i) i"
proof -
  let ?e = "rp_ext r"
  obtain s1 where f1: "frame (content_addressed ?e) (objs s) (objs s1)"
    and f2: "frame (garbage_removed ?e (pl_to_delete p)) (objs s1) (objs s')"
    by (rule prune_execute_frame [OF assms(2,1)])
  have kept: "objs s' x = objs s1 x" if "\<not> garbage_removed ?e (pl_to_delete p) x (objs s' x)" for x
    using f2 that by (auto simp: frame_def)
  {
    assume k: "under_prefix SNAPSHOTS_PREFIX k"
    then have "objs s1 k = objs s k" using f1 unfolding frame_def content_addressed_def by (metis under_prefix_keys(1,2))
    then show "objs s' k = objs s k" using kept [OF garbage_snapshot [OF k]] by simp
  next
    assume "\<not> targeted p TreeObject (tree_object t)"
    then have "objs s' x = objs s1 x" if "x = tree_key ?e t \<or> x = tree_replica_key ?e t" for x
      using kept [of x] garbage_tree [OF assms(3) _ that] unfolding targeted_def by blast
    moreover have "objs s1 (tree_key ?e t) = objs s (tree_key ?e t)" "objs s1 (tree_replica_key ?e t) = objs s (tree_replica_key ?e t)"
      using f1 assms(3) by (auto simp: frame_def content_addressed_def)
    ultimately show "objs s' (tree_key ?e t) = objs s (tree_key ?e t) \<and> objs s' (tree_replica_key ?e t) = objs s (tree_replica_key ?e t)"
      by simp
  next
    assume "\<not> targeted p PackObject i"
    then have "objs s' (pack_key ?e i) = objs s1 (pack_key ?e i)"
      using kept garbage_pack [OF assms(3)] unfolding targeted_def by blast
    moreover have "same_or_content ?e (objs s) (objs s1) (pack_key ?e i) i"
      using f1 assms(3) by (auto simp: frame_def content_addressed_def same_or_content_def)
    ultimately show "same_or_content ?e (objs s) (objs s') (pack_key ?e i) i" by (simp add: same_or_content_def)
  }
qed

lemma prune_keeps:
  assumes "prune r opts clock rnd s = Some (res, s')" "store_ok (rp_ops r) objs" "hex_ok (rp_ext r)"
    "prune_observe r s = Some (Inr v)"
  shows "under_prefix SNAPSHOTS_PREFIX k \<Longrightarrow> objs s' k = objs s k"
    and "tree_object t \<in> re_live_trees (pv_reach v) \<Longrightarrow> objs s' (tree_key (rp_ext r) t) = objs s (tree_key (rp_ext r) t)
      \<and> objs s' (tree_replica_key (rp_ext r) t) = objs s (tree_replica_key (rp_ext r) t)"
    and "i \<in> pv_needed v \<Longrightarrow> same_or_content (rp_ext r) (objs s) (objs s') (pack_key (rp_ext r) i) i"
proof -
  consider "s' = s" | p where "prune_plan r opts clock s = Some (Inr p)" "prune_execute r rnd p s = (res, s')"
    using assms(1) by (auto elim: prune_SomeE)
  then have "(under_prefix SNAPSHOTS_PREFIX k \<longrightarrow> objs s' k = objs s k)
    \<and> (tree_object t \<in> re_live_trees (pv_reach v) \<longrightarrow> objs s' (tree_key (rp_ext r) t) = objs s (tree_key (rp_ext r) t)
        \<and> objs s' (tree_replica_key (rp_ext r) t) = objs s (tree_replica_key (rp_ext r) t))
    \<and> (i \<in> pv_needed v \<longrightarrow> same_or_content (rp_ext r) (objs s) (objs s') (pack_key (rp_ext r) i) i)"
  proof cases
    case 1
    then show ?thesis by (simp add: same_or_content_def)
  next
    case (2 p)
    note garbage = planned_is_garbage [OF 2(1) assms(4)] and keeps = execute_keeps [OF 2(2) assms(2,3)]
    have "\<not> targeted p TreeObject (tree_object t)" if "tree_object t \<in> re_live_trees (pv_reach v)"
      using garbage that by (fastforce simp: targeted_def is_live_def)
    moreover have "\<not> targeted p PackObject i" if "i \<in> pv_needed v"
      using garbage that by (fastforce simp: targeted_def is_live_def)
    ultimately show ?thesis using keeps by blast
  qed
  then show "under_prefix SNAPSHOTS_PREFIX k \<Longrightarrow> objs s' k = objs s k"
    and "tree_object t \<in> re_live_trees (pv_reach v) \<Longrightarrow> objs s' (tree_key (rp_ext r) t) = objs s (tree_key (rp_ext r) t)
      \<and> objs s' (tree_replica_key (rp_ext r) t) = objs s (tree_replica_key (rp_ext r) t)"
    and "i \<in> pv_needed v \<Longrightarrow> same_or_content (rp_ext r) (objs s) (objs s') (pack_key (rp_ext r) i) i"
    by blast+
qed

text \<open>
  C23: Pruning is safe for every snapshot: after any run, also one that failed half-way, every
  snapshot object is unchanged, every directory tree reachable from a snapshot still has its object
  and its replica unchanged, and every chunk a reachable file refers to (chunk lists included) has
  a holder in the index whose pack the listing showed and whose object is still there, unchanged or
  rewritten with bytes of the same content hash.
\<close>

theorem prune_keeps_snapshots_restorable:
  assumes "prune r opts clock rnd s = Some (res, s')" "store_ok (rp_ops r) objs" "hex_ok (rp_ext r)"
    "prune_observe r s = Some (Inr v)"
  shows "(\<forall>k. under_prefix SNAPSHOTS_PREFIX k \<longrightarrow> objs s' k = objs s k)
    \<and> (\<forall>(k, snap) \<in> set (re_snapshots (pv_reach v)). \<forall>root t. root \<in> set (sn_roots snap)
        \<longrightarrow> (tree_edge r s)\<^sup>*\<^sup>* (rt_tree root) t \<longrightarrow>
          objs s' (tree_key (rp_ext r) t) = objs s (tree_key (rp_ext r) t)
          \<and> objs s' (tree_replica_key (rp_ext r) t) = objs s (tree_replica_key (rp_ext r) t)
          \<and> (\<exists>tree. read_tree r s t = Inr tree \<and> (\<forall>e \<in> set (tr_entries tree). en_kind e = NT_FILE \<longrightarrow>
               (\<exists>cs. file_chunks r s (prune_view (prune_index_new (index_records (effective_packs (pv_blobs v))))) e cs
                 \<and> (\<forall>c \<in> cs. \<exists>h \<in> set (index_records (effective_packs (pv_blobs v))).
                      tb_id h = c \<and> map_of (gl_packs (pv_lists v)) (tb_pack h) \<noteq> None
                      \<and> same_or_content (rp_ext r) (objs s) (objs s') (pack_key (rp_ext r) (tb_pack h)) (tb_pack h))))))"
proof -
  let ?recs = "index_records (effective_packs (pv_blobs v))" and ?indexed = "indexed_packs (effective_packs (pv_blobs v)) []"
  let ?x = "prune_index_new ?recs" and ?ph = "phantom_packs ?indexed (gl_packs (pv_lists v))"
  note keeps = prune_keeps [OF assms]
  obtain walk: "walk_references r s (prune_view ?x) = Some (Inr (pv_reach v))" and clean: "re_errors (pv_reach v) = []"
    and canon: "mark_and_canonicalize ?x (re_referenced (pv_reach v)) (\<lambda>i. map_of (pv_marks v) i \<noteq> None) ?ph
      = Inr (pv_idx v, pv_needed v, pv_live v)"
    using assms(4) by (rule prune_observe_SomeE)
  have holder: "\<exists>h \<in> set ?recs. tb_id h = c \<and> map_of (gl_packs (pv_lists v)) (tb_pack h) \<noteq> None
      \<and> same_or_content (rp_ext r) (objs s) (objs s') (pack_key (rp_ext r) (tb_pack h)) (tb_pack h)"
    if c: "c \<in> set (re_referenced (pv_reach v))" for c
    by (rule needed_holder [OF canon c]) (use keeps(3) in blast)
  show ?thesis
    using walk_references_found [OF walk clean] keeps(1,2) holder by fast
qed

text \<open>The plan of the demonstration repository deletes one unreferenced tree.\<close>

theorem prune_keeps_snapshots_restorable_witness:
  "\<exists>res s'. prune demo_gc_repo demo_gc_options 0 (\<lambda>n. demo_nonce) demo_gc_state = Some (res, s')
     \<and> map_objs s' demo_snap_key = map_objs demo_gc_state demo_snap_key"
proof -
  obtain p where "prune_plan demo_gc_repo demo_gc_options 0 demo_gc_state = Some (Inr p)" using demo_gc_plan by blast
  then obtain res s' where p: "prune demo_gc_repo demo_gc_options 0 (\<lambda>n. demo_nonce) demo_gc_state = Some (res, s')"
    by (simp add: prune_def) (metis surj_pair)
  have "under_prefix SNAPSHOTS_PREFIX demo_snap_key"
    by (simp add: under_prefix_def starts_with_def demo_snap_key_def snapshot_key_def)
  with prune_keeps_snapshots_restorable [where objs = map_objs, OF p _ _ demo_gc_observe]
  have "map_objs s' demo_snap_key = map_objs demo_gc_state demo_snap_key"
    by (simp add: map_store_ok demo_hex_ok)
  with p show ?thesis by blast
qed

section \<open>The index goes first\<close>

lemma deleted_packsI:
  "(t, mark) \<in> set (pl_to_delete p) \<Longrightarrow> tg_kind t = PackObject \<Longrightarrow> map_of (pl_indexed p) (tg_id t) \<noteq> None \<Longrightarrow> tg_id t \<in> deleted_packs p"
  by (force simp: deleted_packs_def)

lemma index_content_dropped:
  "x \<in> set (index_content p new) \<Longrightarrow> ip_pack x \<in> deleted_packs p \<Longrightarrow> x \<in> set new"
  by (auto simp: index_content_def Let_def)

text \<open>
  C24: Readers never follow the index to a pack that prune deleted: when a pack the index knew is
  gone after a run, however the run ended, then before any deletion an index blob was written
  that supersedes every blob that was there and lists the pack at most as one of the run's own
  new packs; from that moment on the run only deleted garbage, set and removed marks, and swept
  sidecars and touches.
\<close>

theorem prune_index_before_delete:
  assumes "prune_execute r rnd p s = (res, s')" "store_ok (rp_ops r) objs" "hex_ok (rp_ext r)"
    "objs s (pack_key (rp_ext r) i) \<noteq> None" "objs s' (pack_key (rp_ext r) i) = None"
    "map_of (pl_indexed p) i \<noteq> None"
  shows "\<exists>(q :: repack_state) s0 s1 ix. write_index r (rnd (rq_draws q)) (exec_blob p (rq_out q)) s0 = (Inr ix, s1)
     \<and> set (ib_supersedes (exec_blob p (rq_out q))) = set (pl_all_blob_ids p)
     \<and> (\<forall>x \<in> set (ib_packs (exec_blob p (rq_out q))). ip_pack x = i \<longrightarrow> x \<in> set (rq_out q))
     \<and> frame (content_addressed (rp_ext r)) (objs s) (objs s0)
     \<and> frame (garbage_removed (rp_ext r) (pl_to_delete p)) (objs s1) (objs s')"
proof -
  let ?e = "rp_ext r"
  have dry: "\<not> pl_dry_run p"
    using assms(1,4,5) by (auto simp: prune_execute_def io_lift_def)
  obtain w s1 where w: "exec_writes r rnd p s = (w, s1)" by force
  have f1: "frame (content_addressed ?e) (objs s) (objs s1)" by (rule withinD [OF exec_writes_within [OF assms(2)] w])
  then have "objs s1 (pack_key ?e i) = objs s (pack_key ?e i) \<or> content_addressed ?e (pack_key ?e i) (objs s1 (pack_key ?e i))"
    by (simp add: frame_def)
  then have there: "objs s1 (pack_key ?e i) \<noteq> None" using assms(4) by (auto simp: content_addressed_def)
  obtain q where wq: "w = Inr q"
    using assms(1,5) dry w there by (cases w) (auto simp: prune_execute_def io_then_def)
  then have rem: "exec_removals r p q s1 = (res, s')"
    using assms(1) dry w by (simp add: prune_execute_def io_then_def)
  have f2: "frame (garbage_removed ?e (pl_to_delete p)) (objs s1) (objs s')"
    by (rule withinD [OF exec_removals_within [OF assms(2)] rem])
  from w wq obtain s0 where pk: "repack_packs r rnd (pl_repack p) (pl_indexed p) (pl_idx p) (pl_needed p - set (pl_repack p))
      (pl_target_size p) s = (Inr q, s0)"
    and ix: "exec_index r (rnd (rq_draws q)) p (rq_out q) s0 = (Inr (), s1)"
    by (auto simp: exec_writes_def result_simps)
  have "garbage_removed ?e (pl_to_delete p) (pack_key ?e i) None"
    using f2 there assms(5) by (auto simp: frame_def) (metis option.distinct(1))
  then obtain t mark where t: "(t, mark) \<in> set (pl_to_delete p)"
    "pack_key ?e i = kind_key ?e (tg_kind t) (tg_id t) \<or> pack_key ?e i \<in> set (group_keys ?e t)"
    by (auto simp: garbage_removed_def)
  then have ti: "tg_kind t = PackObject" "tg_id t = i"
    using assms(3) by (cases "tg_kind t"; auto simp: group_keys_def)+
  with deleted_packsI [OF t(1)] assms(6) have del: "i \<in> deleted_packs p" by simp
  then have "needs_index p (rq_out q)" by (auto simp: needs_index_def)
  with ix obtain j where j: "write_index r (rnd (rq_draws q)) (exec_blob p (rq_out q)) s0 = (Inr j, s1)"
    by (auto simp: exec_index_def result_simps)
  moreover have "\<forall>x \<in> set (ib_packs (exec_blob p (rq_out q))). ip_pack x = i \<longrightarrow> x \<in> set (rq_out q)"
    using index_content_dropped [of _ p "rq_out q"] del by (auto simp: exec_blob_def new_blob_def)
  moreover have "set (ib_supersedes (exec_blob p (rq_out q))) = set (pl_all_blob_ids p)" by (simp add: exec_blob_def)
  ultimately show ?thesis
    using f2 withinD [OF repack_packs_within [OF assms(2)] pk] by blast
qed

definition demo_pack_plan :: gc_plan where
  "demo_pack_plan = \<lparr>pl_dry_run = False, pl_report = prune_report_default,
     pl_indexed = [(demo_gc_id, \<lparr>ip_pack = demo_gc_id, ip_size = 0, ip_entries = []\<rparr>)], pl_phantoms = {},
     pl_marked_packs = {}, pl_all_blob_ids = [], pl_effective_blobs = 0, pl_idx = prune_index_new [], pl_needed = {},
     pl_to_delete = [(\<lparr>tg_kind = PackObject, tg_id = demo_gc_id, tg_info = demo_gc_tree\<rparr>,
        \<lparr>oi_key = gc_key demo_ext demo_gc_id, oi_size = 8, oi_modified = 5\<rparr>)],
     pl_marks_to_remove = [], pl_repack = [], pl_to_mark = [], pl_target_size = 0\<rparr>"

lemma demo_pack_plan_simps [simp]:
  "pl_dry_run demo_pack_plan = False" "pl_marks_to_remove demo_pack_plan = []" "pl_to_mark demo_pack_plan = []"
  "pl_to_delete demo_pack_plan = [(\<lparr>tg_kind = PackObject, tg_id = demo_gc_id, tg_info = demo_gc_tree\<rparr>,
     \<lparr>oi_key = gc_key demo_ext demo_gc_id, oi_size = 8, oi_modified = 5\<rparr>)]"
  by (simp_all add: demo_pack_plan_def)

definition demo_pack_state :: map_state where "demo_pack_state = ([(pack_key demo_ext demo_gc_id, [], 0)], 1)"

lemma demo_pack_writes:
  "exec_writes demo_index_repo (\<lambda>n. demo_nonce) demo_pack_plan demo_pack_state
   = (Inr (repack_start demo_index_repo 0), ([(pack_key demo_ext demo_gc_id, [], 0), (index_key demo_ext demo_index_id, demo_index_bytes, 1)], 2))"
proof -
  have blob: "exec_blob demo_pack_plan [] = demo_blob"
    by (simp add: exec_blob_def demo_pack_plan_def index_content_def deleted_packs_def demo_blob_def new_blob_def)
  have "needs_index demo_pack_plan []"
    by (simp add: needs_index_def deleted_packs_def demo_pack_plan_def)
  moreover have "write_index demo_index_repo demo_nonce demo_blob demo_pack_state
      = (Inr demo_index_id, ([(pack_key demo_ext demo_gc_id, [], 0), (index_key demo_ext demo_index_id, demo_index_bytes, 1)], 2))"
    by (simp add: write_index_def demo_index_repo_def io_then_def io_lift_def encode_index_blob_def algorithm_byte_def
        seal_index_blob_in_place_def random_bytes_def demo_index_id_def demo_index_bytes_def demo_pack_state_def
        Let_def io_err_def backend_put_def backend_path_def map_store_def map_put_def map_time_def
        MIN_TIMESTAMP_def MAX_TIMESTAMP_def)
  ultimately show ?thesis
    by (simp add: exec_writes_def repack_packs_def io_then_def io_lift_def
        exec_index_def repack_start_def blob) (simp add: demo_pack_plan_def)
qed

lemma demo_pack_removed:
  "map_objs (snd (prune_execute demo_index_repo (\<lambda>n. demo_nonce) demo_pack_plan demo_pack_state)) (pack_key demo_ext demo_gc_id) = None"
proof -
  let ?s1 = "([(pack_key demo_ext demo_gc_id, [], 0), (index_key demo_ext demo_index_id, demo_index_bytes, 1)], 2) :: map_state"
  let ?s2 = "([(index_key demo_ext demo_index_id, demo_index_bytes, 1)], 2) :: map_state"
  let ?t = "\<lparr>tg_kind = PackObject, tg_id = demo_gc_id, tg_info = demo_gc_tree\<rparr>"
  let ?m = "\<lparr>oi_key = gc_key demo_ext demo_gc_id, oi_size = 8, oi_modified = 5\<rparr>"
  have key: "pack_key demo_ext demo_gc_id \<noteq> index_key demo_ext demo_index_id" by simp
  have gone: "delete_if_there demo_index_repo k ?s2 = (Inr (), ?s2)" if "k \<noteq> index_key demo_ext demo_index_id" for k
    using that by (simp add: delete_if_there_def io_try_def backend_delete_def backend_path_def map_store_def map_delete_def
        map_objs_def io_then_def io_lift_def io_err_def demo_index_repo_def map_store_err_def)
  have "delete_target demo_index_repo (?t, ?m) ru ?s1 = (Inr (run_deleted ?t ru), ?s2)" for ru
    using gone [of "parity_key demo_ext demo_gc_id"]
    by (simp add: delete_target_def delete_untouched_def really_delete_def io_try_def io_read_def io_then_def io_lift_def
        io_err_def backend_head_def backend_path_def backend_delete_def map_store_def map_objs_def map_meta_def from_meta_def
        timestamp_ok_def MIN_TIMESTAMP_def MAX_TIMESTAMP_def map_delete_def group_keys_def demo_index_repo_def Let_def)
  moreover have "list_keys demo_index_repo p ?s2 = (Inr [], ?s2)" if "p = PACKS_PREFIX \<or> p = PARITY_PREFIX \<or> p = TOUCH_PREFIX" for p
    using that
    by (auto simp: list_keys_def io_then_def io_err_def io_read_def io_lift_def demo_list_defs demo_index_repo_def
        index_key_def prefix_defs)
  ultimately have "exec_removals demo_index_repo demo_pack_plan (repack_start demo_index_repo 0) ?s1
      = (Inr (ru_report (run_deleted ?t \<lparr>ru_report = exec_report demo_ext demo_pack_plan (repack_start demo_index_repo 0), ru_remove = []\<rparr>)), ?s2)"
    using gone [of "gc_key demo_ext demo_gc_id"]
    by (simp add: exec_removals_def io_then_def io_lift_def remove_mark_def exec_marks_def sweep_parity_def sweep_touch_def
        demo_index_repo_def run_deleted_def)
  then show ?thesis
    by (simp add: prune_execute_def demo_pack_writes io_then_def map_objs_def)
qed

theorem prune_index_before_delete_witness:
  "\<exists>(q :: repack_state) s0 s1 ix. write_index demo_index_repo demo_nonce (exec_blob demo_pack_plan (rq_out q)) s0 = (Inr ix, s1)"
proof -
  have hyps: "store_ok (rp_ops demo_index_repo) map_objs" "hex_ok (rp_ext demo_index_repo)"
    "map_objs demo_pack_state (pack_key (rp_ext demo_index_repo) demo_gc_id) \<noteq> None"
    "map_of (pl_indexed demo_pack_plan) demo_gc_id \<noteq> None"
    by (simp_all add: demo_index_repo_def map_store_ok demo_hex_ok map_objs_def demo_pack_state_def demo_pack_plan_def)
  have "map_objs (snd (prune_execute demo_index_repo (\<lambda>n. demo_nonce) demo_pack_plan demo_pack_state))
      (pack_key (rp_ext demo_index_repo) demo_gc_id) = None"
    using demo_pack_removed by (simp add: demo_index_repo_def)
  from prune_index_before_delete [OF prod.collapse [symmetric] hyps(1,2,3) this hyps(4)] show ?thesis by blast
qed

section \<open>Second thoughts\<close>

definition rewritten_since :: "objects \<Rightarrow> string \<Rightarrow> object_info \<Rightarrow> bool" where
  "rewritten_since ob k mark \<longleftrightarrow> (\<exists>bs t. ob k = Some (bs, t) \<and> t \<ge> oi_modified mark)"

lemma rewritten_not_deleted:
  assumes "store_ok (rp_ops r) objs" "delete_target r (t, mark) ru s = (res, s')"
    "rewritten_since (objs s) (kind_key (rp_ext r) (tg_kind t) (tg_id t)) mark
     \<or> tg_kind t = TreeObject \<and> rewritten_since (objs s) (touch_key (rp_ext r) (as_tree (tg_id t))) mark"
  shows "s' = s \<and> (\<forall>ru'. res = Inr ru' \<longrightarrow> tg_id t \<in> set (ru_remove ru')
     \<and> pr_deleted (ru_report ru') = pr_deleted (ru_report ru))"
proof -
  let ?key = "kind_key (rp_ext r) (tg_kind t) (tg_id t)" and ?touch = "touch_key (rp_ext r) (as_tree (tg_id t))"
  note head = backend_head_objs [OF assms(1)]
  show ?thesis
  proof (cases "backend_head (rp_ops r) ?key s")
    case (Inl e)
    with assms(2) show ?thesis
      by (cases e) (auto simp: delete_target_def io_try_def io_read_def io_lift_def run_stale_def)
  next
    case main: (Inr h)
    show ?thesis
    proof (cases "oi_modified h \<ge> oi_modified mark")
      case True
      with main assms(2) show ?thesis
        by (auto simp: delete_target_def io_try_def io_read_def io_lift_def run_revive_def)
    next
      case False
      then have "\<not> rewritten_since (objs s) ?key mark" using head(1) [OF main] by (auto simp: rewritten_since_def)
      with assms(3) have tree: "tg_kind t = TreeObject" and touched: "rewritten_since (objs s) ?touch mark" by auto
      have step: "delete_untouched r t mark ru s = (res, s')"
        using assms(2) main False by (simp add: delete_target_def io_try_def io_read_def)
      show ?thesis
      proof (cases "backend_head (rp_ops r) ?touch s")
        case (Inl e)
        have "\<nexists>k. e = ObjNotFound k" using head(2) Inl touched by (auto simp: rewritten_since_def)
        with Inl step tree show ?thesis
          by (cases e) (auto simp: delete_untouched_def io_try_def io_read_def io_lift_def)
      next
        case (Inr h')
        then have "oi_modified h' \<ge> oi_modified mark" using head(1) [OF Inr] touched by (auto simp: rewritten_since_def)
        with Inr step tree show ?thesis
          by (auto simp: delete_untouched_def io_try_def io_read_def io_lift_def run_revive_def)
      qed
    qed
  qed
qed

text \<open>
  C25: A target that came back to life between plan and deletion is left alone: when the object was
  written at or after the time of its mark, or a tree was touched then, the deletion step changes
  nothing in the store, and unless it fails it takes the mark off.
\<close>

theorem deletion_respects_rewrites:
  assumes "store_ok (rp_ops r) objs" "delete_target r (t, mark) ru s = (res, s')"
    "rewritten_since (objs s) (kind_key (rp_ext r) (tg_kind t) (tg_id t)) mark
     \<or> tg_kind t = TreeObject \<and> rewritten_since (objs s) (touch_key (rp_ext r) (as_tree (tg_id t))) mark"
  shows "s' = s \<and> (\<forall>ru'. res = Inr ru' \<longrightarrow> tg_id t \<in> set (ru_remove ru')
     \<and> pr_deleted (ru_report ru') = pr_deleted (ru_report ru))"
  by (rule rewritten_not_deleted [OF assms])

theorem deletion_respects_rewrites_witness:
  "let t = \<lparr>tg_kind = TreeObject, tg_id = demo_gc_id, tg_info = demo_gc_tree\<rparr>;
       ru = \<lparr>ru_report = prune_report_default, ru_remove = []\<rparr>
   in snd (delete_target demo_gc_repo (t, demo_gc_mark) ru demo_gc_state) = demo_gc_state"
proof -
  let ?t = "\<lparr>tg_kind = TreeObject, tg_id = demo_gc_id, tg_info = demo_gc_tree\<rparr>"
  let ?ru = "\<lparr>ru_report = prune_report_default, ru_remove = []\<rparr>"
  have "rewritten_since (map_objs demo_gc_state) (kind_key demo_ext TreeObject demo_gc_id) demo_gc_mark"
    by (simp add: rewritten_since_def map_objs_def demo_gc_state_def demo_gc_mark_def)
  then show ?thesis
    unfolding Let_def
    by (intro deletion_respects_rewrites [where objs = map_objs, OF _ prod.collapse [symmetric], THEN conjunct1])
      (simp_all add: map_store_ok)
qed

end
