(* ===== verification/Rebuild.thy ===== *)
theory Rebuild
  imports Store_Frame Repo_Laws Pack_Store
begin

text \<open>
  \<open>crates/kist-core/src/rebuild.rs\<close>: a new index from the trailers of all packs. The trailers are
  read concurrently, eight at a time, and only read, so they are read one after the other here;
  when several fail the code reports whichever finishes first. Sums of \<open>u64\<close> wrap around, as in a
  release build.
\<close>

record rebuild_summary =
  rb_packs :: nat
  rb_chunks :: nat
  rb_superseded :: nat

definition read_pack_index :: "'s repository \<Rightarrow> 's \<Rightarrow> object_id \<times> nat \<Rightarrow> core_error + index_pack" where
  "read_pack_index r s = (\<lambda>(i, sz).
     (let key = pack_key (rp_ext r) i
      in if sz < HEADER_LEN + FOOTER_LEN then Inl (Corrupt key ''pack is too short'')
         else and_then (map_err BackendE (backend_get_range (rp_ops r) key (sz - FOOTER_LEN) sz s)) (\<lambda>footer.
           and_then (map_err (\<lambda>_. Corrupt key ''footer'') (parse_footer footer)) (\<lambda>trailer_len.
             case checked_sub sz (add64 FOOTER_LEN trailer_len) of
               None \<Rightarrow> Inl (Corrupt key ''trailer length does not fit'')
             | Some start \<Rightarrow>
                 (if start < HEADER_LEN then Inl (Corrupt key ''trailer length does not fit'')
                  else and_then (map_err BackendE (backend_get_range (rp_ops r) key start (sz - FOOTER_LEN) s)) (\<lambda>sealed.
                    and_then (decode_trailer (rp_ext r) (ev_trailer (rp_env r)) (rp_keys r) key sealed start) (\<lambda>trailer.
                      Inr \<lparr>ip_pack = i, ip_size = sz, ip_entries = pt_entries trailer\<rparr>)))))))"

fun listed_names :: "ext \<Rightarrow> object_info list \<Rightarrow> core_error + (object_id \<times> nat) list" where
  "listed_names ext [] = Inr []"
| "listed_names ext (o' # os) =
     and_then (map_err FormatE (object_id_from_key ext (oi_key o'))) (\<lambda>i.
       and_then (listed_names ext os) (\<lambda>rest. Inr ((i, oi_size o') # rest)))"

fun read_pack_indexes :: "'s repository \<Rightarrow> 's \<Rightarrow> (object_id \<times> nat) list \<Rightarrow> core_error + index_pack list" where
  "read_pack_indexes r s [] = Inr []"
| "read_pack_indexes r s (p # ps) =
     and_then (read_pack_index r s p) (\<lambda>x. and_then (read_pack_indexes r s ps) (\<lambda>xs. Inr (x # xs)))"

definition rebuild_blob :: "object_id list \<Rightarrow> index_pack list \<Rightarrow> index_blob" where
  "rebuild_blob existing packs = (new_blob packs)\<lparr>ib_supersedes := existing\<rparr>"

definition rebuild_read :: "'s repository \<Rightarrow> 's \<Rightarrow> core_error + (object_id list \<times> index_pack list)" where
  "rebuild_read r s =
     and_then (map_err BackendE (backend_list (rp_ops r) INDEXES_PREFIX s)) (\<lambda>indexes.
       and_then (listed_names (rp_ext r) indexes) (\<lambda>existing.
         and_then (map_err BackendE (backend_list (rp_ops r) PACKS_PREFIX s)) (\<lambda>listed.
           and_then (listed_names (rp_ext r) listed) (\<lambda>packs.
             and_then (read_pack_indexes r s (sort packs)) (\<lambda>found.
               Inr (sort (map fst existing), sort_key ip_pack found))))))"

definition rebuild_index :: "'s repository \<Rightarrow> string + bytes \<Rightarrow> (core_error, 's, rebuild_summary) io" where
  "rebuild_index r os =
     io_then (io_read (rebuild_read r)) (\<lambda>(existing, packs).
       io_then (write_index r os (rebuild_blob existing packs)) (\<lambda>_.
         io_lift (Inr \<lparr>rb_packs = length packs, rb_chunks = sum_list (map (\<lambda>p. length (ip_entries p)) packs),
                       rb_superseded = length existing\<rparr>)))"

section \<open>A range read agrees with reading the whole pack\<close>

lemma parse_footer_tail:
  "FOOTER_LEN \<le> length b \<Longrightarrow> parse_footer (slice (length b - FOOTER_LEN) (length b) b) = parse_footer b"
  by (simp add: parse_footer_def slice_def Let_def)

lemma open_pack_trailer_nonempty: "open_pack_trailer ext k bs = Inr m \<Longrightarrow> bs \<noteq> []"
  by (auto simp: open_pack_trailer_def open_sealed_def nonce_from_slice_def NONCE_LEN_def result_simps split: if_splits)

lemma decode_trailer_nonempty: "decode_trailer ext codec keys key bs n = Inr tr \<Longrightarrow> bs \<noteq> []"
  by (auto simp: decode_trailer_def result_simps dest: open_pack_trailer_nonempty)

text \<open>The table of contents of a pack, from its bytes alone: a data region, the sealed trailer, its
  length and the magic; the trailer opens and decodes to entries that tile the data region.\<close>

definition pack_table :: "'s repository \<Rightarrow> bytes \<Rightarrow> pack_entry list \<Rightarrow> bool" where
  "pack_table r bs es \<longleftrightarrow> (\<exists>data sealed plain tr. bs = pack_finish data sealed \<and> length sealed < 2 ^ 64
     \<and> open_pack_trailer (rp_ext r) (rp_keys r) sealed = Inr plain
     \<and> cbor_decode_as (ev_trailer (rp_env r)) plain = Inr tr \<and> pt_entries tr = es
     \<and> es \<noteq> [] \<and> tiles HEADER_LEN (length data) es)"

lemma slice_tail: "length b = sz \<Longrightarrow> slice (sz - n) sz b = drop (sz - n) b"
  by (simp add: slice_def)

lemma slice_take: "hi \<le> n \<Longrightarrow> slice lo hi (take n b) = slice lo hi b"
  by (simp add: slice_def drop_take min_def)

lemma read_pack_index_table:
  assumes "store_ok (rp_ops r) objs" "read_pack_index r s (i, sz) = Inr p"
  shows "\<exists>b t. objs s (pack_key (rp_ext r) i) = Some (b, t) \<and> pack_table r (take sz b) (ip_entries p) \<and> sz \<le> length b"
proof -
  let ?key = "pack_key (rp_ext r) i"
  from assms(2) obtain footer tl start sealed tr where big: "HEADER_LEN + FOOTER_LEN \<le> sz"
    and f: "backend_get_range (rp_ops r) ?key (sz - FOOTER_LEN) sz s = Inr footer"
    and pf: "parse_footer footer = Inr tl"
    and st: "checked_sub sz (add64 FOOTER_LEN tl) = Some start" "HEADER_LEN \<le> start"
    and g: "backend_get_range (rp_ops r) ?key start (sz - FOOTER_LEN) s = Inr sealed"
    and d: "decode_trailer (rp_ext r) (ev_trailer (rp_env r)) (rp_keys r) ?key sealed start = Inr tr"
    and p: "p = \<lparr>ip_pack = i, ip_size = sz, ip_entries = pt_entries tr\<rparr>"
    by (auto simp: read_pack_index_def Let_def result_simps split: if_splits option.splits)
  from backend_get_range_objs [OF assms(1) f] obtain b t where b: "objs s ?key = Some (b, t)"
    and footer: "footer = slice (sz - FOOTER_LEN) sz b" by blast
  from backend_get_range_objs [OF assms(1) g] b have sealed: "sealed = slice start (sz - FOOTER_LEN) b" by auto
  have "FOOTER_LEN \<le> length footer" using pf by (auto simp: parse_footer_def split: if_splits)
  then have len: "sz \<le> length b" using big by (simp add: footer slice_def FOOTER_LEN_def)
  define pk where "pk = take sz b"
  have pk: "length pk = sz" "footer = slice (length pk - FOOTER_LEN) (length pk) pk" "sealed = slice start (sz - FOOTER_LEN) pk"
    using len by (simp_all add: pk_def footer sealed slice_take)
  have "parse_footer pk = Inr tl" using pf pk big parse_footer_tail [of pk] by simp
  from parse_footer_sound [OF this] obtain q where q: "pk = q @ be_bytes 8 tl @ magic" and tl: "tl < 2 ^ 64" by blast
  from arg_cong [OF q, of length] pk(1) have lq: "length q = sz - FOOTER_LEN" by (simp add: FOOTER_LEN_def)
  have sq: "sealed = drop start q" using q lq by (simp add: pk(3) slice_def)
  have before: "start < sz - FOOTER_LEN"
    using decode_trailer_nonempty [OF d] by (rule contrapos_np) (simp add: sq lq)
  have fits: "add64 FOOTER_LEN tl = FOOTER_LEN + tl"
  proof (rule ccontr)
    assume n: "add64 FOOTER_LEN tl \<noteq> FOOTER_LEN + tl"
    then have "\<not> FOOTER_LEN + tl < 2 ^ 64" using add64_small by blast
    with tl have "add64 FOOTER_LEN tl = FOOTER_LEN + tl - 2 ^ 64" "FOOTER_LEN + tl - 2 ^ 64 < FOOTER_LEN"
      by (simp_all add: add64_def FOOTER_LEN_def mod_if)
    with st before show False by (simp add: checked_sub_def split: if_splits)
  qed
  have ls: "length sealed = tl" using st(1) before by (simp add: sq lq fits checked_sub_def split: if_splits)
  have "pk = pack_finish (take start q) sealed" by (simp add: pack_finish_def sq [symmetric] ls q) (simp add: sq)
  moreover have "length (take start q) = start" using before lq by simp
  moreover obtain plain where "open_pack_trailer (rp_ext r) (rp_keys r) sealed = Inr plain"
    "cbor_decode_as (ev_trailer (rp_env r)) plain = Inr tr" "validate_trailer ?key tr start = Inr ()"
    using d by (auto simp: decode_trailer_def result_simps split: if_splits)
  ultimately have "pack_table r pk (pt_entries tr)"
    using tl unfolding pack_table_def validate_trailer_iff
    by (intro exI [of _ "take start q"] exI [of _ sealed] exI [of _ plain] exI [of _ tr]) (simp add: ls)
  with b len p show ?thesis by (simp add: pk_def)
qed

section \<open>What a rebuild writes\<close>

lemma listed_names_Inr:
  "listed_names ext os = Inr xs \<longleftrightarrow>
     list_all2 (\<lambda>ob x. object_id_from_key ext (oi_key ob) = Inr (fst x) \<and> snd x = oi_size ob) os xs"
  by (induction os arbitrary: xs) (auto simp: result_simps list_all2_Cons1)

lemma listed_names_set:
  assumes "listed_names ext os = Inr xs"
  shows "set xs = {(i, sz). \<exists>ob \<in> set os. object_id_from_key ext (oi_key ob) = Inr i \<and> sz = oi_size ob}"
  using assms
proof (induction os arbitrary: xs)
  case (Cons ob os)
  then obtain i rest where "object_id_from_key ext (oi_key ob) = Inr i" "listed_names ext os = Inr rest"
    "xs = (i, oi_size ob) # rest" by (auto simp: result_simps)
  with Cons.IH [of rest] show ?case by auto
qed simp

lemma read_pack_indexes_Inr:
  "read_pack_indexes r s ps = Inr xs \<longleftrightarrow> list_all2 (\<lambda>p x. read_pack_index r s p = Inr x) ps xs"
  by (induction ps arbitrary: xs) (auto simp: result_simps list_all2_Cons1)

lemma list_all2_image:
  "list_all2 P xs ys \<Longrightarrow> set ys = {y. \<exists>x \<in> set xs. P x y \<and> y \<in> set ys}"
  by (auto simp: list_all2_iff set_zip) (metis in_set_conv_nth nth_mem)

lemma read_pack_index_names: "read_pack_index r s p = Inr x \<Longrightarrow> ip_pack x = fst p \<and> ip_size x = snd p"
  by (cases p) (auto simp: read_pack_index_def Let_def result_simps split: if_splits option.splits)

lemma rebuild_read_Inr:
  assumes "rebuild_read r s = Inr (existing, packs)" "store_ok (rp_ops r) objs"
  shows "set existing = {j. \<exists>k. objs s k \<noteq> None \<and> under_prefix INDEXES_PREFIX k
      \<and> object_id_from_key (rp_ext r) k = Inr j}" (is ?existing)
    and "ip_pack ` set packs = {j. \<exists>k. objs s k \<noteq> None \<and> under_prefix PACKS_PREFIX k
      \<and> object_id_from_key (rp_ext r) k = Inr j}" (is ?packs)
    and "\<forall>p \<in> set packs. read_pack_index r s (ip_pack p, ip_size p) = Inr p" (is ?each)
    and "\<forall>p \<in> set packs. \<exists>k bs t. objs s k = Some (bs, t) \<and> under_prefix PACKS_PREFIX k
      \<and> object_id_from_key (rp_ext r) k = Inr (ip_pack p) \<and> ip_size p = length bs" (is ?sizes)
proof -
  from assms(1) obtain indexes named listed ps found where
      i: "backend_list (rp_ops r) INDEXES_PREFIX s = Inr indexes" "listed_names (rp_ext r) indexes = Inr named"
    and l: "backend_list (rp_ops r) PACKS_PREFIX s = Inr listed" "listed_names (rp_ext r) listed = Inr ps"
    and f: "read_pack_indexes r s (sort ps) = Inr found"
    and e: "existing = sort (map fst named)" "packs = sort_key ip_pack found"
    by (auto simp: rebuild_read_def result_simps)
  have names: "fst ` set xs = {j. \<exists>k. objs s k \<noteq> None \<and> under_prefix p k \<and> object_id_from_key (rp_ext r) k = Inr j}"
    if "backend_list (rp_ops r) p s = Inr os" "listed_names (rp_ext r) os = Inr xs" for p os xs
  proof -
    have "fst ` set xs = {j. \<exists>k \<in> oi_key ` set os. object_id_from_key (rp_ext r) k = Inr j}"
      unfolding listed_names_set [OF that(2)] by force
    then show ?thesis unfolding backend_list_objs(2) [OF assms(2) that(1)] by auto
  qed
  have read: "list_all2 (\<lambda>p x. read_pack_index r s p = Inr x) (sort ps) found"
    using f by (simp add: read_pack_indexes_Inr)
  then have "list_all2 (\<lambda>p x. p = (ip_pack x, ip_size x)) (sort ps) found"
    by (rule list_all2_mono) (auto dest: read_pack_index_names)
  then have ps: "sort ps = map (\<lambda>x. (ip_pack x, ip_size x)) found"
    by (auto simp: list_all2_conv_all_nth intro: nth_equalityI)
  show ?existing using names [OF i] by (simp add: e)
  have "ip_pack ` set packs = fst ` set (sort ps)" by (simp add: e ps image_image)
  then show ?packs using names [OF l] by simp
  show ?each using read by (auto simp: ps e list_all2_conv_all_nth in_set_conv_nth)
  have "(ip_pack p, ip_size p) \<in> set ps" if "p \<in> set packs" for p
    using that arg_cong [OF ps, of set] by (auto simp: e)
  then show ?sizes
    using backend_list_objs(2,3) [OF assms(2) l(1)] listed_names_set [OF l(2)] by (fastforce simp: set_eq_iff)
qed

lemma rebuild_index_Inr:
  assumes "rebuild_index r os s = (Inr sm, s')"
  obtains existing packs i where "rebuild_read r s = Inr (existing, packs)"
    "write_index r os (rebuild_blob existing packs) s = (Inr i, s')"
  using assms that by (auto simp: rebuild_index_def result_simps)

lemma write_index_effect:
  assumes "store_ok (rp_ops r) objs" "write_index r os blob s = (Inr i, s')"
  obtains bs t where "objs s' = (objs s)(index_key (rp_ext r) i \<mapsto> (bs, t))" "i = object_id_of (rp_ext r) bs"
proof -
  from assms(2) obtain bs where i: "i = object_id_of (rp_ext r) bs"
    and put: "backend_put (rp_ops r) (index_key (rp_ext r) i) bs s = (Inr (), s')"
    by (auto simp: write_index_def result_simps Let_def)
  from backend_put_objs(1) [OF assms(1) put] i that show ?thesis by blast
qed

text \<open>C33: a successful rebuild writes one index blob and touches nothing else. The blob lists every
  object under \<open>packs/\<close>, each with exactly the table of contents that the bytes of the pack carry
  (all of them when no other key spells the same name), and supersedes every blob there was at the
  start. When its plain form fits the reader's limit it reads back, and unless an older
  blob claims to replace the new one, an index loaded afterwards finds exactly the chunks that
  some pack holds.\<close>

theorem rebuild_index_complete:
  assumes "store_ok (rp_ops r) objs" "store_live (rp_ops r) objs" "aead_ok (rp_ext r)" "zstd_ok (rp_ext r)"
    "hash_ok (rp_ext r)" "hex_ok (rp_ext r)" "rng_ok os" "codec_ok (ev_index (rp_env r)) UNIV"
    "rebuild_index r os s = (Inr sm, s')"
  shows "\<exists>i blob. (\<forall>k. k \<noteq> index_key (rp_ext r) i \<longrightarrow> objs s' k = objs s k)
    \<and> set (ib_supersedes blob) = {j. \<exists>k. objs s k \<noteq> None \<and> under_prefix INDEXES_PREFIX k
         \<and> object_id_from_key (rp_ext r) k = Inr j}
    \<and> ip_pack ` set (ib_packs blob) = {j. \<exists>k. objs s k \<noteq> None \<and> under_prefix PACKS_PREFIX k
         \<and> object_id_from_key (rp_ext r) k = Inr j}
    \<and> (\<forall>p \<in> set (ib_packs blob). \<exists>bs t. objs s (pack_key (rp_ext r) (ip_pack p)) = Some (bs, t)
         \<and> pack_table r (take (ip_size p) bs) (ip_entries p)
         \<and> ((\<forall>k. objs s k \<noteq> None \<and> under_prefix PACKS_PREFIX k \<and> object_id_from_key (rp_ext r) k = Inr (ip_pack p)
               \<longrightarrow> k = pack_key (rp_ext r) (ip_pack p)) \<longrightarrow> ip_size p = length bs))
    \<and> ((\<forall>plain. cbor_encode (ev_index (rp_env r)) blob = Inr plain \<longrightarrow> length plain \<le> MAX_INDEX_PLAIN) \<longrightarrow>
         read_index_blob r s' i = Inr blob
         \<and> (\<forall>x. load_index r s' = Inr x \<and> objs s (index_key (rp_ext r) i) = None
                \<and> (\<forall>j other. listed_blob r s' j other \<longrightarrow> i \<notin> set (ib_supersedes other)) \<longrightarrow>
              (\<forall>c. index_get x c \<noteq> None \<longleftrightarrow> (\<exists>p \<in> set (ib_packs blob). c \<in> pe_id ` set (ip_entries p)))))"
proof -
  obtain existing packs i where rd: "rebuild_read r s = Inr (existing, packs)"
    and w: "write_index r os (rebuild_blob existing packs) s = (Inr i, s')"
    by (rule rebuild_index_Inr [OF assms(9)])
  define blob where "blob = rebuild_blob existing packs"
  note w = w [folded blob_def]
  have b: "ib_supersedes blob = existing" "ib_packs blob = packs" "ib_version blob = FORMAT_VERSION"
    by (simp_all add: blob_def rebuild_blob_def new_blob_def)
  note old = rebuild_read_Inr [OF rd assms(1)]
  obtain bs t where upd: "objs s' = (objs s)(index_key (rp_ext r) i \<mapsto> (bs, t))" and i: "i = object_id_of (rp_ext r) bs"
    by (rule write_index_effect [OF assms(1) w])
  have key: "object_id_from_key (rp_ext r) (index_key (rp_ext r) i) = Inr i"
    using object_id_from_prefixed [OF assms(6), of i INDEXES_PREFIX] assms(5)
    by (simp add: key_defs i object_id_of_def hash_ok_def)
  have reads_back: "read_index_blob r s' i = Inr blob \<and> (\<forall>x. load_index r s' = Inr x \<and> objs s (index_key (rp_ext r) i) = None
        \<and> (\<forall>j other. listed_blob r s' j other \<longrightarrow> i \<notin> set (ib_supersedes other)) \<longrightarrow>
      (\<forall>c. index_get x c \<noteq> None \<longleftrightarrow> (\<exists>p \<in> set (ib_packs blob). c \<in> pe_id ` set (ip_entries p))))"
    if fits: "\<forall>plain. cbor_encode (ev_index (rp_env r)) blob = Inr plain \<longrightarrow> length plain \<le> MAX_INDEX_PLAIN"
  proof (intro conjI allI impI)
    have "codec_ok (ev_index (rp_env r)) {blob}" using assms(8) by (auto simp: codec_ok_def)
    from write_index_reads [OF assms(1-4,7) this b(3) fits w]
    show reads: "read_index_blob r s' i = Inr blob" by blast
    fix x c
    assume new: "load_index r s' = Inr x \<and> objs s (index_key (rp_ext r) i) = None
        \<and> (\<forall>j other. listed_blob r s' j other \<longrightarrow> i \<notin> set (ib_supersedes other))"
    then have x: "load_index r s' = Inr x" by blast
    obtain listed where l: "backend_list (rp_ops r) INDEXES_PREFIX s' = Inr listed"
      using x by (auto simp: load_index_def load_index_lenient_def load_index_blobs_def result_simps)
    have keys: "oi_key ` set listed = {k. objs s' k \<noteq> None \<and> under_prefix INDEXES_PREFIX k}"
      using backend_list_objs(2) [OF assms(1) l] .
    have "index_key (rp_ext r) i \<in> oi_key ` set listed"
      unfolding keys by (simp add: upd key_defs under_prefix_def starts_with_def)
    then have mine: "listed_blob r s' i blob"
      using l key reads unfolding listed_blob_def by force
    have others: "j \<in> set existing \<or> j = i \<and> other = blob" if lb: "listed_blob r s' j other" for j other
    proof -
      from lb l obtain ob where ob: "ob \<in> set listed" "object_id_from_key (rp_ext r) (oi_key ob) = Inr j"
        and rb: "read_index_blob r s' j = Inr other" by (auto simp: listed_blob_def)
      from ob(1) have "oi_key ob \<in> {k. objs s' k \<noteq> None \<and> under_prefix INDEXES_PREFIX k}"
        unfolding keys [symmetric] by (rule imageI)
      then have k: "objs s' (oi_key ob) \<noteq> None" "under_prefix INDEXES_PREFIX (oi_key ob)" by blast+
      show ?thesis
      proof (cases "oi_key ob = index_key (rp_ext r) i")
        case True
        with ob(2) key rb reads show ?thesis by simp
      next
        case False
        with k(1) have "objs s (oi_key ob) \<noteq> None" by (simp add: upd)
        with k(2) ob(2) show ?thesis unfolding old(1) by blast
      qed
    qed
    have effective: "listed_blob r s' j other \<and> (\<forall>j' o'. listed_blob r s' j' o' \<longrightarrow> j \<notin> set (ib_supersedes o'))
        \<longleftrightarrow> j = i \<and> other = blob" for j other
      using mine others new b(1) by blast
    show "index_get x c \<noteq> None \<longleftrightarrow> (\<exists>p \<in> set (ib_packs blob). c \<in> pe_id ` set (ip_entries p))"
    proof -
      from load_index_meaning [OF x assms(1)] have "index_get x c \<noteq> None \<longleftrightarrow>
          (\<exists>j other p. (listed_blob r s' j other \<and> (\<forall>j' o'. listed_blob r s' j' o' \<longrightarrow> j \<notin> set (ib_supersedes o')))
             \<and> p \<in> set (ib_packs other) \<and> c \<in> pe_id ` set (ip_entries p))"
        by (simp only: conj_assoc)
      then show ?thesis unfolding effective by auto
    qed
  qed
  have frame: "\<forall>k. k \<noteq> index_key (rp_ext r) i \<longrightarrow> objs s' k = objs s k" by (simp add: upd)
  have tables: "\<exists>bs t. objs s (pack_key (rp_ext r) (ip_pack p)) = Some (bs, t)
         \<and> pack_table r (take (ip_size p) bs) (ip_entries p)
         \<and> ((\<forall>k. objs s k \<noteq> None \<and> under_prefix PACKS_PREFIX k \<and> object_id_from_key (rp_ext r) k = Inr (ip_pack p)
               \<longrightarrow> k = pack_key (rp_ext r) (ip_pack p)) \<longrightarrow> ip_size p = length bs)"
    if "p \<in> set (ib_packs blob)" for p
  proof -
    have p: "p \<in> set packs" using that by (simp add: b)
    obtain bs t where bs: "objs s (pack_key (rp_ext r) (ip_pack p)) = Some (bs, t)"
      "pack_table r (take (ip_size p) bs) (ip_entries p)"
      using read_pack_index_table [OF assms(1) old(3) [THEN bspec, OF p]] by blast
    from old(4) p obtain k b' t' where "objs s k = Some (b', t')" "under_prefix PACKS_PREFIX k"
      "object_id_from_key (rp_ext r) k = Inr (ip_pack p)" "ip_size p = length b'" by blast
    note k = this
    have "ip_size p = length bs" if "k = pack_key (rp_ext r) (ip_pack p)" using that k(1,4) bs(1) by simp
    moreover have "objs s k \<noteq> None" using k(1) by simp
    ultimately show ?thesis using bs k(2,3) by blast
  qed
  show ?thesis
    by (rule exI [of _ i], rule exI [of _ blob], intro conjI ballI)
      (fact frame, fact old(1) [folded b], fact old(2) [folded b], erule tables, rule impI, erule reads_back)
qed

lemma write_index_put:
  assumes "store_ok (rp_ops r) objs" "write_index r os blob s = (res, s')"
  shows "objs s' = objs s \<or> (\<exists>bs t. objs s' = (objs s)(index_key (rp_ext r) (object_id_of (rp_ext r) bs) \<mapsto> (bs, t)))"
proof -
  from assms(2) consider "s' = s"
    | bs q where "backend_put (rp_ops r) (index_key (rp_ext r) (object_id_of (rp_ext r) bs)) bs s = (q, s')"
    by (auto simp: write_index_def io_then_def io_lift_def io_err_def Let_def split: sum.splits prod.splits)
  then show ?thesis
  proof cases
    case (2 bs q)
    from backend_put_objs(2) [OF assms(1) this] show ?thesis by blast
  qed simp
qed

lemma rebuild_index_put:
  assumes "store_ok (rp_ops r) objs" "rebuild_index r os s = (res, s')"
  shows "objs s' = objs s \<or> (\<exists>bs t. objs s' = (objs s)(index_key (rp_ext r) (object_id_of (rp_ext r) bs) \<mapsto> (bs, t)))"
proof (cases "rebuild_read r s")
  case (Inl e)
  with assms(2) show ?thesis by (simp add: rebuild_index_def io_then_def io_read_def)
next
  case (Inr x)
  obtain existing packs where x: "x = (existing, packs)" by force
  obtain q s1 where w: "write_index r os (rebuild_blob existing packs) s = (q, s1)" by force
  with Inr x assms(2) have "s' = s1" by (auto simp: rebuild_index_def io_then_def io_read_def io_lift_def split: sum.splits)
  with write_index_put [OF assms(1) w] show ?thesis by simp
qed

lemma corrupt_blob_fails_load:
  assumes "store_ok (rp_ops r) objs" "hex_ok (rp_ext r)" "length (object_bytes j) = 32"
    "objs s (index_key (rp_ext r) j) = Some (bs, t)" "object_id_of (rp_ext r) bs \<noteq> j"
  shows "load_index r s \<noteq> Inr x"
proof
  assume x: "load_index r s = Inr x"
  have key: "object_id_from_key (rp_ext r) (index_key (rp_ext r) j) = Inr j"
    using object_id_from_prefixed [OF assms(2,3), of INDEXES_PREFIX] by (simp add: key_defs)
  have "under_prefix INDEXES_PREFIX (index_key (rp_ext r) j)"
    by (simp add: key_defs under_prefix_def starts_with_def)
  with load_index_meaning [OF x assms(1)] assms(4) key
  obtain blob where "read_index_blob r s j = Inr blob" by fastforce
  then obtain b where "backend_get (rp_ops r) (index_key (rp_ext r) j) s = Inr b" "object_id_of (rp_ext r) b = j"
    by (auto simp: read_index_blob_def Let_def result_simps split: if_splits)
  with backend_get_objs(1) [OF assms(1)] assms(4,5) show False by fastforce
qed

text \<open>C34: rebuilding does not repair a repository with a damaged index blob. However the rebuild ends,
  the damaged object is in its place with its bytes, and because an unreadable blob fails the load
  even when another blob supersedes it, the index cannot be loaded afterwards either; the one
  exception is that the rebuilt blob has the very name of the damaged one and replaces it.\<close>

theorem rebuild_keeps_corrupt_blob:
  assumes "store_ok (rp_ops r) objs" "hex_ok (rp_ext r)" "length (object_bytes j) = 32"
    "objs s (index_key (rp_ext r) j) = Some (bs, t)" "object_id_of (rp_ext r) bs \<noteq> j"
    "rebuild_index r os s = (res, s')"
  shows "objs s' (index_key (rp_ext r) j) = Some (bs, t) \<and> (\<forall>x. load_index r s' \<noteq> Inr x)
    \<or> (\<exists>bs' t'. objs s' (index_key (rp_ext r) j) = Some (bs', t') \<and> object_id_of (rp_ext r) bs' = j)"
proof (cases "objs s' (index_key (rp_ext r) j) = Some (bs, t)")
  case True
  with corrupt_blob_fails_load [OF assms(1-3) True assms(5)] show ?thesis by blast
next
  case False
  with rebuild_index_put [OF assms(1,6)] assms(4) obtain bs' t' where
      new: "objs s' = (objs s)(index_key (rp_ext r) (object_id_of (rp_ext r) bs') \<mapsto> (bs', t'))" by auto
  with False assms(4) have "index_key (rp_ext r) (object_id_of (rp_ext r) bs') = index_key (rp_ext r) j"
    by (auto split: if_splits)
  moreover from this have "object_id_of (rp_ext r) bs' = j"
    using hex_encode_inj [OF assms(2)] by (auto simp: key_defs intro: object_id.expand)
  ultimately show ?thesis using new by auto
qed

text \<open>A repository without packs whose only index blob is damaged.\<close>

definition demo_damaged_id :: object_id where "demo_damaged_id = ObjectId (replicate 32 9)"

definition demo_damaged_state :: map_state where
  "demo_damaged_state = ([(index_key demo_ext demo_damaged_id, [0], 0)], 1)"

definition demo_damaged_repo :: "map_state repository" where
  "demo_damaged_repo = demo_repo 0 [] [] [rebuild_blob [demo_damaged_id] []]"

lemma demo_rebuild_read: "rebuild_read demo_damaged_repo demo_damaged_state = Inr ([demo_damaged_id], [])"
proof -
  let ?o = "\<lparr>oi_key = index_key demo_ext demo_damaged_id, oi_size = 1, oi_modified = 0\<rparr>"
  have l: "backend_list map_store INDEXES_PREFIX demo_damaged_state = Inr [?o]"
    and p: "backend_list map_store PACKS_PREFIX demo_damaged_state = Inr []"
    by (simp_all add: backend_list_def backend_path_def map_store_def demo_damaged_state_def under_prefix_def starts_with_def
        index_key_def map_meta_def from_meta_def timestamp_ok_def MIN_TIMESTAMP_def MAX_TIMESTAMP_def INDEXES_PREFIX_def
        PACKS_PREFIX_def)
  have "object_id_from_key demo_ext (index_key demo_ext demo_damaged_id) = Inr demo_damaged_id"
    using object_id_from_prefixed [OF demo_hex_ok, of demo_damaged_id INDEXES_PREFIX]
    by (simp add: key_defs demo_damaged_id_def)
  with l p show ?thesis by (simp add: rebuild_read_def demo_damaged_repo_def)
qed

lemma demo_rebuild:
  "\<exists>sm s'. rebuild_index demo_damaged_repo demo_nonce demo_damaged_state = (Inr sm, s')
     \<and> map_objs s' (index_key demo_ext demo_damaged_id) = Some ([0], 0)"
proof -
  have "hd (object_bytes demo_index_id) \<noteq> hd (object_bytes demo_damaged_id)"
    by (simp add: demo_index_id_def demo_damaged_id_def object_id_of_def demo_index_bytes_def pad32_def)
  then have k: "index_key demo_ext demo_index_id \<noteq> index_key demo_ext demo_damaged_id"
    using hex_encode_inj [OF demo_hex_ok] by (auto simp: key_defs)
  have "write_index demo_damaged_repo demo_nonce (rebuild_blob [demo_damaged_id] []) demo_damaged_state
      = (Inr demo_index_id, snd (map_put (index_key demo_ext demo_index_id) demo_index_bytes demo_damaged_state))"
    by (simp add: write_index_def demo_damaged_repo_def io_then_def io_lift_def encode_index_blob_def algorithm_byte_def
        seal_index_blob_in_place_def random_bytes_def Let_def io_err_def demo_index_id_def demo_index_bytes_def
        demo_index_repo_def backend_put_def backend_path_def map_store_def map_put_def)
  moreover from k have "map_objs (snd (map_put (index_key demo_ext demo_index_id) demo_index_bytes demo_damaged_state))
      (index_key demo_ext demo_damaged_id) = Some ([0], 0)"
    by (simp add: map_put_def demo_damaged_state_def map_objs_def)
  ultimately show ?thesis by (simp add: rebuild_index_def io_then_def io_read_def demo_rebuild_read io_lift_def)
qed

theorem rebuild_index_complete_witness:
  "\<exists>sm s' i blob. rebuild_index demo_damaged_repo demo_nonce demo_damaged_state = (Inr sm, s')
     \<and> demo_damaged_id \<in> set (ib_supersedes blob)
     \<and> ((\<forall>plain. cbor_encode (ev_index (rp_env demo_damaged_repo)) blob = Inr plain \<longrightarrow> length plain \<le> MAX_INDEX_PLAIN) \<longrightarrow>
        read_index_blob demo_damaged_repo s' i = Inr blob)"
proof -
  obtain sm s' where r: "rebuild_index demo_damaged_repo demo_nonce demo_damaged_state = (Inr sm, s')"
    using demo_rebuild by blast
  have "map_objs demo_damaged_state (index_key demo_ext demo_damaged_id) \<noteq> None
      \<and> under_prefix INDEXES_PREFIX (index_key demo_ext demo_damaged_id)
      \<and> object_id_from_key demo_ext (index_key demo_ext demo_damaged_id) = Inr demo_damaged_id"
    using object_id_from_prefixed [OF demo_hex_ok, of demo_damaged_id INDEXES_PREFIX]
    by (simp add: key_defs demo_damaged_id_def demo_damaged_state_def map_objs_def under_prefix_def starts_with_def)
  moreover have "store_ok (rp_ops demo_damaged_repo) map_objs" "store_live (rp_ops demo_damaged_repo) map_objs"
    "aead_ok (rp_ext demo_damaged_repo)" "zstd_ok (rp_ext demo_damaged_repo)" "hash_ok (rp_ext demo_damaged_repo)"
    "hex_ok (rp_ext demo_damaged_repo)" "codec_ok (ev_index (rp_env demo_damaged_repo)) UNIV"
    "rp_ext demo_damaged_repo = demo_ext"
    by (simp_all add: demo_damaged_repo_def map_store_ok map_store_live demo_aead_ok demo_zstd_ok demo_hash_ok demo_hex_ok
        demo_codec_ok)
  ultimately show ?thesis
    using rebuild_index_complete [OF _ _ _ _ _ _ demo_nonce_ok _ r, of map_objs] r by fastforce
qed

theorem rebuild_keeps_corrupt_blob_witness:
  "\<exists>sm s'. rebuild_index demo_damaged_repo demo_nonce demo_damaged_state = (Inr sm, s')
     \<and> (\<forall>x. load_index demo_damaged_repo s' \<noteq> Inr x)"
proof -
  obtain sm s' where r: "rebuild_index demo_damaged_repo demo_nonce demo_damaged_state = (Inr sm, s')"
    and still: "map_objs s' (index_key demo_ext demo_damaged_id) = Some ([0], 0)"
    using demo_rebuild by blast
  have "length (object_bytes demo_damaged_id) = 32" by (simp add: demo_damaged_id_def)
  moreover have "map_objs demo_damaged_state (index_key demo_ext demo_damaged_id) = Some ([0], 0)"
    by (simp add: demo_damaged_state_def map_objs_def)
  moreover have "hd (object_bytes (object_id_of demo_ext [0])) \<noteq> hd (object_bytes demo_damaged_id)"
    by (simp add: object_id_of_def pad32_def demo_damaged_id_def)
  then have "object_id_of demo_ext [0] \<noteq> demo_damaged_id" by auto
  ultimately show ?thesis
    using rebuild_keeps_corrupt_blob [OF _ _ _ _ _ r, of map_objs demo_damaged_id "[0]" 0] r still
    by (simp add: demo_damaged_repo_def map_store_ok demo_hex_ok)
qed

end
