(* ===== verification/Check.thy ===== *)
theory Check
  imports Store_Frame Reach Pack_Parity
begin

text \<open>
  \<open>crates/kist-core/src/check.rs\<close>: the consistency check, with the reading of all packs and the
  repair from parity objects. An error text is a pair of what stands before its first colon and a
  value for the rest. The order in which hash maps and hash sets are iterated decides only the
  order of messages; the lists here follow the store's listing and the order of names. The
  failure of a worker thread is not modelled. \<open>None\<close> is a walk that does not end.
\<close>

datatype problem =
    IndexUnreadable core_error
  | PackNotThere
  | PackSizeDiffers nat nat
  | PackUnreferenced
  | WalkProblem walk_error
  | FileSizeDiffers bytes nat nat
  | PrimaryMissing
  | PrimaryUnknown string backend_error
  | ReplicaMissing
  | ReplicaUnknown backend_error
  | PackUnreadable backend_error
  | HashMismatch
  | RepairNotStuck
  | TrailerUnreadable core_error
  | ChunkUnindexed chunk_id
  | ChunkMoved chunk_id
  | ChunkOutside chunk_id
  | ChunkBad chunk_id core_error
  | ChunkNotInTrailer chunk_id
  | NoParity
  | ParityUnreadable backend_error
  | ParityInvalid format_error
  | CannotStore backend_error
  | RepairFailed format_error

type_synonym message = "string \<times> problem"

record check_options =
  co_read_data :: bool
  co_repair :: bool

record check_report =
  cr_snapshots :: nat
  cr_trees :: nat
  cr_packs :: nat
  cr_chunks :: nat
  cr_errors :: "message list"
  cr_warnings :: "message list"
  cr_repaired :: "string list"
  cr_unrepairable :: "string list"

definition report_default :: check_report where
  "report_default = \<lparr>cr_snapshots = 0, cr_trees = 0, cr_packs = 0, cr_chunks = 0, cr_errors = [], cr_warnings = [],
     cr_repaired = [], cr_unrepairable = []\<rparr>"

definition report_is_ok :: "check_report \<Rightarrow> bool" where "report_is_ok rep \<longleftrightarrow> cr_errors rep = []"

definition push_errors :: "message list \<Rightarrow> check_report \<Rightarrow> check_report" where
  "push_errors es rep = rep\<lparr>cr_errors := cr_errors rep @ es\<rparr>"

definition push_warnings :: "message list \<Rightarrow> check_report \<Rightarrow> check_report" where
  "push_warnings ws rep = rep\<lparr>cr_warnings := cr_warnings rep @ ws\<rparr>"

definition push_unrepairable :: "string \<Rightarrow> problem \<Rightarrow> check_report \<Rightarrow> check_report" where
  "push_unrepairable key p rep = (push_errors [(key, p)] rep)\<lparr>cr_unrepairable := cr_unrepairable rep @ [key]\<rparr>"

fun walk_error_head :: "walk_error \<Rightarrow> string" where
  "walk_error_head (SnapshotUnreadable k e) = k"
| "walk_error_head (TreeUnreadable k ctx e) = k @ '' (from '' @ ctx @ '')''"
| "walk_error_head (TooDeep k) = k"
| "walk_error_head (ListChunkMissing k c) = k"
| "walk_error_head (ListUnreadable k e) = k"
| "walk_error_head (ChunkNotIndexed k c) = k"

section \<open>Without reading data\<close>

definition pack_size_problems :: "ext \<Rightarrow> (string \<Rightarrow> nat option) \<Rightarrow> (object_id \<times> nat) list \<Rightarrow> message list" where
  "pack_size_problems ext listed packs =
     concat (map (\<lambda>(i, sz). case listed (pack_key ext i) of
         None \<Rightarrow> [(pack_key ext i, PackNotThere)]
       | Some actual \<Rightarrow> if actual \<noteq> sz then [(pack_key ext i, PackSizeDiffers actual sz)] else []) packs)"

definition file_total :: "chunk_index \<Rightarrow> chunk_id list \<Rightarrow> nat \<times> bool" where
  "file_total x cs =
     foldl (\<lambda>(sum, complete) c. case index_get x c of
         Some loc \<Rightarrow> (sat_add64 sum (lo_raw_len loc), complete) | None \<Rightarrow> (sum, False)) (0, True) cs"

definition file_problems :: "chunk_index \<Rightarrow> file_visit \<Rightarrow> message list" where
  "file_problems x v =
     (let (sum, complete) = file_total x (fv_data_chunks v)
      in if complete \<and> sum \<noteq> en_size (fv_node v)
         then [(fv_tree_key v, FileSizeDiffers (en_name (fv_node v)) (en_size (fv_node v)) sum)] else [])"

definition orphan_problems :: "'s repository \<Rightarrow> 's \<Rightarrow> string \<Rightarrow> message list" where
  "orphan_problems r s rk =
     (case strip_replica rk of
        None \<Rightarrow> []
      | Some base \<Rightarrow>
          (case backend_exists (rp_ops r) base s of
             Inr True \<Rightarrow> []
           | Inr False \<Rightarrow> [(rk, PrimaryMissing)]
           | Inl e \<Rightarrow> [(rk, PrimaryUnknown base e)]))"

definition check_tree_replica :: "'s repository \<Rightarrow> 's \<Rightarrow> object_id \<Rightarrow> check_report \<Rightarrow> check_report" where
  "check_tree_replica r s i rep =
     (let rk = tree_replica_key (rp_ext r) (TreeId (object_bytes i))
      in case backend_exists (rp_ops r) rk s of
           Inr True \<Rightarrow> rep
         | Inr False \<Rightarrow> push_warnings [(rk, ReplicaMissing)] rep
         | Inl e \<Rightarrow> push_errors [(rk, ReplicaUnknown e)] rep)"

definition check_packs :: "'s repository \<Rightarrow> chunk_index \<Rightarrow> object_info list \<Rightarrow> check_report \<Rightarrow> check_report" where
  "check_packs r x listed rep =
     (let sizes = map_of (rev (map (\<lambda>ob. (oi_key ob, oi_size ob)) listed));
          indexed = map (pack_key (rp_ext r) \<circ> fst) (ci_packs x);
          rep1 = push_errors (pack_size_problems (rp_ext r) sizes (ci_packs x)) rep
      in push_warnings (map (\<lambda>k. (k, PackUnreferenced)) (filter (\<lambda>k. k \<notin> set indexed) (map oi_key listed)))
           (rep1\<lparr>cr_packs := length (ci_packs x)\<rparr>))"

definition check_replicas :: "'s repository \<Rightarrow> 's \<Rightarrow> object_info list \<Rightarrow> object_id list \<Rightarrow> check_report \<Rightarrow> check_report" where
  "check_replicas r s trees live rep =
     (let replica_keys = filter (\<lambda>k. ends_with k REPLICA_SUFFIX) (map oi_key trees);
          rep1 = push_errors (concat (map (orphan_problems r s) replica_keys)) rep
      in if rc_replicas (rp_config r) > 0 then fold (check_tree_replica r s) live rep1 else rep1)"

definition check_read :: "'s repository \<Rightarrow> 's \<Rightarrow> (core_error + (chunk_index \<times> check_report)) option" where
  \<comment> \<open>steps 1 to 3b: everything that does not read packs\<close>
  "check_read r s =
     (case load_index_lenient r s of
        Inl e \<Rightarrow> Some (Inl e)
      | Inr (x, index_errors) \<Rightarrow>
          (let rep1 = (push_errors (map (\<lambda>e. (''index'', IndexUnreadable e)) index_errors) report_default)
                        \<lparr>cr_chunks := index_len x\<rparr>
           in case backend_list (rp_ops r) PACKS_PREFIX s of
                Inl e \<Rightarrow> Some (Inl (BackendE e))
              | Inr listed \<Rightarrow>
                  (let rep2 = check_packs r x listed rep1
                   in case walk_references r s (index_view x) of
                        None \<Rightarrow> None
                      | Some (Inl e) \<Rightarrow> Some (Inl e)
                      | Some (Inr reach) \<Rightarrow>
                          Some (and_then (list_snapshot_keys r s) (\<lambda>ks.
                            let rep3 = push_errors (map (\<lambda>e. (walk_error_head e, WalkProblem e)) (re_errors reach))
                                         (rep2\<lparr>cr_snapshots := length ks\<rparr>);
                                rep4 = (push_errors (concat (map (file_problems x) (re_visits reach))) rep3)
                                         \<lparr>cr_trees := card (re_live_trees reach)\<rparr>
                            in and_then (map_err BackendE (backend_list (rp_ops r) TREES_PREFIX s)) (\<lambda>trees.
                                 Inr (x, check_replicas r s trees (sorted_list_of_set (re_live_trees reach)) rep4)))))))"

section \<open>Reading the packs\<close>

definition entry_problems ::
  "'s repository \<Rightarrow> string \<Rightarrow> (chunk_id \<Rightarrow> chunk_location option) \<Rightarrow> (chunk_id \<Rightarrow> bool) \<Rightarrow> bytes \<Rightarrow> pack_entry \<Rightarrow> message list" where
  "entry_problems r key expected known bs e =
     (case expected (pe_id e) of
        None \<Rightarrow> if known (pe_id e) then [] else [(key, ChunkUnindexed (pe_id e))]
      | Some loc \<Rightarrow>
          if lo_offset loc \<noteq> pe_offset e \<or> lo_length loc \<noteq> pe_length e \<or> lo_raw_len loc \<noteq> pe_raw_len e
          then [(key, ChunkMoved (pe_id e))] else [])
     @ (case get_slice (pe_offset e) (sat_add64 (pe_offset e) (pe_length e)) bs of
          None \<Rightarrow> [(key, ChunkOutside (pe_id e))]
        | Some sl \<Rightarrow>
            (case decode_chunk (rp_ext r) (rp_keys r) (pe_id e) sl (pe_raw_len e) (max_chunk r) of
               Inl err \<Rightarrow> [(key, ChunkBad (pe_id e) err)] | Inr m \<Rightarrow> []))"

definition pack_problems ::
  "'s repository \<Rightarrow> string \<Rightarrow> (chunk_id \<times> chunk_location) list \<Rightarrow> (chunk_id \<Rightarrow> bool) \<Rightarrow> bytes \<Rightarrow> message list" where
  "pack_problems r key expected known bs =
     (case read_trailer (rp_ext r) (ev_trailer (rp_env r)) (rp_keys r) key bs of
        Inl e \<Rightarrow> [(key, TrailerUnreadable e)]
      | Inr trailer \<Rightarrow>
          concat (map (entry_problems r key (map_of (rev expected)) known bs) (pt_entries trailer))
          @ map (\<lambda>c. (key, ChunkNotInTrailer c))
              (filter (\<lambda>c. c \<notin> pe_id ` set (pt_entries trailer)) (remdups (map fst expected))))"

definition repair_pack ::
  "'s repository \<Rightarrow> rs_coder \<Rightarrow> parity_object codec \<Rightarrow> object_id \<Rightarrow> bytes \<Rightarrow> check_report \<Rightarrow> (core_error, 's, bool \<times> check_report) io" where
  "repair_pack r rs codec i damaged rep =
     (let key = pack_key (rp_ext r) i;
          give_up = (\<lambda>p. io_lift (Inr (False, push_unrepairable key p rep)))
      in io_try (io_read (backend_get (rp_ops r) (parity_key (rp_ext r) i))) (\<lambda>raw.
           case raw of
             Inl (ObjNotFound k) \<Rightarrow> give_up NoParity
           | Inl e \<Rightarrow> give_up (ParityUnreadable e)
           | Inr bs \<Rightarrow>
               (case parity_parse codec bs of
                  Inl e \<Rightarrow> give_up (ParityInvalid e)
                | Inr ob \<Rightarrow>
                    (case parity_repair (rp_ext r) rs ob i damaged of
                       Inl e \<Rightarrow> give_up (RepairFailed e)
                     | Inr fixed \<Rightarrow>
                         io_try (backend_put (rp_ops r) key fixed) (\<lambda>res.
                           case res of
                             Inl e \<Rightarrow> give_up (CannotStore e)
                           | Inr u \<Rightarrow> io_lift (Inr (True, rep)))))))"

definition note_repaired :: "string \<Rightarrow> check_report \<Rightarrow> check_report" where
  "note_repaired key rep =
     rep\<lparr>cr_repaired := cr_repaired rep @ [key], cr_errors := filter (\<lambda>(head, p). head \<noteq> key) (cr_errors rep)\<rparr>"

definition check_pack_data ::
  "'s repository \<Rightarrow> rs_coder \<Rightarrow> parity_object codec \<Rightarrow> (chunk_id \<times> chunk_location) list \<Rightarrow> bool
     \<Rightarrow> object_id \<times> nat \<Rightarrow> check_report \<Rightarrow> (core_error, 's, check_report) io" where
  "check_pack_data r rs codec chunks repair pack rep =
     (let i = fst pack; key = pack_key (rp_ext r) i;
          expected = filter (\<lambda>(c, loc). lo_pack loc = i) chunks;
          verify = (\<lambda>bs rep. io_lift (Inr (push_errors
             (pack_problems r key expected (\<lambda>c. c \<in> fst ` set chunks) bs) rep)))
      in io_try (io_read (backend_get (rp_ops r) key)) (\<lambda>got.
           case got of
             Inl e \<Rightarrow> io_lift (Inr (push_errors [(key, PackUnreadable e)] rep))
           | Inr bs \<Rightarrow>
               (if object_id_of (rp_ext r) bs = i then verify bs rep
                else if \<not> repair then io_lift (Inr (push_errors [(key, HashMismatch)] rep))
                else io_then (repair_pack r rs codec i bs rep) (\<lambda>(fixed, rep1).
                  if \<not> fixed then io_lift (Inr rep1)
                  else let rep2 = note_repaired key rep1
                    in io_try (io_read (backend_get (rp_ops r) key)) (\<lambda>again.
                         case again of
                           Inl e \<Rightarrow> io_lift (Inr (push_errors [(key, RepairNotStuck)] rep2))
                         | Inr b \<Rightarrow>
                             (if object_id_of (rp_ext r) b = i then verify b rep2
                              else io_lift (Inr (push_errors [(key, RepairNotStuck)] rep2))))))))"

definition check :: "'s repository \<Rightarrow> rs_coder \<Rightarrow> parity_object codec \<Rightarrow> check_options \<Rightarrow> 's
    \<Rightarrow> ((core_error + check_report) \<times> 's) option" where
  "check r rs codec opts s =
     (case check_read r s of
        None \<Rightarrow> None
      | Some (Inl e) \<Rightarrow> Some (Inl e, s)
      | Some (Inr (x, rep)) \<Rightarrow>
          Some (if co_read_data opts \<or> co_repair opts
                then io_fold (check_pack_data r rs codec (index_chunks x) (co_repair opts)) (ci_packs x) rep s
                else (Inr rep, s)))"

section \<open>What a loaded index holds\<close>

definition index_wf :: "chunk_index \<Rightarrow> bool" where
  "index_wf x \<longleftrightarrow> ci_base x = None \<and> distinct (map fst (ci_overlay x)) \<and> distinct (map fst (ci_packs x))
     \<and> (\<forall>(c, l) \<in> set (ci_overlay x). lo_pack l \<in> fst ` set (ci_packs x))"

lemma update_subset: "set (AList.update k v xs) \<subseteq> insert (k, v) (set xs)"
  by (induction xs) auto

lemma add_entries_wf:
  "distinct (map fst ov) \<Longrightarrow> distinct (map fst (add_entries i es ov))
     \<and> (\<forall>cl \<in> set (add_entries i es ov). lo_pack (snd cl) = i \<or> cl \<in> set ov)"
proof (induction es arbitrary: ov)
  case (Cons e es)
  let ?ov = "AList.update (pe_id e) (location i e) ov"
  have d: "distinct (map fst ?ov)" using Cons.prems by (rule distinct_update)
  have "lo_pack (snd cl) = i \<or> cl \<in> set ov" if "cl \<in> set ?ov" for cl
    using update_subset that by (fastforce simp: location_def)
  with Cons.IH [OF d] have "distinct (map fst (add_entries i es ?ov))
      \<and> (\<forall>cl \<in> set (add_entries i es ?ov). lo_pack (snd cl) = i \<or> cl \<in> set ov)" by blast
  with Cons.IH [OF Cons.prems] show ?case by (simp split: option.split)
qed simp

lemma add_pack_wf:
  assumes "index_wf x"
  shows "index_wf (add_pack x p)"
proof -
  let ?packs = "AList.update (ip_pack p) (ip_size p) (ci_packs x)"
    and ?ov = "add_entries (ip_pack p) (ip_entries p) (ci_overlay x)"
  have x: "ci_base x = None" "distinct (map fst (ci_overlay x))" "distinct (map fst (ci_packs x))"
    "\<And>cl. cl \<in> set (ci_overlay x) \<Longrightarrow> lo_pack (snd cl) \<in> fst ` set (ci_packs x)"
    using assms by (auto simp: index_wf_def)
  have names: "fst ` set ?packs = insert (ip_pack p) (fst ` set (ci_packs x))" by (simp add: dom_update)
  have "lo_pack (snd cl) \<in> fst ` set ?packs" if "cl \<in> set ?ov" for cl
    using add_entries_wf [OF x(2)] that x(4) unfolding names by blast
  moreover have "distinct (map fst ?packs)" using x(3) by (rule distinct_update)
  ultimately show ?thesis using x(1) add_entries_wf [OF x(2)] by (auto simp: index_wf_def add_pack_def)
qed

lemma load_index_lenient_wf:
  assumes "load_index_lenient r s = Inr (x, errors)"
  shows "index_wf x"
proof -
  have "index_wf x \<Longrightarrow> index_wf (foldl add_pack x ps)" for x ps
    by (induction ps arbitrary: x) (simp_all add: add_pack_wf)
  moreover have "index_wf new_index" by (simp add: index_wf_def new_index_def)
  ultimately show ?thesis using assms by (auto simp: load_index_lenient_def result_simps)
qed

section \<open>What a check writes\<close>

text \<open>Between two contents of the store only broken packs were mended: what changed is a pack whose
  bytes did not hash to its name before and do now.\<close>

definition mended :: "ext \<Rightarrow> objects \<Rightarrow> objects \<Rightarrow> bool" where
  "mended ext ob ob' \<longleftrightarrow> (\<forall>k. ob' k = ob k \<or> (\<exists>i bs t. k = pack_key ext i \<and> ob' k = Some (bs, t)
     \<and> object_id_of ext bs = i \<and> (\<forall>b t. ob k = Some (b, t) \<longrightarrow> object_id_of ext b \<noteq> i)))"

lemma mended_refl [simp]: "mended ext ob ob" by (simp add: mended_def)

lemma mended_trans:
  assumes "hex_ok ext" "mended ext a b" "mended ext b c"
  shows "mended ext a c"
  unfolding mended_def
proof
  fix k
  have inj: "pack_key ext i = pack_key ext j \<Longrightarrow> i = j" for i j
    using key_inj(1) [OF assms(1)] by blast
  from assms(2,3) have s1: "b k = a k \<or> (\<exists>i bs t. k = pack_key ext i \<and> b k = Some (bs, t)
       \<and> object_id_of ext bs = i \<and> (\<forall>b' t. a k = Some (b', t) \<longrightarrow> object_id_of ext b' \<noteq> i))"
    and s2: "c k = b k \<or> (\<exists>i bs t. k = pack_key ext i \<and> c k = Some (bs, t)
       \<and> object_id_of ext bs = i \<and> (\<forall>b' t. b k = Some (b', t) \<longrightarrow> object_id_of ext b' \<noteq> i))"
    unfolding mended_def by blast+
  then show "c k = a k \<or> (\<exists>i bs t. k = pack_key ext i \<and> c k = Some (bs, t)
     \<and> object_id_of ext bs = i \<and> (\<forall>b' t. a k = Some (b', t) \<longrightarrow> object_id_of ext b' \<noteq> i))"
    using inj by metis
qed

lemma parity_repair_hash: "parity_repair ext rs ob i d = Inr out \<Longrightarrow> object_id_of ext out = i"
  by (auto simp: parity_repair_def Let_def result_simps split: if_splits)

lemma repair_pack_effect:
  assumes "repair_pack r rs codec i d rep s = (res, s')"
  shows "(\<exists>q. res = Inr q) \<and> (s' = s \<or> (\<exists>fixed p. object_id_of (rp_ext r) fixed = i
      \<and> backend_put (rp_ops r) (pack_key (rp_ext r) i) fixed s = (p, s')))"
  using assms unfolding repair_pack_def Let_def io_try_def io_read_def
  by (auto simp: io_lift_def io_try_def split: sum.splits backend_error.splits prod.splits)
    (fastforce dest: parity_repair_hash)+

lemma check_pack_data_effect:
  assumes "check_pack_data r rs codec chunks repair pack rep s = (res, s')"
  shows "(\<exists>rep'. res = Inr rep') \<and> (s' = s \<or> repair \<and> (\<exists>b fixed p.
     backend_get (rp_ops r) (pack_key (rp_ext r) (fst pack)) s = Inr b \<and> object_id_of (rp_ext r) b \<noteq> fst pack
     \<and> object_id_of (rp_ext r) fixed = fst pack
     \<and> backend_put (rp_ops r) (pack_key (rp_ext r) (fst pack)) fixed s = (p, s')))"
proof -
  obtain got where g: "backend_get (rp_ops r) (pack_key (rp_ext r) (fst pack)) s = got" by blast
  show ?thesis
  proof (cases got)
    case (Inl e)
    with assms g show ?thesis by (auto simp: check_pack_data_def Let_def io_try_def io_read_def io_lift_def)
  next
    case (Inr b)
    show ?thesis
    proof (cases "object_id_of (rp_ext r) b = fst pack \<or> \<not> repair")
      case True
      with assms g Inr show ?thesis
        by (auto simp: check_pack_data_def Let_def io_try_def io_read_def io_lift_def if_distribR split: if_splits)
    next
      case False
      obtain res1 s1 where rp: "repair_pack r rs codec (fst pack) b rep s = (res1, s1)" by force
      from repair_pack_effect [OF rp] obtain fixed rep1 where res1: "res1 = Inr (fixed, rep1)" by auto
      have "(\<exists>rep'. res = Inr rep') \<and> s' = s1"
        using assms False
        by (cases fixed; cases "backend_get (rp_ops r) (pack_key (rp_ext r) (fst pack)) s1")
          (auto simp: check_pack_data_def io_try_def io_read_def io_lift_def io_then_def rp res1 Let_def if_distribR
            g Inr split: if_splits)
      with repair_pack_effect [OF rp] False g Inr show ?thesis by blast
    qed
  qed
qed

lemma check_pack_data_mends:
  assumes "store_ok (rp_ops r) objs" "check_pack_data r rs codec chunks repair pack rep s = (res, s')"
  shows "mended (rp_ext r) (objs s) (objs s')"
proof (cases "s' = s")
  case False
  with check_pack_data_effect [OF assms(2)] obtain b fixed p where
      g: "backend_get (rp_ops r) (pack_key (rp_ext r) (fst pack)) s = Inr b" "object_id_of (rp_ext r) b \<noteq> fst pack"
    and f: "object_id_of (rp_ext r) fixed = fst pack"
    and put: "backend_put (rp_ops r) (pack_key (rp_ext r) (fst pack)) fixed s = (p, s')" by blast
  obtain t where "objs s (pack_key (rp_ext r) (fst pack)) = Some (b, t)" using backend_get_objs(1) [OF assms(1) g(1)] by blast
  with backend_put_objs(2) [OF assms(1) put] f g(2) show ?thesis by (auto simp: mended_def)
qed simp

lemma check_loop_effect:
  assumes "store_ok (rp_ops r) objs" "hex_ok (rp_ext r)"
    "io_fold (check_pack_data r rs codec chunks repair) packs rep s = (res, s')"
  shows "mended (rp_ext r) (objs s) (objs s') \<and> (\<exists>rep'. res = Inr rep') \<and> (\<not> repair \<longrightarrow> s' = s)"
  using assms(3)
proof (induction packs arbitrary: rep s)
  case Nil
  then show ?case by (auto simp: io_lift_def)
next
  case (Cons pack packs)
  obtain res1 s1 where one: "check_pack_data r rs codec chunks repair pack rep s = (res1, s1)" by force
  from check_pack_data_effect [OF this] obtain rep1 where rep1: "res1 = Inr rep1" and same: "\<not> repair \<longrightarrow> s1 = s" by blast
  with Cons.prems one have "io_fold (check_pack_data r rs codec chunks repair) packs rep1 s1 = (res, s')"
    by (simp add: io_then_def)
  from Cons.IH [OF this] same check_pack_data_mends [OF assms(1) one] show ?case
    by (auto intro: mended_trans [OF assms(2), of "objs s" "objs s1"])
qed

text \<open>C36: a check changes nothing unless it was asked to repair, and a repair rewrites nothing but
  packs whose content did not hash to their name, each with content that does: no damaged or
  forged parity object can make it replace an intact pack or store anything else.\<close>

theorem check_only_repairs:
  assumes "store_ok (rp_ops r) objs" "hex_ok (rp_ext r)" "check r rs codec opts s = Some (res, s')"
  shows "(\<not> co_repair opts \<longrightarrow> s' = s)
    \<and> (\<forall>k. objs s' k = objs s k \<or> (\<exists>i bs t. k = pack_key (rp_ext r) i \<and> objs s' k = Some (bs, t)
         \<and> object_id_of (rp_ext r) bs = i \<and> (\<forall>b t. objs s k = Some (b, t) \<longrightarrow> object_id_of (rp_ext r) b \<noteq> i)))"
proof -
  have "(\<not> co_repair opts \<longrightarrow> s' = s) \<and> mended (rp_ext r) (objs s) (objs s')"
    using assms(3) check_loop_effect [OF assms(1,2)]
    by (auto simp: check_def split: option.splits sum.splits if_splits)
  then show ?thesis unfolding mended_def .
qed

section \<open>What a clean check means\<close>

lemma push_errors_simps [simp]:
  "cr_errors (push_errors es rep) = cr_errors rep @ es" "cr_errors (push_warnings ws rep) = cr_errors rep"
  by (simp_all add: push_errors_def push_warnings_def)

lemma check_pack_data_clean:
  assumes "check_pack_data r rs codec chunks False pack rep s = (Inr rep', s')" "cr_errors rep' = []"
  shows "cr_errors rep = [] \<and> (\<exists>b. backend_get (rp_ops r) (pack_key (rp_ext r) (fst pack)) s = Inr b
    \<and> object_id_of (rp_ext r) b = fst pack
    \<and> pack_problems r (pack_key (rp_ext r) (fst pack)) (filter (\<lambda>(c, loc). lo_pack loc = fst pack) chunks)
        (\<lambda>c. c \<in> fst ` set chunks) b = [])"
  using assms by (auto simp: check_pack_data_def Let_def io_try_def io_read_def io_lift_def if_distribR
      split: sum.splits if_splits)

lemma check_loop_clean:
  assumes "io_fold (check_pack_data r rs codec chunks False) packs rep s = (Inr rep', s')" "cr_errors rep' = []"
  shows "cr_errors rep = [] \<and> (\<forall>pack \<in> set packs. \<exists>b. backend_get (rp_ops r) (pack_key (rp_ext r) (fst pack)) s = Inr b
    \<and> object_id_of (rp_ext r) b = fst pack
    \<and> pack_problems r (pack_key (rp_ext r) (fst pack)) (filter (\<lambda>(c, loc). lo_pack loc = fst pack) chunks)
        (\<lambda>c. c \<in> fst ` set chunks) b = [])"
  using assms(1)
proof (induction packs arbitrary: rep)
  case Nil
  with assms(2) show ?case by (simp add: io_lift_def)
next
  case (Cons pack packs)
  obtain res1 s1 where one: "check_pack_data r rs codec chunks False pack rep s = (res1, s1)" by force
  from check_pack_data_effect [OF this] obtain rep1 where rep1: "res1 = Inr rep1" and same: "s1 = s" by blast
  with Cons.prems one have "io_fold (check_pack_data r rs codec chunks False) packs rep1 s = (Inr rep', s')"
    by (simp add: io_then_def)
  from Cons.IH [OF this] check_pack_data_clean [OF one [unfolded rep1]] show ?case by simp
qed

lemma pack_problems_clean:
  assumes "pack_problems r key expected known b = []" "distinct (map fst expected)" "(c, loc) \<in> set expected" "addressable b"
  shows "lo_offset loc + lo_length loc \<le> length b \<and> (\<exists>m.
    decode_chunk (rp_ext r) (rp_keys r) c (slice (lo_offset loc) (lo_offset loc + lo_length loc) b)
      (lo_raw_len loc) (max_chunk r) = Inr m)"
proof -
  from assms(1) obtain trailer where tr: "read_trailer (rp_ext r) (ev_trailer (rp_env r)) (rp_keys r) key b = Inr trailer"
    by (auto simp: pack_problems_def split: sum.splits)
  with assms(1) have each: "\<forall>e \<in> set (pt_entries trailer). entry_problems r key (map_of (rev expected)) known b e = []"
    and all: "\<forall>x \<in> fst ` set expected. x \<in> pe_id ` set (pt_entries trailer)"
    by (auto simp: pack_problems_def filter_empty_conv)
  from all assms(3) obtain e where e: "e \<in> set (pt_entries trailer)" "pe_id e = c" by force
  have "map_of (rev expected) c = Some loc"
    using assms(2,3) by (intro map_of_is_SomeI) (simp_all add: rev_map [symmetric])
  moreover from each e(1) have "entry_problems r key (map_of (rev expected)) known b e = []" ..
  ultimately have clean: "lo_offset loc = pe_offset e" "lo_length loc = pe_length e" "lo_raw_len loc = pe_raw_len e"
    "(case get_slice (pe_offset e) (sat_add64 (pe_offset e) (pe_length e)) b of None \<Rightarrow> False
      | Some sl \<Rightarrow> (case decode_chunk (rp_ext r) (rp_keys r) c sl (pe_raw_len e) (max_chunk r) of Inl err \<Rightarrow> False | Inr m \<Rightarrow> True))"
    using e(2) by (simp_all add: entry_problems_def split: if_splits option.splits sum.splits)
  then obtain sl m where sl: "get_slice (pe_offset e) (sat_add64 (pe_offset e) (pe_length e)) b = Some sl"
    and m: "decode_chunk (rp_ext r) (rp_keys r) c sl (pe_raw_len e) (max_chunk r) = Inr m"
    by (auto split: option.splits sum.splits)
  from sl assms(4) have end': "sat_add64 (pe_offset e) (pe_length e) = pe_offset e + pe_length e"
    by (auto simp: get_slice_def sat_add64_def addressable_def u64_max_def min_def split: if_splits)
  with sl m clean(1-3) show ?thesis by (auto simp: get_slice_def split: if_splits)
qed

lemma decode_chunk_names: "decode_chunk ext keys i data n mx = Inr m \<Longrightarrow> chunk_id_of ext keys m = i"
  by (auto simp: decode_chunk_def result_simps split: if_splits)

lemma check_read_clean:
  assumes "check_read r s = Some (Inr (x, rep))" "cr_errors rep = []"
  shows "load_index r s = Inr x \<and> index_wf x
    \<and> (\<exists>reach. walk_references r s (index_view x) = Some (Inr reach) \<and> re_errors reach = [])"
proof -
  have step: "cr_errors (check_tree_replica r s i rep0) = [] \<Longrightarrow> cr_errors rep0 = []" for i rep0
    by (cases "backend_exists (rp_ops r) (tree_replica_key (rp_ext r) (TreeId (object_bytes i))) s")
      (auto simp: check_tree_replica_def Let_def split: if_splits bool.splits)
  have fold: "cr_errors (fold (check_tree_replica r s) ts rep0) = [] \<Longrightarrow> cr_errors rep0 = []" for ts rep0
  proof (induction ts arbitrary: rep0)
    case (Cons i ts)
    from Cons.IH [of "check_tree_replica r s i rep0"] Cons.prems show ?case by (auto intro: step)
  qed simp
  have repl: "cr_errors (check_replicas r s trees live rep0) = [] \<Longrightarrow> cr_errors rep0 = []" for trees live rep0
    by (auto simp: check_replicas_def Let_def dest: fold split: if_splits)
  have packs: "cr_errors (check_packs r x listed rep0) = [] \<Longrightarrow> cr_errors rep0 = []" for x listed rep0
    by (auto simp: check_packs_def Let_def)
  obtain errors where l: "load_index_lenient r s = Inr (x, errors)"
  proof (cases "load_index_lenient r s")
    case (Inl e)
    with assms(1) show ?thesis by (simp add: check_read_def)
  next
    case (Inr p)
    with assms(1) that show ?thesis
      by (cases p) (auto simp: check_read_def Let_def result_simps split: sum.splits option.splits)
  qed
  let ?rep1 = "(push_errors (map (\<lambda>e. (''index'', IndexUnreadable e)) errors) report_default)\<lparr>cr_chunks := index_len x\<rparr>"
  obtain listed where b: "backend_list (rp_ops r) PACKS_PREFIX s = Inr listed"
    using assms(1) l by (cases "backend_list (rp_ops r) PACKS_PREFIX s") (auto simp: check_read_def Let_def)
  obtain reach where w: "walk_references r s (index_view x) = Some (Inr reach)"
    using assms(1) l b by (auto simp: check_read_def Let_def split: option.splits sum.splits)
  from assms(1) l b w obtain trees ks where rep: "rep = check_replicas r s trees (sorted_list_of_set (re_live_trees reach))
     ((push_errors (concat (map (file_problems x) (re_visits reach)))
        (push_errors (map (\<lambda>e. (walk_error_head e, WalkProblem e)) (re_errors reach))
          ((check_packs r x listed ?rep1)\<lparr>cr_snapshots := length (ks :: string list)\<rparr>)))\<lparr>cr_trees := card (re_live_trees reach)\<rparr>)"
    by (auto simp: check_read_def Let_def result_simps)
  from repl [OF assms(2) [unfolded rep]] have "re_errors reach = []" "cr_errors (check_packs r x listed ?rep1) = []"
    by simp_all
  moreover from packs [OF this(2)] have "errors = []" by simp
  moreover from this have "load_index r s = Inr x" using l by (simp add: load_index_def)
  ultimately show ?thesis using load_index_lenient_wf [OF l] w by blast
qed

text \<open>C35: a check with \<open>read_data\<close> that reports no error has told the truth: the index loads, every
  chunk it lists opens to the plaintext with that identifier out of a pack that hashes to its
  name, so reading the chunk returns this plaintext unless the store itself fails, and every
  snapshot and every tree reachable from it reads, with all chunks of its files in the index.\<close>

theorem check_clean_readable:
  assumes "store_ok (rp_ops r) objs" "\<forall>k b t. objs s k = Some (b, t) \<longrightarrow> addressable b"
    "check r rs codec \<lparr>co_read_data = True, co_repair = False\<rparr> s = Some (Inr rep, s')" "report_is_ok rep"
  shows "\<exists>x. load_index r s = Inr x
    \<and> (\<forall>c. index_get x c \<noteq> None \<longrightarrow> (\<exists>m. chunk_id_of (rp_ext r) (rp_keys r) m = c
         \<and> (\<forall>res. read_chunk r s (index_view x) c = res \<longrightarrow> res = Inr m \<or> (\<exists>e. res = Inl (BackendE e)))))
    \<and> (\<exists>snaps. list_snapshot_keys r s = Inr (map fst snaps)
         \<and> (\<forall>(k, snap) \<in> set snaps. read_snapshot r s k = Inr snap
              \<and> (\<forall>root t. root \<in> set (sn_roots snap) \<longrightarrow> (tree_edge r s)\<^sup>*\<^sup>* (rt_tree root) t \<longrightarrow>
                   (\<exists>tree. read_tree r s t = Inr tree \<and> (\<forall>e \<in> set (tr_entries tree). en_kind e = NT_FILE \<longrightarrow>
                      (\<exists>cs. file_chunks r s (index_view x) e cs \<and> (\<forall>c \<in> cs. index_get x c \<noteq> None)))))))"
proof -
  from assms(3) obtain x rep0 where cr: "check_read r s = Some (Inr (x, rep0))"
    and loop: "io_fold (check_pack_data r rs codec (index_chunks x) False) (ci_packs x) rep0 s = (Inr rep, s')"
    by (auto simp: check_def split: option.splits sum.splits)
  from check_loop_clean [OF loop] assms(4) have clean: "cr_errors rep0 = []"
    and packs: "\<And>pack. pack \<in> set (ci_packs x) \<Longrightarrow> \<exists>b. backend_get (rp_ops r) (pack_key (rp_ext r) (fst pack)) s = Inr b
      \<and> object_id_of (rp_ext r) b = fst pack
      \<and> pack_problems r (pack_key (rp_ext r) (fst pack)) (filter (\<lambda>(c, loc). lo_pack loc = fst pack) (index_chunks x))
          (\<lambda>c. c \<in> fst ` set (index_chunks x)) b = []"
    by (auto simp: report_is_ok_def)
  from check_read_clean [OF cr clean] obtain reach where x: "load_index r s = Inr x" "index_wf x"
    and w: "walk_references r s (index_view x) = Some (Inr reach)" "re_errors reach = []" by blast
  have base: "ci_base x = None" and d: "distinct (map fst (ci_overlay x))" using x(2) by (auto simp: index_wf_def)
  then have chunks: "index_chunks x = ci_overlay x" by (simp add: index_chunks_def)
  have read: "\<exists>m. chunk_id_of (rp_ext r) (rp_keys r) m = c
      \<and> (\<forall>res. read_chunk r s (index_view x) c = res \<longrightarrow> res = Inr m \<or> (\<exists>e. res = Inl (BackendE e)))"
    if got: "index_get x c \<noteq> None" for c
  proof -
    from got base obtain loc where loc: "index_get x c = Some loc" "(c, loc) \<in> set (ci_overlay x)"
      by (auto simp: index_get_no_base dest: map_of_SomeD)
    with x(2) obtain pack where "pack \<in> set (ci_packs x)" and pk: "fst pack = lo_pack loc"
      by (fastforce simp: index_wf_def)
    then obtain b where g: "backend_get (rp_ops r) (pack_key (rp_ext r) (lo_pack loc)) s = Inr b"
      and pp: "pack_problems r (pack_key (rp_ext r) (lo_pack loc)) (filter (\<lambda>(c, l). lo_pack l = lo_pack loc) (ci_overlay x))
          (\<lambda>c. c \<in> fst ` set (ci_overlay x)) b = []" using packs unfolding chunks pk [symmetric] by blast
    obtain t where b: "objs s (pack_key (rp_ext r) (lo_pack loc)) = Some (b, t)" using backend_get_objs(1) [OF assms(1) g] by blast
    have "distinct (map fst (filter (\<lambda>(c, l). lo_pack l = lo_pack loc) (ci_overlay x)))"
      using d by (rule distinct_map_filter)
    from pack_problems_clean [OF pp this, of c loc] loc(2) b assms(2)
    obtain m where bound: "lo_offset loc + lo_length loc \<le> length b"
      and m: "decode_chunk (rp_ext r) (rp_keys r) c (slice (lo_offset loc) (lo_offset loc + lo_length loc) b)
        (lo_raw_len loc) (max_chunk r) = Inr m" by auto
    have "addressable b" using assms(2) b by blast
    with bound have "lo_offset loc + lo_length loc \<le> u64_max" by (simp add: addressable_def u64_max_def)
    moreover have "bs = slice (lo_offset loc) (lo_offset loc + lo_length loc) b"
      if "backend_get_range (rp_ops r) (pack_key (rp_ext r) (lo_pack loc)) (lo_offset loc) (lo_offset loc + lo_length loc) s = Inr bs" for bs
      using backend_get_range_objs [OF assms(1) that] b by auto
    ultimately have "read_chunk r s (index_view x) c = Inr m \<or> (\<exists>e. read_chunk r s (index_view x) c = Inl (BackendE e))"
      using m loc(1)
      by (cases "backend_get_range (rp_ops r) (pack_key (rp_ext r) (lo_pack loc)) (lo_offset loc) (lo_offset loc + lo_length loc) s")
        (auto simp: read_chunk_def index_view_def Let_def)
    with decode_chunk_names [OF m] show ?thesis by blast
  qed
  have contains: "lc_contains (index_view x) c \<longleftrightarrow> index_get x c \<noteq> None" for c
    using index_view_ok [of x] by (simp add: locator_ok_def index_view_def)
  have "list_snapshot_keys r s = Inr (map fst (re_snapshots reach))
         \<and> (\<forall>(k, snap) \<in> set (re_snapshots reach). read_snapshot r s k = Inr snap
              \<and> (\<forall>root t. root \<in> set (sn_roots snap) \<longrightarrow> (tree_edge r s)\<^sup>*\<^sup>* (rt_tree root) t \<longrightarrow>
                   (\<exists>tree. read_tree r s t = Inr tree \<and> (\<forall>e \<in> set (tr_entries tree). en_kind e = NT_FILE \<longrightarrow>
                      (\<exists>cs. file_chunks r s (index_view x) e cs \<and> (\<forall>c \<in> cs. index_get x c \<noteq> None))))))"
    using walk_references_found [OF w] unfolding contains split_beta by meson
  with x(1) read show ?thesis by blast
qed

lemma demo_check:
  "check demo_index_repo xor_coder (demo_codec []) \<lparr>co_read_data = True, co_repair = repair\<rparr> demo_index_state
     = Some (Inr report_default, demo_index_state)"
proof -
  have none: "backend_list map_store p demo_index_state = Inr []" if "p \<in> {PACKS_PREFIX, SNAPSHOTS_PREFIX, TREES_PREFIX}" for p
    using that by (auto simp: backend_list_def backend_path_def map_store_def demo_index_state_def under_prefix_def
        starts_with_def key_defs prefix_defs)
  have "load_index_lenient demo_index_repo demo_index_state = Inr (new_index, [])"
  proof -
    from demo_load_index obtain x errors where "load_index_lenient demo_index_repo demo_index_state = Inr (x, errors)"
      "(case errors of [] \<Rightarrow> Inr x | e # es \<Rightarrow> Inl (index_load_error e)) = Inr new_index"
      by (auto simp: load_index_def result_simps)
    then show ?thesis by (cases errors) auto
  qed
  moreover have "list_snapshot_keys demo_index_repo demo_index_state = Inr []"
    using none by (simp add: list_snapshot_keys_def demo_index_repo_def)
  ultimately have "check_read demo_index_repo demo_index_state = Some (Inr (new_index, report_default))"
    using none
    by (simp add: check_read_def walk_references_def check_packs_def pack_size_problems_def check_replicas_def
        new_index_def index_len_def report_default_def push_errors_def push_warnings_def reach_default_def
        demo_index_repo_def Let_def)
  then show ?thesis by (simp add: check_def new_index_def io_lift_def)
qed

theorem check_only_repairs_witness:
  "\<exists>s'. check demo_index_repo xor_coder (demo_codec []) \<lparr>co_read_data = True, co_repair = True\<rparr> demo_index_state
       = Some (Inr report_default, s')
     \<and> (\<forall>i. (map_objs s' (index_key demo_ext i)) = map_objs demo_index_state (index_key demo_ext i))"
proof -
  have "store_ok (rp_ops demo_index_repo) map_objs" "hex_ok (rp_ext demo_index_repo)"
    by (simp_all add: demo_index_repo_def map_store_ok demo_hex_ok)
  from check_only_repairs [OF this demo_check [of True]] demo_check [of True] show ?thesis
    by (metis demo_index_repo_def demo_repo_simps(1) key_classes_differ(7))
qed

theorem check_clean_readable_witness:
  "\<exists>x. load_index demo_index_repo demo_index_state = Inr x"
proof -
  have "\<forall>k b t. map_objs demo_index_state k = Some (b, t) \<longrightarrow> addressable b"
    by (simp add: map_objs_def demo_index_state_def addressable_def demo_index_bytes_def)
  from check_clean_readable [where objs = map_objs, OF _ this demo_check [of False]] show ?thesis
    by (auto simp: demo_index_repo_def map_store_ok report_is_ok_def report_default_def)
qed

end
