(* ===== verification/Path_Filter.thy ===== *)
theory Path_Filter
  imports Prelude
begin

text \<open>
  \<open>crates/kist-core/src/filter.rs\<close>: path patterns. A Rust \<open>char\<close> is its code point; the UTF-8
  coding of the standard library is written out, its Unicode case tables are a parameter
  (\<open>casing\<close>). A state holds, per pattern, the positions of an automaton; the reference is the
  direct meaning of a pattern as a relation between its segments and the components of a path.
\<close>

type_synonym uchar = nat

abbreviation (input) uc :: "char \<Rightarrow> uchar" where "uc c \<equiv> of_char c"

record casing =
  ca_lower :: "uchar \<Rightarrow> uchar list"
  ca_upper :: "uchar \<Rightarrow> uchar list"

datatype unit_char = UChar uchar | UByte u8

datatype token =
    TChar uchar
  | TAnyChar
  | TStar
  | TClass bool "(uchar \<times> uchar) list"

datatype pat_comp = AnyDepth | Literal bytes | Glob "token list"

record pattern =
  pa_text :: "uchar list"
  pa_comps :: "pat_comp list"
  pa_negated :: bool
  pa_fold :: bool

type_synonym path_filter = "pattern list"

record filter_state =
  fs_active :: "(nat \<times> nat) list"
  fs_matched :: "nat list"
  fs_decision :: "bool option"
  fs_positive :: bool

definition state_default :: filter_state where
  "state_default = \<lparr>fs_active = [], fs_matched = [], fs_decision = None, fs_positive = False\<rparr>"

record pattern_error =
  pr_pattern :: "uchar list"
  pr_reason :: string

section \<open>UTF-8\<close>

definition cont_byte :: "nat \<Rightarrow> bool" where "cont_byte b \<longleftrightarrow> 0x80 \<le> b \<and> b \<le> 0xBF"

definition utf8_encode :: "uchar \<Rightarrow> bytes" where
  "utf8_encode c = map of_nat
     (if c < 0x80 then [c]
      else if c < 0x800 then [0xC0 + c div 64, 0x80 + c mod 64]
      else if c < 0x10000 then [0xE0 + c div 4096, 0x80 + c div 64 mod 64, 0x80 + c mod 64]
      else [0xF0 + c div 262144, 0x80 + c div 4096 mod 64, 0x80 + c div 64 mod 64, 0x80 + c mod 64])"

fun utf8_char :: "nat list \<Rightarrow> uchar option" where
  \<comment> \<open>\<open>from_utf8\<close> of exactly one multi-byte sequence: no overlong form, no surrogate, at most U+10FFFF\<close>
  "utf8_char [a, b] = (if 0xC2 \<le> a \<and> a \<le> 0xDF \<and> cont_byte b then Some ((a - 0xC0) * 64 + (b - 0x80)) else None)"
| "utf8_char [a, b, c] =
     (if 0xE0 \<le> a \<and> a \<le> 0xEF \<and> cont_byte b \<and> cont_byte c \<and> (a = 0xE0 \<longrightarrow> 0xA0 \<le> b) \<and> (a = 0xED \<longrightarrow> b \<le> 0x9F)
      then Some ((a - 0xE0) * 4096 + (b - 0x80) * 64 + (c - 0x80)) else None)"
| "utf8_char [a, b, c, d] =
     (if 0xF0 \<le> a \<and> a \<le> 0xF4 \<and> cont_byte b \<and> cont_byte c \<and> cont_byte d \<and> (a = 0xF0 \<longrightarrow> 0x90 \<le> b) \<and> (a = 0xF4 \<longrightarrow> b \<le> 0x8F)
      then Some ((a - 0xF0) * 262144 + (b - 0x80) * 4096 + (c - 0x80) * 64 + (d - 0x80)) else None)"
| "utf8_char _ = None"

definition unit_at :: "bytes \<Rightarrow> nat \<Rightarrow> unit_char \<times> nat" where
  "unit_at name at =
     (let lead = unat (name ! at);
          multi = (\<lambda>len. case get_slice at (at + len) name of
            None \<Rightarrow> (UByte (name ! at), 1)
          | Some bs \<Rightarrow> (case utf8_char (map unat bs) of Some c \<Rightarrow> (UChar c, len) | None \<Rightarrow> (UByte (name ! at), 1)))
      in if lead \<le> 0x7F then (UChar lead, 1)
         else if 0xC2 \<le> lead \<and> lead \<le> 0xDF then multi 2
         else if 0xE0 \<le> lead \<and> lead \<le> 0xEF then multi 3
         else if 0xF0 \<le> lead \<and> lead \<le> 0xF4 then multi 4
         else (UByte (name ! at), 1))"

section \<open>Matching one component\<close>

fun token_matches :: "casing \<Rightarrow> bool \<Rightarrow> token \<Rightarrow> unit_char \<Rightarrow> bool" where
  "token_matches ca fd TAnyChar u = True"
| "token_matches ca fd (TChar c) (UChar u) = (c = u \<or> fd \<and> ca_lower ca c = ca_lower ca u)"
| "token_matches ca fd (TClass negated ranges) (UChar u) =
     (let hit = (\<lambda>c. \<exists>(lo, hi) \<in> set ranges. lo \<le> c \<and> c \<le> hi);
          found = hit u \<or> fd \<and> ((\<exists>c \<in> set (ca_lower ca u). hit c) \<or> (\<exists>c \<in> set (ca_upper ca u). hit c))
      in found \<noteq> negated)"
| "token_matches ca fd (TClass negated ranges) (UByte b) = negated"
| "token_matches ca fd (TChar c) (UByte b) = False"
| "token_matches ca fd TStar u = False"

partial_function (option) glob_loop ::
  "casing \<Rightarrow> bool \<Rightarrow> token list \<Rightarrow> bytes \<Rightarrow> nat \<Rightarrow> nat \<Rightarrow> (nat \<times> nat) option \<Rightarrow> bool option" where
  "glob_loop ca fd ts name t at star =
     (if \<not> at < length name then Some (\<forall>k \<in> set (drop t ts). k = TStar)
      else if t < length ts \<and> ts ! t = TStar then glob_loop ca fd ts name (t + 1) at (Some (t + 1, at))
      else if t < length ts \<and> token_matches ca fd (ts ! t) (fst (unit_at name at))
      then glob_loop ca fd ts name (t + 1) (at + snd (unit_at name at)) star
      else (case star of
              None \<Rightarrow> Some False
            | Some (after, star_at) \<Rightarrow>
                glob_loop ca fd ts name after (star_at + snd (unit_at name star_at))
                  (Some (after, star_at + snd (unit_at name star_at)))))"

declare glob_loop.simps [code]

definition glob_match :: "casing \<Rightarrow> token list \<Rightarrow> bytes \<Rightarrow> bool \<Rightarrow> bool" where
  "glob_match ca ts name fd = (glob_loop ca fd ts name 0 0 None = Some True)"

section \<open>Parsing patterns\<close>

definition class_char :: "uchar list \<Rightarrow> (uchar \<times> uchar list) option" where
  \<comment> \<open>the next character, or the one after a backslash\<close>
  "class_char cs = (case cs of
       [] \<Rightarrow> None
     | c # rest \<Rightarrow>
         if c = uc (CHR 0x5C) then (case rest of [] \<Rightarrow> None | d # ds \<Rightarrow> Some (d, ds)) else Some (c, rest))"

lemma class_char_shorter: "class_char cs = Some (c, rest) \<Longrightarrow> length rest < length cs"
  by (auto simp: class_char_def split: list.splits if_splits)

definition class_is_range :: "uchar list \<Rightarrow> bool" where
  "class_is_range cs = (case cs of d # e # rest \<Rightarrow> d = uc (CHR ''-'') \<and> e \<noteq> uc (CHR '']'') | _ \<Rightarrow> False)"

function parse_ranges :: "bool \<Rightarrow> (uchar \<times> uchar) list \<Rightarrow> uchar list \<Rightarrow> string + (uchar \<times> uchar) list \<times> uchar list" where
  "parse_ranges first acc cs =
     (if cs \<noteq> [] \<and> hd cs = uc (CHR '']'') \<and> \<not> first then Inr (acc, tl cs)
      else case class_char cs of
        None \<Rightarrow> Inl ''unclosed `[`: a character class needs a closing `]`''
      | Some (lo, cs1) \<Rightarrow>
          (case if class_is_range cs1 then class_char (tl cs1) else Some (lo, cs1) of
             None \<Rightarrow> Inl ''unclosed `[`: a character class needs a closing `]`''
           | Some (hi, cs2) \<Rightarrow>
               if hi < lo then Inl ''invalid range in a character class'' else parse_ranges False (acc @ [(lo, hi)]) cs2))"
  by pat_completeness auto
termination
  by (relation "measure (\<lambda>(first, acc, cs). length cs)")
    (auto simp: class_is_range_def dest!: class_char_shorter split: if_splits list.splits)

declare parse_ranges.simps [simp del]

definition parse_class :: "uchar list \<Rightarrow> string + token \<times> uchar list" where
  "parse_class cs =
     (let negated = (cs \<noteq> [] \<and> hd cs \<in> {uc (CHR ''!''), uc (CHR ''^'')})
      in and_then (parse_ranges True [] (if negated then tl cs else cs)) (\<lambda>(ranges, rest).
           Inr (TClass negated ranges, rest)))"

lemma parse_ranges_shorter: "parse_ranges first acc cs = Inr (rs, rest) \<Longrightarrow> length rest < length cs"
proof (induction first acc cs rule: parse_ranges.induct)
  case (1 first acc cs)
  show ?case
  proof (cases "cs \<noteq> [] \<and> hd cs = uc (CHR '']'') \<and> \<not> first")
    case True
    with "1.prems" show ?thesis by (auto simp: parse_ranges.simps [of False acc cs])
  next
    case False
    then obtain lo cs1 where c1: "class_char cs = Some (lo, cs1)"
      using "1.prems" [unfolded parse_ranges.simps [of first acc cs]] by (auto split: option.splits)
    with False obtain hi cs2 where c2: "(if class_is_range cs1 then class_char (tl cs1) else Some (lo, cs1)) = Some (hi, cs2)"
      and lh: "\<not> hi < lo" and p: "parse_ranges False (acc @ [(lo, hi)]) cs2 = Inr (rs, rest)"
      using "1.prems" [unfolded parse_ranges.simps [of first acc cs]] by (auto split: option.splits if_splits)
    from "1.IH" [OF False c1 refl c2 refl lh p] have "length rest < length cs2" .
    moreover have "length cs2 \<le> length cs1"
      using c2 by (auto simp: class_is_range_def split: if_splits list.splits dest!: class_char_shorter)
    ultimately show ?thesis using class_char_shorter [OF c1] by simp
  qed
qed

lemma parse_class_shorter: "parse_class cs = Inr (tok, rest) \<Longrightarrow> length rest < length cs"
  by (auto simp: parse_class_def Let_def result_simps dest!: parse_ranges_shorter split: if_splits)

function parse_tokens :: "token list \<Rightarrow> uchar list \<Rightarrow> string + token list" where
  "parse_tokens acc [] = Inr acc"
| "parse_tokens acc (c # cs) =
     (if c = uc (CHR 0x5C) then
        (case cs of [] \<Rightarrow> Inl (''a trailing `'' @ [CHR 0x5C] @ ''` escapes nothing'') | d # ds \<Rightarrow> parse_tokens (acc @ [TChar d]) ds)
      else if c = uc (CHR ''*'') then
        (if acc \<noteq> [] \<and> last acc = TStar then Inl ''`**` must be a whole path component, as in `a/**/b`''
         else parse_tokens (acc @ [TStar]) cs)
      else if c = uc (CHR ''?'') then parse_tokens (acc @ [TAnyChar]) cs
      else if c = uc (CHR ''['') then
        (case parse_class cs of Inl e \<Rightarrow> Inl e | Inr (tok, rest) \<Rightarrow> parse_tokens (acc @ [tok]) rest)
      else parse_tokens (acc @ [TChar c]) cs)"
  by pat_completeness auto
termination
  by (relation "measure (\<lambda>(acc, cs). length cs)") (auto dest: parse_class_shorter)

fun literal_of :: "token list \<Rightarrow> uchar list option" where
  \<comment> \<open>\<open>collect\<close> into \<open>Option<String>\<close>\<close>
  "literal_of [] = Some []"
| "literal_of (TChar c # ts) = map_option ((#) c) (literal_of ts)"
| "literal_of (k # ts) = None"

definition utf8_string :: "uchar list \<Rightarrow> bytes" where
  "utf8_string cs = concat (map utf8_encode cs)"

definition text_of :: "string \<Rightarrow> uchar list" where "text_of = map uc"

definition parse_segment :: "uchar list \<Rightarrow> bool \<Rightarrow> string + pat_comp" where
  "parse_segment segment fd =
     (if segment = [] then Inl ''empty path component (`//`)''
      else if segment = text_of ''.'' \<or> segment = text_of ''..'' then Inl (''`'' @ (if segment = text_of ''.'' then ''.'' else ''..'') @ ''` never matches: paths in a snapshot have no `.` or `..` components'')
      else if segment = text_of ''**'' then Inr AnyDepth
      else and_then (parse_tokens [] segment) (\<lambda>tokens.
        case literal_of tokens of
          Some s \<Rightarrow> if \<not> fd then Inr (Literal (utf8_string s)) else Inr (Glob tokens)
        | None \<Rightarrow> Inr (Glob tokens)))"

fun split_on :: "'a \<Rightarrow> 'a list \<Rightarrow> 'a list list" where
  \<comment> \<open>\<open>str::split\<close>: one piece more than there are separators\<close>
  "split_on x [] = [[]]"
| "split_on x (c # cs) = (if c = x then [] # split_on x cs
     else (case split_on x cs of [] \<Rightarrow> [[c]] | p # ps \<Rightarrow> (c # p) # ps))"

fun parse_segments :: "uchar list list \<Rightarrow> bool \<Rightarrow> string + pat_comp list" where
  "parse_segments [] fd = Inr []"
| "parse_segments (g # gs) fd = and_then (parse_segment g fd) (\<lambda>c. and_then (parse_segments gs fd) (\<lambda>cs. Inr (c # cs)))"

definition pattern_parse :: "uchar list \<Rightarrow> bool \<Rightarrow> pattern_error + pattern" where
  "pattern_parse txt fd =
     map_err (\<lambda>reason. \<lparr>pr_pattern = txt, pr_reason = reason\<rparr>)
       (if txt = [] then Inl ''empty pattern''
        else if txt = text_of ''!'' then Inl (''a negated pattern needs a pattern after `!` (write `'' @ [CHR 0x5C] @ ''!` for a literal `!`)'')
        else let (negated, body) = (case strip_prefix (text_of ''!'') txt of Some b \<Rightarrow> (True, b) | None \<Rightarrow> (False, txt));
                 (anchored, rest0) = (case strip_prefix (text_of ''/'') body of Some b \<Rightarrow> (True, b) | None \<Rightarrow> (False, body));
                 rest = (case strip_suffix (text_of ''/'') rest0 of Some b \<Rightarrow> b | None \<Rightarrow> rest0)
          in if rest = [] then Inl ''the pattern names no path component''
             else and_then (parse_segments (split_on (uc (CHR ''/'')) rest) fd) (\<lambda>comps.
               Inr \<lparr>pa_text = txt, pa_comps = (if anchored then [] else [AnyDepth]) @ comps,
                    pa_negated = negated, pa_fold = fd\<rparr>))"

fun filter_extend :: "path_filter \<Rightarrow> uchar list list \<Rightarrow> bool \<Rightarrow> pattern_error + path_filter" where
  "filter_extend f [] fd = Inr f"
| "filter_extend f (p # ps) fd = and_then (pattern_parse p fd) (\<lambda>q. filter_extend (f @ [q]) ps fd)"

definition filter_new :: "uchar list list \<Rightarrow> pattern_error + path_filter" where
  "filter_new ps = filter_extend [] ps False"

section \<open>Walking down a path\<close>

fun add_from :: "nat \<Rightarrow> nat \<Rightarrow> pat_comp list \<Rightarrow> bool \<Rightarrow> filter_state \<Rightarrow> filter_state" where
  \<comment> \<open>the loop of \<open>add\<close> over the segments from \<open>i\<close> on\<close>
  "add_from p i [] negated st =
     (if fs_matched st \<noteq> [] \<and> last (fs_matched st) = p then st else st\<lparr>fs_matched := fs_matched st @ [p]\<rparr>)"
| "add_from p i (c # cs) negated st =
     (let seen = (\<exists>(q, j) \<in> set (takeWhile (\<lambda>(q, j). q = p) (rev (fs_active st))). j = i);
          st1 = (if seen then st
                 else st\<lparr>fs_active := fs_active st @ [(p, i)], fs_positive := fs_positive st \<or> \<not> negated\<rparr>)
      in if c \<noteq> AnyDepth then st1 else add_from p (i + 1) cs negated st1)"

definition filter_add :: "nat \<Rightarrow> nat \<Rightarrow> pattern \<Rightarrow> filter_state \<Rightarrow> filter_state" where
  "filter_add p i pat st = add_from p i (drop i (pa_comps pat)) (pa_negated pat) st"

definition filter_start :: "path_filter \<Rightarrow> filter_state" where
  "filter_start f = fold (\<lambda>(p, pat). filter_add p 0 pat) (enumerate 0 f) state_default"

definition comp_matches :: "casing \<Rightarrow> bool \<Rightarrow> pat_comp \<Rightarrow> bytes \<Rightarrow> bool" where
  "comp_matches ca fd c name = (case c of AnyDepth \<Rightarrow> False | Literal l \<Rightarrow> l = name | Glob ts \<Rightarrow> glob_match ca ts name fd)"

definition descend_one :: "casing \<Rightarrow> path_filter \<Rightarrow> bytes \<Rightarrow> nat \<times> nat \<Rightarrow> filter_state \<Rightarrow> filter_state" where
  "descend_one ca f name = (\<lambda>(p, i) next.
     (let pat = f ! p; c = pa_comps pat ! i
      in if c = AnyDepth then filter_add p i pat next
         else if comp_matches ca (pa_fold pat) c name then filter_add p (i + 1) pat next else next))"

definition filter_descend :: "casing \<Rightarrow> path_filter \<Rightarrow> filter_state \<Rightarrow> bytes \<Rightarrow> filter_state" where
  "filter_descend ca f st name =
     (let next = fold (descend_one ca f name) (fs_active st) state_default
      in next\<lparr>fs_decision := (if fs_matched next = [] then None
                else Some (\<not> pa_negated (f ! Max (set (fs_matched next)))))\<rparr>)"

definition state_is_match :: "filter_state \<Rightarrow> bool" where "state_is_match st \<longleftrightarrow> fs_decision st = Some True"

definition may_match_below :: "filter_state \<Rightarrow> bool" where "may_match_below st = fs_positive st"

section \<open>The meaning of one component\<close>

function units :: "bytes \<Rightarrow> unit_char list" where
  "units bs = (if bs = [] then [] else fst (unit_at bs 0) # units (drop (max 1 (snd (unit_at bs 0))) bs))"
  by pat_completeness auto
termination by (relation "measure length") auto

declare units.simps [simp del]

fun glob_spec :: "casing \<Rightarrow> bool \<Rightarrow> token list \<Rightarrow> unit_char list \<Rightarrow> bool" where
  "glob_spec ca fd [] us = (us = [])"
| "glob_spec ca fd (k # ks) us =
     (if k = TStar then glob_spec ca fd ks us \<or> (case us of [] \<Rightarrow> False | u # us' \<Rightarrow> glob_spec ca fd (k # ks) us')
      else (case us of [] \<Rightarrow> False | u # us' \<Rightarrow> token_matches ca fd k u \<and> glob_spec ca fd ks us'))"

lemma unit_at_drop: "at < length name \<Longrightarrow> unit_at (drop at name) 0 = unit_at name at"
proof -
  assume a: "at < length name"
  then have g: "get_slice 0 (0 + n) (drop at name) = get_slice at (at + n) name" for n
    by (auto simp: get_slice_def slice_def)
  from a have n: "drop at name ! 0 = name ! at" by simp
  show ?thesis unfolding unit_at_def g n ..
qed

lemma unit_at_length: "at < length name \<Longrightarrow> 1 \<le> snd (unit_at name at) \<and> at + snd (unit_at name at) \<le> length name"
  by (simp add: unit_at_def Let_def get_slice_def split: option.splits)

lemma units_at:
  assumes "at < length name"
  shows "units (drop at name) = fst (unit_at name at) # units (drop (at + snd (unit_at name at)) name)"
  using assms unit_at_length [OF assms]
  by (subst units.simps) (simp add: unit_at_drop max_absorb2 add.commute)

lemma units_Nil [simp]: "units bs = [] \<longleftrightarrow> bs = []"
  by (subst units.simps) simp

lemma units_empty [simp]: "units [] = []" by (simp only: units_Nil)

lemma glob_spec_star: "glob_spec ca fd (TStar # ks) us \<longleftrightarrow> (\<exists>j \<le> length us. glob_spec ca fd ks (drop j us))"
proof (induction us)
  case (Cons u us)
  have "(\<exists>j \<le> length (u # us). glob_spec ca fd ks (drop j (u # us))) \<longleftrightarrow>
      glob_spec ca fd ks (u # us) \<or> (\<exists>j \<le> length us. glob_spec ca fd ks (drop j us))" (is "?l \<longleftrightarrow> ?r")
  proof
    assume ?l
    then obtain j where "j \<le> length (u # us)" "glob_spec ca fd ks (drop j (u # us))" by blast
    then show ?r by (cases j) auto
  next
    assume ?r
    then show ?l
    proof
      assume "\<exists>j \<le> length us. glob_spec ca fd ks (drop j us)"
      then obtain j where "j \<le> length us" "glob_spec ca fd ks (drop j us)" by blast
      then show ?l by (intro exI [of _ "Suc j"]) simp
    qed (auto intro: exI [of _ 0])
  qed
  with Cons show ?case by simp
qed simp

lemma glob_spec_no_star:
  "TStar \<notin> set as \<Longrightarrow> glob_spec ca fd (as @ ks) us \<Longrightarrow> length as \<le> length us \<and> glob_spec ca fd ks (drop (length as) us)"
  by (induction as arbitrary: us) (auto split: list.splits)

lemma glob_spec_all_star: "glob_spec ca fd ks [] \<longleftrightarrow> (\<forall>k \<in> set ks. k = TStar)"
  by (induction ks) auto

text \<open>What the loop still has to decide: the rest of the tokens on the rest of the name, or, when a
  star came before, the tokens after it further on.\<close>

definition star_pending :: "casing \<Rightarrow> bool \<Rightarrow> token list \<Rightarrow> bytes \<Rightarrow> (nat \<times> nat) option \<Rightarrow> bool" where
  "star_pending ca fd ts name star = (case star of None \<Rightarrow> False
     | Some (after, sa) \<Rightarrow> (\<exists>j. 1 \<le> j \<and> j \<le> length (units (drop sa name))
          \<and> glob_spec ca fd (drop after ts) (drop j (units (drop sa name)))))"

definition star_ok :: "token list \<Rightarrow> bytes \<Rightarrow> nat \<Rightarrow> nat \<Rightarrow> (nat \<times> nat) option \<Rightarrow> bool" where
  "star_ok ts name t at star = (case star of None \<Rightarrow> True
     | Some (after, sa) \<Rightarrow> after \<le> t \<and> sa \<le> at \<and> TStar \<notin> set (take (t - after) (drop after ts))
          \<and> units (drop at name) = drop (t - after) (units (drop sa name))
          \<and> t - after \<le> length (units (drop sa name)))"

lemma star_pending_skip:
  assumes "star_ok ts name t at star" "star_pending ca fd ts name star" "t \<le> length ts"
  shows "\<exists>j. 1 \<le> j \<and> j \<le> length (units (drop at name)) \<and> glob_spec ca fd (drop t ts) (drop j (units (drop at name)))"
proof -
  from assms(2) obtain after sa where star: "star = Some (after, sa)" by (auto simp: star_pending_def split: option.splits)
  let ?m = "t - after" and ?u = "units (drop sa name)"
  from assms(1) have ok: "after \<le> t" "TStar \<notin> set (take ?m (drop after ts))" "units (drop at name) = drop ?m ?u"
    by (auto simp: star_ok_def star)
  from assms(2) obtain j where j: "1 \<le> j" "j \<le> length ?u" "glob_spec ca fd (drop after ts) (drop j ?u)"
    by (auto simp: star_pending_def star)
  have split: "drop after ts = take ?m (drop after ts) @ drop t ts"
    using ok(1) by (metis append_take_drop_id drop_drop le_add_diff_inverse2)
  have len: "length (take ?m (drop after ts)) = ?m" using assms(3) ok(1) by simp
  from j(3) have "?m \<le> length (drop j ?u) \<and> glob_spec ca fd (drop t ts) (drop ?m (drop j ?u))"
    by (subst (asm) split) (drule glob_spec_no_star [OF ok(2)], simp only: len)
  then show ?thesis using j(1,2) by (intro exI [of _ j]) (auto simp: ok(3) add.commute)
qed

lemma glob_step_star:
  assumes "t < length ts" "ts ! t = TStar" "star_ok ts name t at star"
  shows "glob_spec ca fd (drop (t + 1) ts) (units (drop at name)) \<or> star_pending ca fd ts name (Some (t + 1, at))
    \<longleftrightarrow> glob_spec ca fd (drop t ts) (units (drop at name)) \<or> star_pending ca fd ts name star"
proof -
  let ?U = "units (drop at name)"
  have ts: "drop t ts = TStar # drop (t + 1) ts" using assms(1,2) by (simp add: Cons_nth_drop_Suc [symmetric])
  have "glob_spec ca fd (drop (t + 1) ts) ?U \<or> star_pending ca fd ts name (Some (t + 1, at))
      \<longleftrightarrow> (\<exists>j \<le> length ?U. glob_spec ca fd (drop (t + 1) ts) (drop j ?U))"
    unfolding star_pending_def option.case prod.case by (metis One_nat_def Suc_leI drop0 le0 not_gr0)
  also have "\<dots> \<longleftrightarrow> glob_spec ca fd (drop t ts) ?U" by (simp only: ts glob_spec_star)
  also have "\<dots> \<longleftrightarrow> glob_spec ca fd (drop t ts) ?U \<or> star_pending ca fd ts name star"
  proof -
    have "glob_spec ca fd (drop t ts) ?U" if "star_pending ca fd ts name star"
    proof -
      from star_pending_skip [OF assms(3) that] assms(1) obtain j where j: "j \<le> length ?U" "glob_spec ca fd (drop t ts) (drop j ?U)"
        by auto
      then obtain i where "i \<le> length (drop j ?U)" "glob_spec ca fd (drop (t + 1) ts) (drop i (drop j ?U))"
        unfolding ts glob_spec_star by blast
      then show ?thesis unfolding ts glob_spec_star using j(1) by (intro exI [of _ "i + j"]) auto
    qed
    then show ?thesis by blast
  qed
  finally show ?thesis .
qed

lemma star_ok_step:
  assumes "t < length ts" "ts ! t \<noteq> TStar" "star_ok ts name t at star" "at < length name"
  shows "star_ok ts name (t + 1) (at + snd (unit_at name at)) star"
proof (cases star)
  case (Some p)
  obtain after sa where p: "p = (after, sa)" by force
  let ?m = "t - after"
  from assms(3) have ok: "after \<le> t" "sa \<le> at" "TStar \<notin> set (take ?m (drop after ts))"
    "units (drop at name) = drop ?m (units (drop sa name))" "?m \<le> length (units (drop sa name))"
    by (auto simp: star_ok_def Some p)
  have "take (Suc ?m) (drop after ts) = take ?m (drop after ts) @ [ts ! t]"
    using assms(1) ok(1) by (simp add: take_Suc_conv_app_nth)
  moreover have "units (drop (at + snd (unit_at name at)) name) = drop (Suc ?m) (units (drop sa name))"
    using units_at [OF assms(4)] ok(4) by (metis drop_Suc list.sel(3) tl_drop)
  moreover have "Suc ?m \<le> length (units (drop sa name))"
    using units_at [OF assms(4)] ok(4) by (metis length_Cons length_drop not_less_eq_eq diff_is_0_eq' nat.distinct(1))
  ultimately show ?thesis using ok(1-3) assms(2) by (simp add: star_ok_def Some p Suc_diff_le)
qed (simp add: star_ok_def)

lemma star_pending_next:
  assumes "sa < length name"
  shows "glob_spec ca fd (drop after ts) (units (drop (sa + snd (unit_at name sa)) name))
      \<or> star_pending ca fd ts name (Some (after, sa + snd (unit_at name sa)))
    \<longleftrightarrow> star_pending ca fd ts name (Some (after, sa))"
proof -
  let ?P = "glob_spec ca fd (drop after ts)" and ?W = "units (drop (sa + snd (unit_at name sa)) name)"
  obtain v where v: "units (drop sa name) = v # ?W" using units_at [OF assms] by blast
  have "(\<exists>j. 1 \<le> j \<and> j \<le> length (v # ?W) \<and> ?P (drop j (v # ?W))) \<longleftrightarrow> (\<exists>i \<le> length ?W. ?P (drop i ?W))"
  proof
    assume "\<exists>j. 1 \<le> j \<and> j \<le> length (v # ?W) \<and> ?P (drop j (v # ?W))"
    then obtain j where "1 \<le> j" "j \<le> length (v # ?W)" "?P (drop j (v # ?W))" by blast
    then show "\<exists>i \<le> length ?W. ?P (drop i ?W)" by (cases j) auto
  next
    assume "\<exists>i \<le> length ?W. ?P (drop i ?W)"
    then obtain i where "i \<le> length ?W" "?P (drop i ?W)" by blast
    then show "\<exists>j. 1 \<le> j \<and> j \<le> length (v # ?W) \<and> ?P (drop j (v # ?W))" by (intro exI [of _ "Suc i"]) simp
  qed
  moreover have "(\<exists>i \<le> length ?W. ?P (drop i ?W)) \<longleftrightarrow> ?P ?W \<or> (\<exists>j. 1 \<le> j \<and> j \<le> length ?W \<and> ?P (drop j ?W))"
    by (metis One_nat_def Suc_leI drop0 le0 not_gr0)
  ultimately show ?thesis by (simp only: star_pending_def option.case prod.case v)
qed

lemma glob_loop_spec:
  assumes "t \<le> length ts" "star_ok ts name t at star" "at \<le> length name"
  shows "glob_loop ca fd ts name t at star =
    Some (glob_spec ca fd (drop t ts) (units (drop at name)) \<or> star_pending ca fd ts name star)"
  using assms
proof (induction "(case star of None \<Rightarrow> length name + 1 | Some (after, sa) \<Rightarrow> length name - sa) * (length ts + 1)
    + (length ts - t)" arbitrary: t at star rule: less_induct)
  case less
  let ?x = "\<lambda>star. (case star of None \<Rightarrow> length name + 1 | Some (after, sa) \<Rightarrow> length name - sa) :: nat"
  have smaller: "?x star' * (length ts + 1) + (length ts - t') < ?x star * (length ts + 1) + (length ts - t)"
    if "?x star' < ?x star \<or> ?x star' \<le> ?x star \<and> t < t'" "t' \<le> length ts" for star' t'
  proof (cases "?x star' < ?x star")
    case True
    then have "Suc (?x star') * (length ts + 1) \<le> ?x star * (length ts + 1)" by (intro mult_le_mono1) simp
    then show ?thesis by simp
  next
    case False
    with that(1) have "?x star' = ?x star" "t < t'" by auto
    with that(2) show ?thesis by simp
  qed
  let ?U = "units (drop at name)"
  show ?case
  proof (cases "at < length name")
    case False
    with less.prems(3) have at: "at = length name" by simp
    have "\<not> star_pending ca fd ts name star"
      using star_pending_skip [OF less.prems(2) _ less.prems(1), of ca fd] at by auto
    then show ?thesis by (subst glob_loop.simps) (simp add: at glob_spec_all_star)
  next
    case True
    note n = unit_at_length [OF True] and U = units_at [OF True]
    consider (star) "t < length ts" "ts ! t = TStar"
      | (match) "t < length ts" "ts ! t \<noteq> TStar" "token_matches ca fd (ts ! t) (fst (unit_at name at))"
      | (fail) "t < length ts \<longrightarrow> ts ! t \<noteq> TStar \<and> \<not> token_matches ca fd (ts ! t) (fst (unit_at name at))" by blast
    then show ?thesis
    proof cases
      case star
      have "glob_loop ca fd ts name t at star = glob_loop ca fd ts name (t + 1) at (Some (t + 1, at))"
        using True star by (subst glob_loop.simps) simp
      also have "\<dots> = Some (glob_spec ca fd (drop (t + 1) ts) ?U \<or> star_pending ca fd ts name (Some (t + 1, at)))"
      proof (rule less.hyps)
        show "?x (Some (t + 1, at)) * (length ts + 1) + (length ts - (t + 1)) < ?x star * (length ts + 1) + (length ts - t)"
          using less.prems(2) star by (intro smaller) (auto simp: star_ok_def split: option.splits)
      qed (use star less.prems in \<open>auto simp: star_ok_def\<close>)
      finally show ?thesis using glob_step_star [OF star less.prems(2)] by simp
    next
      case match
      let ?at = "at + snd (unit_at name at)"
      have "glob_loop ca fd ts name t at star = glob_loop ca fd ts name (t + 1) ?at star"
        using True match by (subst glob_loop.simps) simp
      also have "\<dots> = Some (glob_spec ca fd (drop (t + 1) ts) (units (drop ?at name)) \<or> star_pending ca fd ts name star)"
        using match n less.prems(1) smaller [of star "t + 1"] star_ok_step [OF match(1,2) less.prems(2) True]
        by (intro less.hyps) auto
      also have "glob_spec ca fd (drop (t + 1) ts) (units (drop ?at name)) \<longleftrightarrow> glob_spec ca fd (drop t ts) ?U"
        using match U by (simp add: Cons_nth_drop_Suc [symmetric])
      finally show ?thesis .
    next
      case fail
      have no: "\<not> glob_spec ca fd (drop t ts) ?U"
        using fail U less.prems(1) by (cases "t < length ts") (simp_all add: Cons_nth_drop_Suc [symmetric])
      show ?thesis
      proof (cases star)
        case None
        with True fail no show ?thesis by (subst glob_loop.simps) (auto simp: star_pending_def)
      next
        case (Some p)
        obtain after sa where p: "p = (after, sa)" by force
        have sa: "after \<le> t" "sa \<le> at" using less.prems(2) by (auto simp: star_ok_def Some p)
        then have lt: "sa < length name" using True by simp
        let ?sa = "sa + snd (unit_at name sa)"
        have "glob_loop ca fd ts name t at star = glob_loop ca fd ts name after ?sa (Some (after, ?sa))"
          using True fail by (subst glob_loop.simps) (auto simp: Some p)
        also have "\<dots> = Some (glob_spec ca fd (drop after ts) (units (drop ?sa name)) \<or> star_pending ca fd ts name (Some (after, ?sa)))"
          using unit_at_length [OF lt] sa less.prems(1) smaller [of "Some (after, ?sa)" after]
          by (intro less.hyps) (auto simp: star_ok_def Some p)
        also have "glob_spec ca fd (drop after ts) (units (drop ?sa name)) \<or> star_pending ca fd ts name (Some (after, ?sa))
            \<longleftrightarrow> star_pending ca fd ts name star"
          unfolding Some p by (rule star_pending_next [OF lt])
        finally show ?thesis using no by simp
      qed
    qed
  qed
qed

lemma glob_match_spec: "glob_match ca ts name fd \<longleftrightarrow> glob_spec ca fd ts (units name)"
  using glob_loop_spec [of 0 ts name 0 None ca fd] by (simp add: glob_match_def star_ok_def star_pending_def)

section \<open>The automaton against the meaning of a pattern\<close>

definition comp_means :: "casing \<Rightarrow> bool \<Rightarrow> pat_comp \<Rightarrow> bytes \<Rightarrow> bool" where
  "comp_means ca fd c name = (case c of AnyDepth \<Rightarrow> False | Literal l \<Rightarrow> l = name | Glob ts \<Rightarrow> glob_spec ca fd ts (units name))"

fun path_matches :: "casing \<Rightarrow> bool \<Rightarrow> pat_comp list \<Rightarrow> bytes list \<Rightarrow> bool" where
  "path_matches ca fd [] names = (names = [])"
| "path_matches ca fd (c # cs) names =
     (if c = AnyDepth then path_matches ca fd cs names \<or> (case names of [] \<Rightarrow> False | n # ns \<Rightarrow> path_matches ca fd (c # cs) ns)
      else (case names of [] \<Rightarrow> False | n # ns \<Rightarrow> comp_means ca fd c n \<and> path_matches ca fd cs ns))"

definition filter_walk :: "casing \<Rightarrow> path_filter \<Rightarrow> bytes list \<Rightarrow> filter_state" where
  "filter_walk ca f names = foldl (filter_descend ca f) (filter_start f) names"

definition decide :: "casing \<Rightarrow> path_filter \<Rightarrow> bytes list \<Rightarrow> bool option" where
  \<comment> \<open>the last pattern that matches decides\<close>
  "decide ca f names = fold (\<lambda>pat d. if path_matches ca (pa_fold pat) (pa_comps pat) names then Some (\<not> pa_negated pat) else d) f None"

lemma comp_matches_means: "comp_matches ca fd c name = comp_means ca fd c name"
  by (cases c) (simp_all add: comp_matches_def comp_means_def glob_match_spec)

text \<open>Positions of one pattern: \<open>length cs\<close> stands for a match.\<close>

definition skips :: "pat_comp list \<Rightarrow> nat \<Rightarrow> nat set" where
  "skips cs i = {j. i \<le> j \<and> j \<le> length cs \<and> (\<forall>k. i \<le> k \<and> k < j \<longrightarrow> cs ! k = AnyDepth)}"

definition moves :: "casing \<Rightarrow> bool \<Rightarrow> pat_comp list \<Rightarrow> bytes \<Rightarrow> nat \<Rightarrow> nat set" where
  "moves ca fd cs name i =
     (if i < length cs then
        (if cs ! i = AnyDepth then skips cs i else if comp_means ca fd (cs ! i) name then skips cs (i + 1) else {})
      else {})"

definition run :: "casing \<Rightarrow> bool \<Rightarrow> pat_comp list \<Rightarrow> nat set \<Rightarrow> bytes list \<Rightarrow> nat set" where
  "run ca fd cs = foldl (\<lambda>S name. \<Union> (moves ca fd cs name ` S))"

lemma run_Un: "run ca fd cs (S \<union> T) names = run ca fd cs S names \<union> run ca fd cs T names"
  by (induction names arbitrary: S T) (simp_all add: run_def Un_Union_image image_Un)

lemma run_empty [simp]: "run ca fd cs {} names = {}"
  by (induction names) (simp_all add: run_def)

lemma run_simps:
  "run ca fd cs S [] = S" "run ca fd cs S (name # names) = run ca fd cs (\<Union> (moves ca fd cs name ` S)) names"
  by (simp_all add: run_def)

lemma skips_step: "i < length cs \<Longrightarrow> skips cs i = (if cs ! i = AnyDepth then insert i (skips cs (i + 1)) else {i})"
proof -
  assume i: "i < length cs"
  show ?thesis
  proof (cases "cs ! i = AnyDepth")
    case True
    have "j \<in> skips cs i \<longleftrightarrow> j = i \<or> j \<in> skips cs (i + 1)" for j
      using True i by (auto simp: skips_def Suc_le_eq) (metis le_neq_implies_less)
    then show ?thesis using True by auto
  next
    case False
    then show ?thesis using i by (auto simp: skips_def)
  qed
qed

lemma skips_end: "skips cs (length cs) = {length cs}"
  by (auto simp: skips_def)

lemma run_matches: "i \<le> length cs \<Longrightarrow> length cs \<in> run ca fd cs (skips cs i) names \<longleftrightarrow> path_matches ca fd (drop i cs) names"
proof (induction "length cs - i" arbitrary: i names)
  case 0
  then have "i = length cs" by simp
  then show ?case by (cases names) (simp_all add: skips_end run_simps moves_def)
next
  case (Suc d)
  then have i: "i < length cs" and IH: "\<And>names. length cs \<in> run ca fd cs (skips cs (i + 1)) names \<longleftrightarrow> path_matches ca fd (drop (i + 1) cs) names"
    by auto
  have cs: "drop i cs = cs ! i # drop (i + 1) cs" using i by (simp add: Cons_nth_drop_Suc)
  show ?case
  proof (cases "cs ! i = AnyDepth")
    case True
    have step: "skips cs i = {i} \<union> skips cs (i + 1)" using i True by (simp add: skips_step [of i])
    have any: "path_matches ca fd (drop i cs) [] = path_matches ca fd (drop (i + 1) cs) []"
      "path_matches ca fd (drop i cs) (name # names) \<longleftrightarrow>
        path_matches ca fd (drop (i + 1) cs) (name # names) \<or> path_matches ca fd (drop i cs) names" for name names
      unfolding cs by (simp_all add: True)
    show ?thesis
    proof (induction names)
      case Nil
      then show ?case using i IH [of "[]"] by (simp add: any step run_simps)
    next
      case (Cons name names)
      have "run ca fd cs {i} (name # names) = run ca fd cs (skips cs i) names"
        using i True by (simp add: run_simps moves_def)
      then have "run ca fd cs (skips cs i) (name # names)
          = run ca fd cs (skips cs i) names \<union> run ca fd cs (skips cs (i + 1)) (name # names)"
        by (subst step) (simp only: run_Un)
      then show ?case using Cons.IH IH [of "name # names"] by (auto simp: any)
    qed
  next
    case False
    have one: "path_matches ca fd (drop i cs) names \<longleftrightarrow>
        (case names of [] \<Rightarrow> False | n # ns \<Rightarrow> comp_means ca fd (cs ! i) n \<and> path_matches ca fd (drop (i + 1) cs) ns)" for names
      unfolding cs using False by (cases names) simp_all
    have "skips cs i = {i}" using i False by (simp add: skips_step [of i])
    moreover have "\<Union> (moves ca fd cs n ` {i}) = (if comp_means ca fd (cs ! i) n then skips cs (i + 1) else {})" for n
      using i False by (simp add: moves_def)
    ultimately show ?thesis using i IH by (cases names) (simp_all only: one run_simps list.case, auto)
  qed
qed

text \<open>The positions a state records for a pattern of \<open>n\<close> segments.\<close>

definition positions :: "nat \<Rightarrow> filter_state \<Rightarrow> nat \<Rightarrow> nat set" where
  "positions n st p = {i. (p, i) \<in> set (fs_active st)} \<union> (if p \<in> set (fs_matched st) then {n} else {})"

definition state_ok :: "path_filter \<Rightarrow> filter_state \<Rightarrow> bool" where
  "state_ok f st \<longleftrightarrow> (\<forall>(p, i) \<in> set (fs_active st). p < length f \<and> i < length (pa_comps (f ! p)))
     \<and> (\<forall>p \<in> set (fs_matched st). p < length f)
     \<and> (fs_positive st \<longleftrightarrow> (\<exists>(p, i) \<in> set (fs_active st). \<not> pa_negated (f ! p)))"

lemma state_ok_default: "state_ok f state_default" "positions n state_default p = {}"
  by (simp_all add: state_ok_def state_default_def positions_def)

lemma add_from_ok:
  assumes "p < length f" "i + length cs = length (pa_comps (f ! p))" "cs = drop i (pa_comps (f ! p))" "state_ok f st"
  shows "state_ok f (add_from p i cs (pa_negated (f ! p)) st)
    \<and> (\<forall>q. positions (length (pa_comps (f ! q))) (add_from p i cs (pa_negated (f ! p)) st) q
         = positions (length (pa_comps (f ! q))) st q \<union> (if q = p then skips (pa_comps (f ! p)) i else {}))"
  using assms
proof (induction cs arbitrary: i st)
  case Nil
  then have "skips (pa_comps (f ! p)) i = {length (pa_comps (f ! p))}" using skips_end by simp
  with Nil show ?case by (auto simp: positions_def state_ok_def dest: last_in_set)
next
  case (Cons c cs)
  let ?seen = "\<exists>(q, j) \<in> set (takeWhile (\<lambda>(q, j). q = p) (rev (fs_active st))). j = i"
  let ?st1 = "if ?seen then st else st\<lparr>fs_active := fs_active st @ [(p, i)], fs_positive := fs_positive st \<or> \<not> pa_negated (f ! p)\<rparr>"
  have d: "drop i (pa_comps (f ! p)) = c # cs" using Cons.prems(3) by simp
  have i: "i < length (pa_comps (f ! p))" using Cons.prems(2) by simp
  have at_i: "pa_comps (f ! p) ! i = c" "cs = drop (i + 1) (pa_comps (f ! p))"
    using d i by (simp_all add: Cons_nth_drop_Suc [symmetric])
  have seen: "(p, i) \<in> set (fs_active st)" if ?seen
    using that by (fastforce dest: set_takeWhileD)
  have ok1: "state_ok f ?st1" using Cons.prems(1,4) i by (auto simp: state_ok_def)
  have pos1: "positions (length (pa_comps (f ! q))) ?st1 q
      = positions (length (pa_comps (f ! q))) st q \<union> (if q = p then {i} else {})" for q
    using seen by (auto simp: positions_def)
  show ?case
  proof (cases "c = AnyDepth")
    case False
    then have "skips (pa_comps (f ! p)) i = {i}" using i at_i by (simp add: skips_step [of i])
    with False ok1 pos1 show ?thesis by (simp add: Let_def)
  next
    case True
    then have s: "skips (pa_comps (f ! p)) i = insert i (skips (pa_comps (f ! p)) (i + 1))" using i at_i by (simp add: skips_step [of i])
    have "state_ok f (add_from p (i + 1) cs (pa_negated (f ! p)) ?st1)
      \<and> (\<forall>q. positions (length (pa_comps (f ! q))) (add_from p (i + 1) cs (pa_negated (f ! p)) ?st1) q
           = positions (length (pa_comps (f ! q))) ?st1 q \<union> (if q = p then skips (pa_comps (f ! p)) (i + 1) else {}))"
      using Cons.prems(1,2) at_i(2) ok1 by (intro Cons.IH) auto
    moreover have "add_from p i (c # cs) (pa_negated (f ! p)) st = add_from p (i + 1) cs (pa_negated (f ! p)) ?st1"
      using True by (simp add: Let_def)
    ultimately show ?thesis unfolding s pos1 by auto
  qed
qed

lemma filter_add_ok:
  assumes "p < length f" "i \<le> length (pa_comps (f ! p))" "state_ok f st"
  shows "state_ok f (filter_add p i (f ! p) st)"
    and "positions (length (pa_comps (f ! q))) (filter_add p i (f ! p) st) q
      = positions (length (pa_comps (f ! q))) st q \<union> (if q = p then skips (pa_comps (f ! p)) i else {})"
  using add_from_ok [OF assms(1) _ refl assms(3), of i] assms(2) by (simp_all add: filter_add_def)

lemma fold_ok:
  assumes "\<And>x st. x \<in> set xs \<Longrightarrow> state_ok f st \<Longrightarrow> state_ok f (g x st)
      \<and> (\<forall>q. positions (n q) (g x st) q = positions (n q) st q \<union> h x q)" "state_ok f st"
  shows "state_ok f (fold g xs st) \<and> (\<forall>q. positions (n q) (fold g xs st) q = positions (n q) st q \<union> (\<Union>x \<in> set xs. h x q))"
  using assms by (induction xs arbitrary: st) (simp, simp add: Un_assoc)

lemma filter_start_ok:
  "state_ok f (filter_start f)"
  "p < length f \<Longrightarrow> positions (length (pa_comps (f ! p))) (filter_start f) p = skips (pa_comps (f ! p)) 0"
proof -
  let ?n = "\<lambda>q. length (pa_comps (f ! q))"
  let ?h = "\<lambda>(p :: nat, pat :: pattern) q. if q = p then skips (pa_comps (f ! p)) 0 else {}"
  have "state_ok f (case x of (p, pat) \<Rightarrow> filter_add p 0 pat st)
      \<and> (\<forall>q. positions (?n q) (case x of (p, pat) \<Rightarrow> filter_add p 0 pat st) q = positions (?n q) st q \<union> ?h x q)"
    if "x \<in> set (enumerate 0 f)" "state_ok f st" for x st
  proof -
    obtain p pat where x: "x = (p, pat)" by force
    with that(1) have "pat = f ! p" "p < length f" by (auto simp: in_set_enumerate_eq)
    with x filter_add_ok [of p f 0 st] that(2) show ?thesis by simp
  qed
  then have "\<And>x st. x \<in> set (enumerate 0 f) \<Longrightarrow> state_ok f st \<Longrightarrow> state_ok f ((\<lambda>(p, pat). filter_add p 0 pat) x st)
      \<and> (\<forall>q. positions (?n q) ((\<lambda>(p, pat). filter_add p 0 pat) x st) q = positions (?n q) st q \<union> ?h x q)"
    by (simp add: case_prod_beta)
  from fold_ok [where xs = "enumerate 0 f" and g = "\<lambda>(p, pat). filter_add p 0 pat" and n = ?n and h = ?h, OF this state_ok_default(1)]
  have r: "state_ok f (filter_start f) \<and> (\<forall>q. positions (?n q) (filter_start f) q = (\<Union>x \<in> set (enumerate 0 f). ?h x q))"
    unfolding filter_start_def state_ok_default Un_empty_left .
  then show "state_ok f (filter_start f)" by blast
  assume "p < length f"
  then have "(p, f ! p) \<in> set (enumerate 0 f)" by (simp add: in_set_enumerate_eq)
  then have "(\<Union>x \<in> set (enumerate 0 f). ?h x p) = skips (pa_comps (f ! p)) 0" by (auto split: if_splits)
  with r show "positions (?n p) (filter_start f) p = skips (pa_comps (f ! p)) 0" by simp
qed

lemma filter_descend_ok:
  assumes "state_ok f st"
  shows "state_ok f (filter_descend ca f st name)"
    and "p < length f \<Longrightarrow> positions (length (pa_comps (f ! p))) (filter_descend ca f st name) p
      = \<Union> (moves ca (pa_fold (f ! p)) (pa_comps (f ! p)) name ` positions (length (pa_comps (f ! p))) st p)"
    and "fs_decision (filter_descend ca f st name) = (if fs_matched (filter_descend ca f st name) = [] then None
      else Some (\<not> pa_negated (f ! Max (set (fs_matched (filter_descend ca f st name))))))"
proof -
  let ?n = "\<lambda>q. length (pa_comps (f ! q))" and ?next = "fold (descend_one ca f name) (fs_active st) state_default"
  let ?h = "\<lambda>(p, i) q. if q = p then moves ca (pa_fold (f ! p)) (pa_comps (f ! p)) name i else {}"
  have "state_ok f (descend_one ca f name x s)
      \<and> (\<forall>q. positions (?n q) (descend_one ca f name x s) q = positions (?n q) s q \<union> ?h x q)"
    if "x \<in> set (fs_active st)" "state_ok f s" for x s
  proof -
    obtain p i where x: "x = (p, i)" by force
    with that(1) assms have "p < length f" "i < length (pa_comps (f ! p))" by (auto simp: state_ok_def)
    with that(2) show ?thesis
      by (auto simp: x descend_one_def moves_def filter_add_ok comp_matches_means Let_def)
  qed
  from fold_ok [where g = "descend_one ca f name" and n = ?n and h = ?h, OF this state_ok_default(1)]
  have r: "state_ok f ?next \<and> (\<forall>q. positions (?n q) ?next q = (\<Union>x \<in> set (fs_active st). ?h x q))"
    by (simp add: state_ok_default)
  have same: "positions m (filter_descend ca f st name) q = positions m ?next q" for m q
    by (simp add: filter_descend_def Let_def positions_def)
  from r show "state_ok f (filter_descend ca f st name)"
    by (auto simp: filter_descend_def Let_def state_ok_def)
  have "moves ca fd cs name (length cs) = {}" for fd cs by (simp add: moves_def)
  then have "\<Union> (moves ca (pa_fold (f ! q)) (pa_comps (f ! q)) name ` positions (?n q) st q) = (\<Union>x \<in> set (fs_active st). ?h x q)" for q
    by (auto simp: positions_def split: if_splits)
  with r same show "positions (?n p) (filter_descend ca f st name) p
      = \<Union> (moves ca (pa_fold (f ! p)) (pa_comps (f ! p)) name ` positions (?n p) st p)" by simp
  show "fs_decision (filter_descend ca f st name) = (if fs_matched (filter_descend ca f st name) = [] then None
      else Some (\<not> pa_negated (f ! Max (set (fs_matched (filter_descend ca f st name))))))"
    by (simp add: filter_descend_def Let_def)
qed

lemma filter_walk_ok:
  "state_ok f (filter_walk ca f names)"
  "p < length f \<Longrightarrow> positions (length (pa_comps (f ! p))) (filter_walk ca f names) p
     = run ca (pa_fold (f ! p)) (pa_comps (f ! p)) (skips (pa_comps (f ! p)) 0) names"
proof (induction names rule: rev_induct)
  case Nil
  show "state_ok f (filter_walk ca f [])" by (simp add: filter_walk_def filter_start_ok)
  show "p < length f \<Longrightarrow> positions (length (pa_comps (f ! p))) (filter_walk ca f []) p
     = run ca (pa_fold (f ! p)) (pa_comps (f ! p)) (skips (pa_comps (f ! p)) 0) []"
    by (simp add: filter_walk_def filter_start_ok run_def)
next
  case (snoc name names)
  have w: "filter_walk ca f (names @ [name]) = filter_descend ca f (filter_walk ca f names) name" by (simp add: filter_walk_def)
  show "state_ok f (filter_walk ca f (names @ [name]))" unfolding w using snoc.IH(1) by (rule filter_descend_ok)
  show "p < length f \<Longrightarrow> positions (length (pa_comps (f ! p))) (filter_walk ca f (names @ [name])) p
     = run ca (pa_fold (f ! p)) (pa_comps (f ! p)) (skips (pa_comps (f ! p)) 0) (names @ [name])"
    unfolding w using filter_descend_ok(2) [OF snoc.IH(1)] snoc.IH(2) by (simp add: run_def)
qed

lemma walk_matched:
  "set (fs_matched (filter_walk ca f names)) = {p. p < length f \<and> path_matches ca (pa_fold (f ! p)) (pa_comps (f ! p)) names}"
proof -
  have "p \<in> set (fs_matched (filter_walk ca f names)) \<longleftrightarrow> path_matches ca (pa_fold (f ! p)) (pa_comps (f ! p)) names"
    if p: "p < length f" for p
  proof -
    let ?n = "length (pa_comps (f ! p))"
    have "?n \<in> positions ?n (filter_walk ca f names) p \<longleftrightarrow> path_matches ca (pa_fold (f ! p)) (pa_comps (f ! p)) names"
      using filter_walk_ok(2) [OF p] run_matches [of 0 "pa_comps (f ! p)"] by simp
    moreover have "(p, ?n) \<notin> set (fs_active (filter_walk ca f names))"
      using filter_walk_ok(1) by (fastforce simp: state_ok_def)
    ultimately show ?thesis by (auto simp: positions_def split: if_splits)
  qed
  with filter_walk_ok(1) [of f ca names] show ?thesis by (auto simp: state_ok_def)
qed

lemma decide_Max:
  "decide ca f names = (let M = {p. p < length f \<and> path_matches ca (pa_fold (f ! p)) (pa_comps (f ! p)) names}
     in if M = {} then None else Some (\<not> pa_negated (f ! Max M)))"
proof (induction f rule: rev_induct)
  case (snoc pat f)
  let ?M = "\<lambda>f. {p. p < length f \<and> path_matches ca (pa_fold (f ! p)) (pa_comps (f ! p)) names}"
  have old: "?M (f @ [pat]) = (if path_matches ca (pa_fold pat) (pa_comps pat) names then insert (length f) (?M f) else ?M f)"
    by (auto simp: nth_append less_Suc_eq)
  have d: "decide ca (f @ [pat]) names = (if path_matches ca (pa_fold pat) (pa_comps pat) names then Some (\<not> pa_negated pat) else decide ca f names)"
    by (simp add: decide_def)
  show ?case
  proof (cases "path_matches ca (pa_fold pat) (pa_comps pat) names")
    case True
    have "Max (insert (length f) (?M f)) = length f" by (intro Max_eqI) auto
    with True show ?thesis unfolding d Let_def old by simp
  next
    case False
    show ?thesis
    proof (cases "?M f = {}")
      case True
      with False snoc show ?thesis unfolding d Let_def old by simp
    next
      case ne: False
      have "Max (?M f) \<in> ?M f" using ne by (intro Max_in) auto
      then have "(f @ [pat]) ! Max (?M f) = f ! Max (?M f)" by (simp add: nth_append)
      with False ne snoc show ?thesis unfolding d Let_def old by simp
    qed
  qed
qed (simp add: decide_def)

text \<open>C39: the linear-time matcher returns on every pattern and name, malformed UTF-8 included, and
  decides the plain meaning of the tokens: a star stands for any run of characters, every other
  token for one character, and the whole name is covered. The stars before the last one need
  never be revisited.\<close>

theorem glob_loop_reference:
  "glob_loop ca fd ts name 0 0 None = Some (glob_spec ca fd ts (units name))"
  using glob_loop_spec [of 0 ts name 0 None ca fd] by (simp add: star_ok_def star_pending_def)

lemma walk_decision: "fs_decision (filter_walk ca f (names @ [name])) = decide ca f (names @ [name])"
proof -
  let ?st = "filter_walk ca f (names @ [name])"
  have "?st = filter_descend ca f (filter_walk ca f names) name" by (simp add: filter_walk_def)
  then have "fs_decision ?st = (if set (fs_matched ?st) = {} then None else Some (\<not> pa_negated (f ! Max (set (fs_matched ?st)))))"
    using filter_descend_ok(3) [OF filter_walk_ok(1) [of f ca names]] by simp
  then show ?thesis unfolding walk_matched by (simp only: decide_Max Let_def)
qed

text \<open>C37: walking down a path one component at a time gives every node the decision its full path
  deserves: the last pattern that matches the path from the top decides, negated patterns deny,
  and without a match there is no decision. A pattern matches when its segments cover the path,
  a double star covering any number of components.\<close>

theorem filter_decides_by_last_match:
  "fs_decision (filter_walk ca f (names @ [name])) = decide ca f (names @ [name])"
  by (rule walk_decision)

lemma run_subset: "S \<subseteq> {length cs} \<Longrightarrow> names \<noteq> [] \<Longrightarrow> run ca fd cs S names = {}"
proof -
  assume "S \<subseteq> {length cs}" "names \<noteq> []"
  then obtain name ns where n: "names = name # ns" by (cases names) auto
  from \<open>S \<subseteq> {length cs}\<close> have "\<Union> (moves ca fd cs name ` S) = {}" by (auto simp: moves_def)
  then show ?thesis by (simp add: n run_simps)
qed

lemma decide_Some_True:
  "decide ca f names = Some True \<Longrightarrow> \<exists>pat \<in> set f. \<not> pa_negated pat \<and> path_matches ca (pa_fold pat) (pa_comps pat) names"
  by (induction f rule: rev_induct) (auto simp: decide_def split: if_splits)

text \<open>C38: pruning by \<open>may_match_below\<close> loses nothing: once it is false for a directory, no node at
  any depth below it is matched, so the walk may leave the whole subtree unread.\<close>

theorem may_match_below_sound:
  assumes "\<not> may_match_below (filter_walk ca f names)" "rest \<noteq> []"
  shows "\<not> state_is_match (filter_walk ca f (names @ rest))"
proof
  assume m: "state_is_match (filter_walk ca f (names @ rest))"
  obtain ns name where r: "rest = ns @ [name]" using assms(2) by (cases rest rule: rev_cases) auto
  have "decide ca f (names @ rest) = Some True"
    using m walk_decision [of ca f "names @ ns" name] by (simp add: state_is_match_def r)
  then obtain pat where "pat \<in> set f" and neg: "\<not> pa_negated pat"
    and match: "path_matches ca (pa_fold pat) (pa_comps pat) (names @ rest)" using decide_Some_True by blast
  then obtain p where p: "p < length f" "pat = f ! p" by (auto simp: in_set_conv_nth)
  let ?run = "run ca (pa_fold pat) (pa_comps pat) (skips (pa_comps pat) 0)"
  have "(p, i) \<notin> set (fs_active (filter_walk ca f names))" for i
    using filter_walk_ok(1) [of f ca names] assms(1) neg p(2) by (auto simp: state_ok_def may_match_below_def)
  then have "?run names \<subseteq> {length (pa_comps pat)}"
    using filter_walk_ok(2) [OF p(1), of ca names] p(2) by (auto simp: positions_def split: if_splits)
  then have "?run (names @ rest) = {}" using run_subset [OF _ assms(2)] by (simp add: run_def)
  with match run_matches [of 0 "pa_comps pat" ca "pa_fold pat" "names @ rest"] show False by simp
qed

definition demo_casing :: casing where "demo_casing = \<lparr>ca_lower = (\<lambda>c. [c]), ca_upper = (\<lambda>c. [c])\<rparr>"

definition demo_filter :: path_filter where
  "demo_filter = [\<lparr>pa_text = text_of ''/a/b'', pa_comps = [Literal [97], Literal [98]], pa_negated = False, pa_fold = False\<rparr>,
     \<lparr>pa_text = text_of ''!x'', pa_comps = [AnyDepth, Literal [120]], pa_negated = True, pa_fold = False\<rparr>]"

lemma demo_filter_parsed: "filter_new [text_of ''/a/b'', text_of ''!x''] = Inr demo_filter"
  by (simp add: filter_new_def pattern_parse_def text_of_def strip_prefix_def strip_suffix_def Let_def parse_segment_def
      utf8_string_def utf8_encode_def demo_filter_def)

theorem may_match_below_sound_witness:
  "\<not> state_is_match (filter_walk demo_casing demo_filter ([[122]] @ [[97], [98]]))"
proof (rule may_match_below_sound)
  show "\<not> may_match_below (filter_walk demo_casing demo_filter [[122]])"
    by (simp add: may_match_below_def filter_walk_def filter_start_def filter_add_def state_default_def demo_filter_def
        filter_descend_def descend_one_def comp_matches_def)
qed simp

section \<open>Escaped names\<close>

definition escape :: "uchar list \<Rightarrow> uchar list" where
  "escape cs = concat (map (\<lambda>c. [uc (CHR 0x5C), c]) cs)"

lemma parse_tokens_escape: "parse_tokens acc (escape cs) = Inr (acc @ map TChar cs)"
  by (induction cs arbitrary: acc) (simp_all add: escape_def)

lemma literal_of_chars: "literal_of (map TChar cs) = Some cs"
  by (induction cs) simp_all

lemma split_on_none: "x \<notin> set xs \<Longrightarrow> split_on x xs = [xs]"
  by (induction xs) auto

lemma parse_escaped:
  assumes "cs \<noteq> []" "uc (CHR ''/'') \<notin> set cs"
  shows "pattern_parse (text_of ''/'' @ escape cs) False
    = Inr \<lparr>pa_text = text_of ''/'' @ escape cs, pa_comps = [Literal (utf8_string cs)], pa_negated = False, pa_fold = False\<rparr>"
proof -
  obtain c ds where cs: "cs = c # ds" using assms(1) by (cases cs) auto
  have e: "escape cs = uc (CHR 0x5C) # c # escape ds" by (simp add: cs escape_def)
  have no: "uc (CHR ''/'') \<notin> set (escape cs)" using assms(2) by (auto simp: escape_def)
  have "strip_suffix (text_of ''/'') (escape cs) = None"
  proof (rule ccontr)
    assume "strip_suffix (text_of ''/'') (escape cs) \<noteq> None"
    then obtain r where "escape cs = r @ text_of ''/''" by (auto simp: result_simps)
    with no show False by (simp add: text_of_def)
  qed
  moreover have "parse_segment (escape cs) False = Inr (Literal (utf8_string cs))"
    using parse_tokens_escape [of "[]" cs] literal_of_chars [of cs] by (simp add: parse_segment_def e text_of_def)
  ultimately show ?thesis
    using split_on_none [OF no] by (simp add: pattern_parse_def text_of_def strip_prefix_def e Let_def)
qed

text \<open>any name can be written as a pattern: escaping each of its characters with a backslash
  gives a pattern that matches the node of exactly this name at the top of the path and nothing
  else, whatever wildcard characters the name contains.\<close>

theorem escaped_name_matches_itself:
  assumes "cs \<noteq> []" "uc (CHR ''/'') \<notin> set cs"
  shows "\<exists>f. filter_new [text_of ''/'' @ escape cs] = Inr f
    \<and> (\<forall>names name. state_is_match (filter_walk ca f (names @ [name])) \<longleftrightarrow> names = [] \<and> name = utf8_string cs)"
proof -
  let ?f = "[\<lparr>pa_text = text_of ''/'' @ escape cs, pa_comps = [Literal (utf8_string cs)], pa_negated = False, pa_fold = False\<rparr>]"
  have "filter_new [text_of ''/'' @ escape cs] = Inr ?f" using parse_escaped [OF assms] by (simp add: filter_new_def)
  moreover have "state_is_match (filter_walk ca ?f (names @ [name])) \<longleftrightarrow> names = [] \<and> name = utf8_string cs" for names name
    unfolding state_is_match_def walk_decision by (cases names) (auto simp: decide_def comp_means_def)
  ultimately show ?thesis by blast
qed

theorem escaped_name_matches_itself_witness:
  "\<exists>f. filter_new [text_of ''/'' @ escape (text_of ''*.tmp'')] = Inr f
     \<and> (\<forall>names name. state_is_match (filter_walk demo_casing f (names @ [name])) \<longleftrightarrow> names = [] \<and> name = utf8_string (text_of ''*.tmp''))"
  by (rule escaped_name_matches_itself) (simp_all add: text_of_def)

section \<open>Literal segments\<close>

definition scalar :: "uchar \<Rightarrow> bool" where "scalar c \<longleftrightarrow> c < 0xD800 \<or> 0xE000 \<le> c \<and> c \<le> 0x10FFFF"

lemma cont_digit: "cont_byte n \<Longrightarrow> \<exists>d. n = d + 0x80 \<and> d < 64"
  unfolding cont_byte_def by (intro exI [of _ "n - 0x80"]) linarith

lemma word_back: "unat (a :: u8) = n + numeral k \<Longrightarrow> of_nat n + numeral k = a"
proof -
  assume "unat a = n + numeral k"
  then have "(of_nat (n + numeral k) :: u8) = of_nat (unat a)" by simp
  then show ?thesis by simp
qed

lemma utf8_char_encode:
  assumes "utf8_char (map unat bs) = Some c"
  shows "utf8_encode c = bs"
proof -
  have "(\<exists>a b. bs = [a, b]) \<or> (\<exists>a b d. bs = [a, b, d]) \<or> (\<exists>a b d e. bs = [a, b, d, e])"
    using assms by (cases "map unat bs" rule: utf8_char.cases) auto
  then show ?thesis
  proof (elim disjE exE)
    fix a b assume bs: "bs = [a, b]"
    with assms obtain x y where n: "unat a = x + 0xC0" "unat b = y + 0x80" "2 \<le> x" "x < 32" "y < 64" and c: "c = x * 64 + y"
      by (auto simp: le_iff_add dest!: cont_digit split: if_splits)
    have "c div 64 = x" "c mod 64 = y" "\<not> c < 128" "c < 2048" using n c by auto
    with n show ?thesis by (simp add: utf8_encode_def bs word_back add.commute)
  next
    fix a b d assume bs: "bs = [a, b, d]"
    with assms obtain x y z where n: "unat a = x + 0xE0" "unat b = y + 0x80" "unat d = z + 0x80" "x < 16" "y < 64" "z < 64"
        "x = 0 \<longrightarrow> 32 \<le> y" and c: "c = x * 4096 + y * 64 + z"
      by (auto simp: le_iff_add dest!: cont_digit split: if_splits)
    define q where "q = x * 64 + y"
    have "c = q * 64 + z" by (simp add: c q_def)
    then have d1: "c div 64 = q" "c mod 64 = z" using n(6) by auto
    have d2: "q div 64 = x" "q mod 64 = y" using n(5) by (auto simp: q_def)
    have "c div 4096 = x" using div_mult2_eq [of c 64 64] d1 d2 by simp
    moreover have "\<not> c < 2048" "c < 65536" using n(4-7) c by (cases "x = 0"; simp)+
    ultimately have "c div 4096 = x" "c div 64 mod 64 = y" "c mod 64 = z" "\<not> c < 2048" "c < 65536"
      using d1 d2 by auto
    with n show ?thesis by (simp add: utf8_encode_def bs word_back add.commute)
  next
    fix a b d e assume bs: "bs = [a, b, d, e]"
    with assms have g: "0xF0 \<le> unat a" "unat a \<le> 0xF4" "cont_byte (unat b)" "cont_byte (unat d)" "cont_byte (unat e)"
        "unat a = 0xF0 \<longrightarrow> 0x90 \<le> unat b"
        "c = (unat a - 0xF0) * 262144 + (unat b - 0x80) * 4096 + (unat d - 0x80) * 64 + (unat e - 0x80)"
      by (auto split: if_splits)
    obtain x where x: "unat a = x + 0xF0" using le_Suc_ex [OF g(1)] by (auto simp: add.commute)
    obtain y z w where yzw: "unat b = y + 0x80" "unat d = z + 0x80" "unat e = w + 0x80" "y < 64" "z < 64" "w < 64"
      using cont_digit [OF g(3)] cont_digit [OF g(4)] cont_digit [OF g(5)] by blast
    have n: "unat a = x + 0xF0" "unat b = y + 0x80" "unat d = z + 0x80" "unat e = w + 0x80"
        "x \<le> 4" "y < 64" "z < 64" "w < 64" "x = 0 \<longrightarrow> 16 \<le> y" and c: "c = x * 262144 + y * 4096 + z * 64 + w"
      using g(2,6,7) x yzw by auto
    define q1 q2 where "q1 = q2 * 64 + z" and "q2 = x * 64 + y"
    have "c = q1 * 64 + w" by (simp add: c q1_def q2_def)
    then have d1: "c div 64 = q1" "c mod 64 = w" using n(8) by auto
    have d2: "q1 div 64 = q2" "q1 mod 64 = z" using n(7) by (auto simp: q1_def)
    have d3: "q2 div 64 = x" "q2 mod 64 = y" using n(6) by (auto simp: q2_def)
    have "c div 4096 = q2" using div_mult2_eq [of c 64 64] d1 d2 by simp
    moreover have "c div 262144 = x" using div_mult2_eq [of c 4096 64] calculation d3 by simp
    moreover have "\<not> c < 65536" using n(5,9) c by (cases "x = 0") auto
    ultimately have "c div 262144 = x" "c div 4096 mod 64 = y" "c div 64 mod 64 = z" "c mod 64 = w" "\<not> c < 65536"
      using d1 d2 d3 by auto
    with n show ?thesis by (simp add: utf8_encode_def bs word_back add.commute)
  qed
qed

lemma base64: "\<exists>q d. c = q * 64 + d \<and> d < 64 \<and> c div 64 = q \<and> c mod 64 = (d :: nat)"
  by (intro exI [of _ "c div 64"] exI [of _ "c mod 64"]) simp

lemma unat_digit: "n + numeral k < 256 \<Longrightarrow> unat (numeral k + of_nat n :: u8) = numeral k + n"
proof -
  assume "n + numeral k < 256"
  then have "unat (of_nat (numeral k + n) :: u8) = numeral k + n" by (simp only: unat_u8_of_nat) simp
  then show ?thesis by simp
qed

lemma utf8_char_decode:
  assumes "scalar c" "0x80 \<le> c"
  shows "utf8_char (map unat (utf8_encode c)) = Some c
    \<and> (let n = length (utf8_encode c); lead = unat (hd (utf8_encode c)) in
        n = 2 \<and> 0xC2 \<le> lead \<and> lead \<le> 0xDF \<or> n = 3 \<and> 0xE0 \<le> lead \<and> lead \<le> 0xEF
        \<or> n = 4 \<and> 0xF0 \<le> lead \<and> lead \<le> 0xF4)"
proof -
  obtain q1 w where w: "c = q1 * 64 + w" "w < 64" "c div 64 = q1" "c mod 64 = w" using base64 [of c] by blast
  obtain q2 z where z: "q1 = q2 * 64 + z" "z < 64" "q1 div 64 = q2" "q1 mod 64 = z" using base64 [of q1] by blast
  obtain x y where y: "q2 = x * 64 + y" "y < 64" "q2 div 64 = x" "q2 mod 64 = y" using base64 [of q2] by blast
  have d: "c div 4096 = q2" using div_mult2_eq [of c 64 64] w z by simp
  have e: "c div 262144 = x" using div_mult2_eq [of c 4096 64] d y by simp
  consider "c < 0x800" | "0x800 \<le> c" "c < 0x10000" | "0x10000 \<le> c" by linarith
  then show ?thesis
  proof cases
    case 1
    then have "2 \<le> q1" "q1 < 32" using assms(2) w by auto
    with 1 assms(2) w(1,2) show ?thesis by (simp add: utf8_encode_def cont_byte_def w(3,4) Let_def unat_digit)
  next
    case 2
    then have q: "q2 < 16" "q2 = 0 \<longrightarrow> 32 \<le> z" "q2 = 13 \<longrightarrow> z \<le> 31" using assms w z by (auto simp: scalar_def)
    have enc: "utf8_encode c = map of_nat [0xE0 + q2, 0x80 + z, 0x80 + w]"
      using 2 by (simp add: utf8_encode_def w(4) d z(4) w(3))
    have un: "map unat (utf8_encode c) = [0xE0 + q2, 0x80 + z, 0x80 + w]"
      unfolding enc using q(1) w(2) z(2) by (simp add: unat_digit)
    have "utf8_char [0xE0 + q2, 0x80 + z, 0x80 + w] = Some c"
      using q w(2) z(2) by (simp add: cont_byte_def w(1) z(1))
    moreover have "length (utf8_encode c) = 3" "unat (hd (utf8_encode c)) = 0xE0 + q2"
      using q(1) by (simp_all add: enc unat_digit)
    ultimately show ?thesis using q(1) unfolding un by simp
  next
    case 3
    then have q: "x \<le> 4" "x = 0 \<longrightarrow> 16 \<le> y" "x = 4 \<longrightarrow> y \<le> 15" using assms w z y by (auto simp: scalar_def)
    have enc: "utf8_encode c = map of_nat [0xF0 + x, 0x80 + y, 0x80 + z, 0x80 + w]"
      using 3 by (simp add: utf8_encode_def w(4) d e z(4) y(4) w(3))
    have un: "map unat (utf8_encode c) = [0xF0 + x, 0x80 + y, 0x80 + z, 0x80 + w]"
      unfolding enc using q(1) w(2) z(2) y(2) by (simp add: unat_digit)
    have "utf8_char [0xF0 + x, 0x80 + y, 0x80 + z, 0x80 + w] = Some c"
      using q w(2) z(2) y(2) by (simp add: cont_byte_def w(1) z(1) y(1))
    moreover have "length (utf8_encode c) = 4" "unat (hd (utf8_encode c)) = 0xF0 + x"
      using q(1) by (simp_all add: enc unat_digit)
    ultimately show ?thesis using q(1) unfolding un by simp
  qed
qed

lemma units_utf8:
  assumes "scalar c"
  shows "units (utf8_encode c @ rest) = UChar c # units rest"
proof -
  let ?bs = "utf8_encode c @ rest"
  have "unit_at ?bs 0 = (UChar c, length (utf8_encode c)) \<and> ?bs \<noteq> [] \<and> 1 \<le> length (utf8_encode c)"
  proof (cases "c < 0x80")
    case True
    then show ?thesis by (simp add: utf8_encode_def unit_at_def)
  next
    case False
    then have "utf8_encode c \<noteq> []" "?bs ! 0 = hd (utf8_encode c)"
      by (auto simp: utf8_encode_def)
    with False utf8_char_decode [OF assms] show ?thesis
      by (cases rest) (auto simp: unit_at_def Let_def get_slice_def slice_def)
  qed
  then show ?thesis by (subst units.simps) (simp add: max_absorb2)
qed

lemma units_utf8_string: "\<forall>c \<in> set cs. scalar c \<Longrightarrow> units (utf8_string cs) = map UChar cs"
  by (induction cs) (simp_all add: utf8_string_def units_utf8)

lemma unit_at_char: "unit_at bs 0 = (UChar c, n) \<Longrightarrow> bs \<noteq> [] \<Longrightarrow> utf8_encode c = take n bs \<and> 1 \<le> n"
  using utf8_char_encode [of "take n bs" c]
  by (cases bs)
    (auto simp: unit_at_def Let_def get_slice_def slice_def utf8_encode_def [of "unat x" for x]
      split: if_splits option.splits)

lemma units_chars: "units bs = map UChar cs \<Longrightarrow> bs = utf8_string cs"
proof (induction cs arbitrary: bs)
  case (Cons c cs)
  then have ne: "bs \<noteq> []" by auto
  obtain u n where un: "unit_at bs 0 = (u, n)" by force
  with Cons.prems ne have u: "u = UChar c" and r: "units (drop (max 1 n) bs) = map UChar cs"
    by (simp_all add: units.simps [of bs])
  from unit_at_char [OF un [unfolded u] ne] have "utf8_encode c = take n bs" "1 \<le> n" by auto
  moreover from this r Cons.IH [of "drop n bs"] have "drop n bs = utf8_string cs" by (simp add: max_absorb2)
  ultimately show ?case by (metis append_take_drop_id concat.simps(2) list.simps(9) utf8_string_def)
qed (simp add: utf8_string_def)

lemma glob_spec_chars: "glob_spec ca False (map TChar cs) us \<longleftrightarrow> us = map UChar cs"
proof (induction cs arbitrary: us)
  case (Cons c cs)
  show ?case
  proof (cases us)
    case (Cons u us')
    then show ?thesis using Cons.IH by (cases u) auto
  qed simp
qed simp

text \<open>comparing a segment without wildcards byte by byte, as the parser compiles it, is the same
  as matching its characters one by one against the name, for every name, valid UTF-8 or not.\<close>

theorem literal_segment_equivalent:
  assumes "\<forall>c \<in> set cs. scalar c"
  shows "comp_matches ca False (Literal (utf8_string cs)) name = comp_matches ca False (Glob (map TChar cs)) name"
  using units_utf8_string [OF assms] units_chars [of name cs]
  by (auto simp: comp_matches_means comp_means_def glob_spec_chars)

theorem literal_segment_equivalent_witness:
  "comp_matches demo_casing False (Literal (utf8_string [0x4E2D])) [0xE4, 0xB8, 0xAD]
    = comp_matches demo_casing False (Glob (map TChar [0x4E2D])) [0xE4, 0xB8, 0xAD]"
  by (rule literal_segment_equivalent) (simp add: scalar_def)

end
