(* ===== verification/Backup_Options.thy ===== *)
theory Backup_Options
  imports Path_Filter Core_Errors
begin

text \<open>
  \<open>crates/kist-core/src/backup.rs\<close>: what a backup is asked for (\<open>BackupOptions\<close>, \<open>Exclusions\<close>, \<open>Marker\<close>),
  what it reports, and the position of an item in the exclusion rules (\<open>Named\<close>, \<open>Visit\<close>). The
  progress callback is left out; the platform is Unix. A string from outside is the list of its
  characters, its bytes are their UTF-8.
\<close>

record marker =
  mk_name :: bytes
  mk_header :: bytes

record exclusions =
  ex_patterns :: path_filter
  ex_if_present :: "marker list"
  ex_larger_than :: "nat option"
  ex_one_file_system :: bool

record backup_options =
  bo_client_id :: bytes
  bo_hostname :: string
  bo_username :: string
  bo_now :: "int option"
  bo_gc_grace :: nat
  bo_parity :: nat
  bo_exclude :: exclusions

record backup_report =
  br_chunks_new :: nat
  br_chunks_read :: nat
  br_packs_new :: nat
  br_packs_revived :: nat
  br_bytes_stored :: nat
  br_errors :: nat
  br_files_reused :: nat
  br_excluded :: nat

definition backup_report_default :: backup_report where
  "backup_report_default = \<lparr>br_chunks_new = 0, br_chunks_read = 0, br_packs_new = 0, br_packs_revived = 0,
     br_bytes_stored = 0, br_errors = 0, br_files_reused = 0, br_excluded = 0\<rparr>"

section \<open>Markers\<close>

definition split_once :: "'a \<Rightarrow> 'a list \<Rightarrow> ('a list \<times> 'a list) option" where
  "split_once x xs = (if x \<in> set xs then Some (takeWhile (\<lambda>y. y \<noteq> x) xs, tl (dropWhile (\<lambda>y. y \<noteq> x) xs)) else None)"

definition marker_parse :: "uchar list \<Rightarrow> core_error + marker" where
  "marker_parse spec =
     (let (name, header) = (case split_once (uc (CHR '':'')) spec of Some p \<Rightarrow> p | None \<Rightarrow> (spec, []))
      in if name = [] \<or> name = text_of ''.'' \<or> name = text_of ''..'' \<or> uc (CHR ''/'') \<in> set name \<or> 0 \<in> set name
         then Inl (Usage ''exclude marker: NAME must be a single file name (NAME or NAME:HEADER)'')
         else Inr \<lparr>mk_name = utf8_string name, mk_header = utf8_string header\<rparr>)"

definition cachedir_tag :: marker where
  "cachedir_tag = \<lparr>mk_name = ascii ''CACHEDIR.TAG'', mk_header = ascii ''Signature: 8a477f597d28d172789f06886806bc55''\<rparr>"

fun markers_parse :: "uchar list list \<Rightarrow> core_error + marker list" where
  "markers_parse [] = Inr []"
| "markers_parse (m # ms) = and_then (marker_parse m) (\<lambda>x. and_then (markers_parse ms) (\<lambda>xs. Inr (x # xs)))"

definition exclusions_new :: "path_filter \<Rightarrow> uchar list list \<Rightarrow> bool \<Rightarrow> nat option \<Rightarrow> bool \<Rightarrow> core_error + exclusions" where
  "exclusions_new patterns if_present exclude_caches larger_than one_file_system =
     and_then (markers_parse if_present) (\<lambda>markers.
       Inr \<lparr>ex_patterns = patterns, ex_if_present = markers @ (if exclude_caches then [cachedir_tag] else []),
            ex_larger_than = larger_than, ex_one_file_system = one_file_system\<rparr>)"

section \<open>Positions in the rules\<close>

record named =
  na_paths :: "bytes set"
  na_toward :: "bytes set"

definition parent_path :: "bytes \<Rightarrow> bytes option" where
  \<comment> \<open>\<open>rposition\<close> of the last slash and the slice before it\<close>
  "parent_path at = (if 0x2f \<in> set at then Some (rev (tl (dropWhile (\<lambda>b. b \<noteq> 0x2f) (rev at)))) else None)"

lemma dropWhile_to: "x \<notin> set ys \<Longrightarrow> dropWhile (\<lambda>b. b \<noteq> x) (ys @ x # zs) = x # zs"
  by (induction ys) auto

lemma parent_path_iff: "parent_path at = Some p \<longleftrightarrow> (\<exists>q. at = p @ 0x2f # q \<and> 0x2f \<notin> set q)"
proof
  assume "parent_path at = Some p"
  then have s: "0x2f \<in> set (rev at)" and p: "p = rev (tl (dropWhile (\<lambda>b. b \<noteq> 0x2f) (rev at)))"
    by (auto simp: parent_path_def split: if_splits)
  obtain ys zs where yz: "rev at = ys @ 0x2f # zs" "0x2f \<notin> set ys" using split_list_first [OF s] by blast
  then have "dropWhile (\<lambda>b. b \<noteq> 0x2f) (rev at) = 0x2f # zs" by (simp add: dropWhile_to)
  then have "at = p @ 0x2f # rev ys" using yz(1) p by (simp add: rev_swap)
  then show "\<exists>q. at = p @ 0x2f # q \<and> 0x2f \<notin> set q" using yz(2) by auto
next
  assume "\<exists>q. at = p @ 0x2f # q \<and> 0x2f \<notin> set q"
  then obtain q where q: "at = p @ 0x2f # q" "0x2f \<notin> set q" by blast
  then have "dropWhile (\<lambda>b. b \<noteq> 0x2f) (rev at) = 0x2f # rev p" by (simp add: dropWhile_to)
  with q show "parent_path at = Some p" by (simp add: parent_path_def)
qed

function ancestors :: "bytes \<Rightarrow> bytes list" where
  "ancestors at = (case parent_path at of None \<Rightarrow> [] | Some p \<Rightarrow> p # ancestors p)"
  by pat_completeness auto
termination
  by (relation "measure length") (auto simp: parent_path_iff)

declare ancestors.simps [simp del]

definition named_new :: "bytes list \<Rightarrow> named" where
  "named_new paths = \<lparr>na_paths = set paths, na_toward = set (concat (map ancestors paths))\<rparr>"

definition named_default :: named where "named_default = \<lparr>na_paths = {}, na_toward = {}\<rparr>"

record visit =
  vi_depth :: nat
  vi_filter :: filter_state
  vi_dev_bound :: "nat option"
  vi_pass_through :: bool
  vi_named :: bool
  vi_toward_named :: bool

definition visit_root :: "filter_state \<Rightarrow> nat option \<Rightarrow> visit" where
  "visit_root f dev = \<lparr>vi_depth = 1, vi_filter = f, vi_dev_bound = dev, vi_pass_through = False,
     vi_named = True, vi_toward_named = False\<rparr>"

definition join_rel :: "bytes \<Rightarrow> bytes \<Rightarrow> bytes" where
  "join_rel dir name = dir @ (if dir \<noteq> [] then [0x2f] else []) @ name"

text \<open>The directories that lead to a named path are exactly those its name starts with.\<close>

lemma set_ancestors: "set (ancestors at) = {p. \<exists>q. at = p @ 0x2f # q}"
proof (induction at rule: ancestors.induct)
  case (1 at)
  show ?case
  proof (cases "parent_path at")
    case None
    then show ?thesis by (auto simp: ancestors.simps [of at] parent_path_def split: if_splits)
  next
    case (Some p)
    then obtain q where q: "at = p @ 0x2f # q" "0x2f \<notin> set q" by (auto simp: parent_path_iff)
    have "(\<exists>r. at = x @ 0x2f # r) \<longleftrightarrow> x = p \<or> (\<exists>r. p = x @ 0x2f # r)" for x
      using q by (auto simp: append_eq_append_conv2 append_eq_Cons_conv Cons_eq_append_conv)
    with "1.IH" [OF Some] Some show ?thesis by (auto simp: ancestors.simps [of at])
  qed
qed

lemma named_new_toward: "p \<in> na_toward (named_new paths) \<longleftrightarrow> (\<exists>path \<in> set paths. \<exists>q. path = p @ 0x2f # q)"
  by (auto simp: named_new_def set_ancestors)

end
