(* ===== verification/Commit.thy ===== *)
theory Commit
  imports Backup_Options Prune_Exec
begin

text \<open>
  \<open>PreparedBackup::commit_at\<close>, \<open>commit_snapshot\<close> and \<open>find_parent\<close> of \<open>crates/kist-core/src/backup.rs\<close>:
  the checks between writing the data of a backup and writing its snapshot. A time is an
  \<open>OffsetDateTime\<close> in nanoseconds; adding a duration that leaves the calendar panics (\<open>None\<close>). The
  hash maps are association lists, iterated in the order of the list.
\<close>

definition GRACE_SAFETY_MARGIN :: nat where "GRACE_SAFETY_MARGIN = 3600 * 1000000000"

record prepared_backup =
  pb_options :: backup_options
  pb_started :: int
  pb_roots :: "root list"
  pb_parent_key :: "string option"
  pb_stats :: snapshot_stats
  pb_report :: backup_report
  pb_referenced :: "(object_id \<times> chunk_id list) list"
  pb_seen_trees :: "tree_id set"
  pb_marks_at_start :: "(object_id \<times> int) list"
  pb_own_packs :: "object_id set"

record backup_summary =
  bs_snapshot_key :: string
  bs_parent :: "string option"
  bs_roots :: "root list"
  bs_stats :: snapshot_stats
  bs_report :: backup_report

section \<open>Marks\<close>

definition insert_mark :: "ext \<Rightarrow> object_info \<Rightarrow> (object_id \<times> int) list \<Rightarrow> (object_id \<times> int) list" where
  "insert_mark ext ob acc =
     (case object_id_from_key ext (oi_key ob) of Inr i \<Rightarrow> AList.update i (modified_at ob) acc | Inl e \<Rightarrow> acc)"

definition list_gc_marks :: "'s repository \<Rightarrow> 's \<Rightarrow> core_error + (object_id \<times> int) list" where
  "list_gc_marks r s =
     and_then (map_err BackendE (backend_list (rp_ops r) GC_PREFIX s))
       (\<lambda>listed. Inr (fold (insert_mark (rp_ext r)) listed []))"

section \<open>The referenced chunks\<close>

definition pack_expired :: "(object_id \<times> int) list \<Rightarrow> nat \<Rightarrow> int \<Rightarrow> object_id \<Rightarrow> bool option" where
  "pack_expired marks grace now pack =
     (case map_of marks pack of None \<Rightarrow> Some False
      | Some m \<Rightarrow> map_option (\<lambda>due. due \<le> now) (time_add m grace))"

definition pack_usable :: "'s repository \<Rightarrow> 's \<Rightarrow> (object_id \<times> int) list \<Rightarrow> nat \<Rightarrow> int \<Rightarrow> object_id \<Rightarrow> (core_error + bool) option" where
  "pack_usable r s marks grace now pack =
     (case pack_expired marks grace now pack of
        None \<Rightarrow> None
      | Some True \<Rightarrow> Some (Inr False)
      | Some False \<Rightarrow> Some (map_err BackendE (backend_exists (rp_ops r) (pack_key (rp_ext r) pack) s)))"

definition cached_usable :: "(object_id \<Rightarrow> (core_error + bool) option) \<Rightarrow> (object_id \<times> bool) list \<Rightarrow> object_id \<Rightarrow>
    (core_error + bool \<times> (object_id \<times> bool) list) option" where
  \<comment> \<open>the map \<open>pack_ok\<close>\<close>
  "cached_usable usable cache pack =
     (case map_of cache pack of
        Some ok \<Rightarrow> Some (Inr (ok, cache))
      | None \<Rightarrow> run_then (usable pack) (\<lambda>ok. Some (Inr (ok, (pack, ok) # cache))))"

fun verify_chunks :: "chunk_index \<Rightarrow> (object_id \<Rightarrow> (core_error + bool) option) \<Rightarrow> object_id \<Rightarrow> chunk_id list \<Rightarrow>
    (object_id \<times> bool) list \<Rightarrow> (core_error + (object_id \<times> bool) list) option" where
  "verify_chunks fresh usable old_pack [] cache = Some (Inr cache)"
| "verify_chunks fresh usable old_pack (c # cs) cache =
     (case index_get fresh c of
        None \<Rightarrow> Some (Inl (PackMissing old_pack (Some c)))
      | Some loc \<Rightarrow> run_then (cached_usable usable cache (lo_pack loc)) (\<lambda>(ok, cache').
          if \<not> ok then Some (Inl (PackMissing (lo_pack loc) (Some c)))
          else verify_chunks fresh usable old_pack cs cache'))"

fun verify_packs :: "chunk_index \<Rightarrow> (object_id \<Rightarrow> (core_error + bool) option) \<Rightarrow> object_id set \<Rightarrow>
    (object_id \<times> chunk_id list) list \<Rightarrow> (object_id \<times> bool) list \<Rightarrow> (core_error + unit) option" where
  "verify_packs fresh usable own [] cache = Some (Inr ())"
| "verify_packs fresh usable own ((old_pack, chunks) # rest) cache =
     (if old_pack \<in> own then verify_packs fresh usable own rest cache
      else run_then (verify_chunks fresh usable old_pack chunks cache) (verify_packs fresh usable own rest))"

definition verify_referenced_chunks :: "'s repository \<Rightarrow> 's \<Rightarrow> (object_id \<times> chunk_id list) list \<Rightarrow> object_id set \<Rightarrow>
    (object_id \<times> int) list \<Rightarrow> nat \<Rightarrow> int \<Rightarrow> (core_error + unit) option" where
  "verify_referenced_chunks r s referenced own marks grace now =
     (if referenced = [] then Some (Inr ())
      else run_then (Some (load_index_for_backup r s (\<lambda>p. map_of marks p \<noteq> None))) (\<lambda>fresh.
        verify_packs fresh (pack_usable r s marks grace now) own referenced []))"

section \<open>The touched trees\<close>

definition not_found_is_marked :: "object_id \<Rightarrow> backend_error \<Rightarrow> core_error" where
  "not_found_is_marked i e = (case e of ObjNotFound k \<Rightarrow> TreeMarked i | _ \<Rightarrow> BackendE e)"

definition head_tree_and_touch :: "'s repository \<Rightarrow> 's \<Rightarrow> tree_id \<Rightarrow> int \<Rightarrow> core_error + unit" where
  "head_tree_and_touch r s t marked_at =
     and_then (map_err (not_found_is_marked (tree_object t)) (backend_head (rp_ops r) (tree_key (rp_ext r) t) s)) (\<lambda>_.
       and_then (map_err (not_found_is_marked (tree_object t)) (backend_head (rp_ops r) (touch_key (rp_ext r) t) s)) (\<lambda>touch.
         if modified_at touch < marked_at then Inl (TreeMarked (tree_object t)) else Inr ()))"

fun verify_marked_now :: "'s repository \<Rightarrow> 's \<Rightarrow> object_id set \<Rightarrow> nat \<Rightarrow> int \<Rightarrow> (object_id \<times> int) list \<Rightarrow> (core_error + unit) option" where
  "verify_marked_now r s seen grace now [] = Some (Inr ())"
| "verify_marked_now r s seen grace now ((i, marked_at) # rest) =
     (case time_add marked_at grace of
        None \<Rightarrow> None
      | Some due \<Rightarrow>
          if due > now \<or> i \<notin> seen then verify_marked_now r s seen grace now rest
          else run_then (Some (head_tree_and_touch r s (as_tree i) marked_at)) (\<lambda>_.
            verify_marked_now r s seen grace now rest))"

fun verify_marked_at_start :: "'s repository \<Rightarrow> 's \<Rightarrow> object_id set \<Rightarrow> (object_id \<times> int) list \<Rightarrow> core_error + unit" where
  "verify_marked_at_start r s seen [] = Inr ()"
| "verify_marked_at_start r s seen ((i, marked_at) # rest) =
     (if i \<notin> seen then verify_marked_at_start r s seen rest
      else and_then (head_tree_and_touch r s (as_tree i) marked_at) (\<lambda>_. verify_marked_at_start r s seen rest))"

definition verify_touched_trees :: "'s repository \<Rightarrow> 's \<Rightarrow> tree_id set \<Rightarrow> (object_id \<times> int) list \<Rightarrow>
    (object_id \<times> int) list \<Rightarrow> nat \<Rightarrow> int \<Rightarrow> (core_error + unit) option" where
  "verify_touched_trees r s seen marks_at_start marks grace now =
     run_then (verify_marked_now r s (tree_object ` seen) grace now marks) (\<lambda>_.
       Some (verify_marked_at_start r s (tree_object ` seen) marks_at_start))"

section \<open>Writing the snapshot\<close>

definition backup_snapshot :: "backup_options \<Rightarrow> int \<Rightarrow> root list \<Rightarrow> string option \<Rightarrow> snapshot_stats \<Rightarrow> snapshot" where
  "backup_snapshot opts now roots parent stats = \<lparr>sn_version = FORMAT_VERSION, sn_roots = roots, sn_time_ns = now,
     sn_host = bo_hostname opts, sn_user = bo_username opts, sn_client_id = bo_client_id opts,
     sn_parent = parent, sn_stats = stats\<rparr>"

fun commit_attempts :: "'s repository \<Rightarrow> (nat \<Rightarrow> string + bytes) \<Rightarrow> backup_options \<Rightarrow> int \<Rightarrow> root list \<Rightarrow> string option \<Rightarrow>
    snapshot_stats \<Rightarrow> nat list \<Rightarrow> 's \<Rightarrow> ((core_error + string) \<times> 's) option" where
  "commit_attempts r rnd opts started roots parent stats [] s =
     Some (Inl (BackendE (ObjAlreadyExists ''snapshot key collided three times'')), s)"
| "commit_attempts r rnd opts started roots parent stats (a # as) s =
     (case time_add started a of
        None \<Rightarrow> None
      | Some now \<Rightarrow>
          (case format_key_timestamp (rp_env r) now of
             Inl e \<Rightarrow> Some (Inl (FormatE e), s)
           | Inr ts \<Rightarrow>
               (let key = snapshot_key (rp_ext r) (bo_client_id opts) ts
                in if \<not> fits_i64 now then Some (Inl (Corrupt key ''timestamp out of range''), s)
                   else (case write_snapshot r (rnd a) key (backup_snapshot opts now roots parent stats) s of
                       (Inr u, s') \<Rightarrow> Some (Inr key, s')
                     | (Inl (BackendE (ObjAlreadyExists k)), s') \<Rightarrow>
                         commit_attempts r rnd opts started roots parent stats as s'
                     | (Inl e, s') \<Rightarrow> Some (Inl e, s')))))"

definition commit_snapshot :: "'s repository \<Rightarrow> (nat \<Rightarrow> string + bytes) \<Rightarrow> backup_options \<Rightarrow> int \<Rightarrow> root list \<Rightarrow> string option \<Rightarrow>
    snapshot_stats \<Rightarrow> 's \<Rightarrow> ((core_error + string) \<times> 's) option" where
  "commit_snapshot r rnd opts started roots parent stats = commit_attempts r rnd opts started roots parent stats [0, 1, 2]"

section \<open>Committing\<close>

definition whole_seconds :: "int \<Rightarrow> int" where
  "whole_seconds d = (if d < 0 then - (- d div NANOS) else d div NANOS)"

definition grace_check :: "int \<Rightarrow> int \<Rightarrow> nat \<Rightarrow> core_error + unit" where
  "grace_check started now grace =
     and_then (to_time_duration grace ''gc_grace is too large'') (\<lambda>g.
       let elapsed = now - started; margin = min GRACE_SAFETY_MARGIN (g div 2)
       in if elapsed + int margin \<ge> int g
          then Inl (BackupTooLong (whole_seconds elapsed) (grace div 1000000000)) else Inr ())"

definition commit_checks :: "'s repository \<Rightarrow> prepared_backup \<Rightarrow> int \<Rightarrow> 's \<Rightarrow> (core_error + unit) option" where
  "commit_checks r b now s =
     (let grace = bo_gc_grace (pb_options b)
      in run_then (Some (grace_check (pb_started b) now grace)) (\<lambda>_.
           run_then (Some (list_gc_marks r s)) (\<lambda>marks.
             run_then (verify_referenced_chunks r s (pb_referenced b) (pb_own_packs b) marks grace now) (\<lambda>_.
               verify_touched_trees r s (pb_seen_trees b) (pb_marks_at_start b) marks grace now))))"

definition commit_at :: "'s repository \<Rightarrow> (nat \<Rightarrow> string + bytes) \<Rightarrow> prepared_backup \<Rightarrow> int \<Rightarrow> 's \<Rightarrow>
    ((core_error + backup_summary) \<times> 's) option" where
  "commit_at r rnd b now s =
     (case commit_checks r b now s of
        None \<Rightarrow> None
      | Some (Inl e) \<Rightarrow> Some (Inl e, s)
      | Some (Inr u) \<Rightarrow>
          map_option (\<lambda>(res, s'). (and_then res (\<lambda>key. Inr \<lparr>bs_snapshot_key = key, bs_parent = pb_parent_key b,
              bs_roots = pb_roots b, bs_stats = pb_stats b, bs_report = pb_report b\<rparr>), s'))
            (commit_snapshot r rnd (pb_options b) (pb_started b) (pb_roots b) (pb_parent_key b) (pb_stats b) s))"

section \<open>The parent\<close>

definition find_parent :: "'s repository \<Rightarrow> 's \<Rightarrow> bytes \<Rightarrow> bytes list \<Rightarrow> core_error + (string \<times> snapshot) option" where
  "find_parent r s client paths =
     and_then (map_err BackendE (backend_list (rp_ops r) (snapshot_prefix (rp_ext r) client) s)) (\<lambda>listed.
       let ks = sort (filter (\<lambda>k. \<not> ends_with k REPLICA_SUFFIX) (map oi_key listed))
       in if ks = [] then Inr None
          else (case read_snapshot r s (last ks) of
              Inl e \<Rightarrow> Inr None
            | Inr snap \<Rightarrow> Inr (if map rt_path (sn_roots snap) = paths then Some (last ks, snap) else None)))"

text \<open>The parent is the newest snapshot of the client, and only if it reads and has the same roots.\<close>

lemma find_parent_newest:
  assumes "store_ok (rp_ops r) objs" "find_parent r s client paths = Inr (Some (key, snap))"
  shows "objs s key \<noteq> None" "under_prefix (snapshot_prefix (rp_ext r) client) key" "\<not> ends_with key REPLICA_SUFFIX"
    and "objs s k \<noteq> None \<Longrightarrow> under_prefix (snapshot_prefix (rp_ext r) client) k \<Longrightarrow> \<not> ends_with k REPLICA_SUFFIX \<Longrightarrow> k \<le> key"
    and "read_snapshot r s key = Inr snap" "map rt_path (sn_roots snap) = paths"
proof -
  from assms(2) obtain listed where l: "backend_list (rp_ops r) (snapshot_prefix (rp_ext r) client) s = Inr listed"
    and f: "sort (filter (\<lambda>k. \<not> ends_with k REPLICA_SUFFIX) (map oi_key listed)) \<noteq> []"
    and key: "key = last (sort (filter (\<lambda>k. \<not> ends_with k REPLICA_SUFFIX) (map oi_key listed)))"
    and rd: "read_snapshot r s key = Inr snap" and paths: "map rt_path (sn_roots snap) = paths"
    by (auto simp: find_parent_def Let_def result_simps split: if_splits sum.splits)
  let ?ks = "filter (\<lambda>k. \<not> ends_with k REPLICA_SUFFIX) (map oi_key listed)"
  have mem: "x \<in> set ?ks \<longleftrightarrow> objs s x \<noteq> None \<and> under_prefix (snapshot_prefix (rp_ext r) client) x \<and> \<not> ends_with x REPLICA_SUFFIX" for x
    using backend_list_objs(2) [OF assms(1) l] by (auto simp: set_eq_iff image_iff)
  have "key \<in> set (sort ?ks)" using key f by (metis last_in_set)
  then have "key \<in> set ?ks" by (simp only: set_sort)
  then show "objs s key \<noteq> None" "under_prefix (snapshot_prefix (rp_ext r) client) key" "\<not> ends_with key REPLICA_SUFFIX"
    unfolding mem by blast+
  show "k \<le> key" if "objs s k \<noteq> None" "under_prefix (snapshot_prefix (rp_ext r) client) k" "\<not> ends_with k REPLICA_SUFFIX"
  proof -
    have "k \<in> set (sort ?ks)" using that mem by (simp only: set_sort) blast
    then obtain i where i: "i < length (sort ?ks)" "sort ?ks ! i = k" by (metis in_set_conv_nth)
    have "sort ?ks ! i \<le> sort ?ks ! (length (sort ?ks) - 1)"
      using i(1) by (intro sorted_nth_mono) auto
    then show ?thesis unfolding key using i(2) last_conv_nth [OF f] by simp
  qed
  show "read_snapshot r s key = Inr snap" "map rt_path (sn_roots snap) = paths" by (rule rd, rule paths)
qed

section \<open>What the checks establish\<close>

definition pack_held :: "ext \<Rightarrow> objects \<Rightarrow> (object_id \<times> int) list \<Rightarrow> nat \<Rightarrow> int \<Rightarrow> object_id \<Rightarrow> bool" where
  \<comment> \<open>stored, and no mark of it has reached the end of its grace period\<close>
  "pack_held ext ob marks grace now p \<longleftrightarrow> ob (pack_key ext p) \<noteq> None
     \<and> (\<forall>m. map_of marks p = Some m \<longrightarrow> now < m + int grace)"

definition tree_touched :: "ext \<Rightarrow> objects \<Rightarrow> tree_id \<Rightarrow> int \<Rightarrow> bool" where
  \<comment> \<open>stored, and touched at or after the time \<open>m\<close>\<close>
  "tree_touched ext ob t m \<longleftrightarrow> ob (tree_key ext t) \<noteq> None
     \<and> (\<exists>bs tm. ob (touch_key ext t) = Some (bs, tm) \<and> m \<le> tm * NANOS)"

lemma pack_usable_held:
  assumes "store_ok (rp_ops r) objs" "pack_usable r s marks grace now p = Some (Inr True)"
  shows "pack_held (rp_ext r) (objs s) marks grace now p"
proof -
  have x: "backend_exists (rp_ops r) (pack_key (rp_ext r) p) s = Inr True" and e: "pack_expired marks grace now p = Some False"
    using assms(2) by (auto simp: pack_usable_def result_simps split: option.splits bool.splits)
  then obtain h where "backend_head (rp_ops r) (pack_key (rp_ext r) p) s = Inr h"
    by (auto simp: backend_exists_def backend_size_def result_simps split: sum.splits backend_error.splits)
  from backend_head_objs(1) [OF assms(1) this] have "objs s (pack_key (rp_ext r) p) \<noteq> None" by auto
  with e show ?thesis
    by (auto simp: pack_held_def pack_expired_def time_add_def split: option.splits if_splits)
qed

definition cache_ok :: "(object_id \<Rightarrow> (core_error + bool) option) \<Rightarrow> (object_id \<times> bool) list \<Rightarrow> bool" where
  "cache_ok usable cache \<longleftrightarrow> (\<forall>p. map_of cache p = Some True \<longrightarrow> usable p = Some (Inr True))"

lemma cached_usable_True:
  "cache_ok usable cache \<Longrightarrow> cached_usable usable cache p = Some (Inr (ok, cache')) \<Longrightarrow>
     cache_ok usable cache' \<and> (ok \<longrightarrow> usable p = Some (Inr True))"
  by (auto simp: cached_usable_def cache_ok_def result_simps split: option.splits if_splits)

lemma verify_chunks_Inr:
  "cache_ok usable cache \<Longrightarrow> verify_chunks fresh usable old_pack cs cache = Some (Inr cache') \<Longrightarrow>
     cache_ok usable cache' \<and> (\<forall>c \<in> set cs. \<exists>loc. index_get fresh c = Some loc \<and> usable (lo_pack loc) = Some (Inr True))"
proof (induction cs arbitrary: cache)
  case Nil
  then show ?case by simp
next
  case (Cons c cs)
  from Cons.prems(2) obtain loc ok cache1 where g: "index_get fresh c = Some loc"
    and u: "cached_usable usable cache (lo_pack loc) = Some (Inr (ok, cache1))" and ok
    and v: "verify_chunks fresh usable old_pack cs cache1 = Some (Inr cache')"
    by (auto simp: result_simps split: option.splits if_splits)
  from cached_usable_True [OF Cons.prems(1) u] \<open>ok\<close> Cons.IH [OF _ v] g show ?case by auto
qed

lemma verify_packs_Inr:
  "cache_ok usable cache \<Longrightarrow> verify_packs fresh usable own refs cache = Some (Inr u) \<Longrightarrow>
     (old_pack, cs) \<in> set refs \<Longrightarrow> old_pack \<notin> own \<Longrightarrow> c \<in> set cs \<Longrightarrow>
     \<exists>loc. index_get fresh c = Some loc \<and> usable (lo_pack loc) = Some (Inr True)"
proof (induction refs arbitrary: cache)
  case Nil
  then show ?case by simp
next
  case (Cons ref refs)
  obtain q ds where ref: "ref = (q, ds)" by force
  show ?case
  proof (cases "q \<in> own")
    case True
    with Cons ref show ?thesis by auto
  next
    case False
    with Cons.prems(2) ref obtain cache1 where v: "verify_chunks fresh usable q ds cache = Some (Inr cache1)"
      and rest: "verify_packs fresh usable own refs cache1 = Some (Inr u)" by (auto simp: result_simps)
    from verify_chunks_Inr [OF Cons.prems(1) v] Cons.IH [OF _ rest] Cons.prems(3-5) ref show ?thesis by auto
  qed
qed

lemma referenced_chunks_held:
  assumes "store_ok (rp_ops r) objs" "verify_referenced_chunks r s refs own marks grace now = Some (Inr u)"
    "(old_pack, cs) \<in> set refs" "old_pack \<notin> own" "c \<in> set cs"
  shows "\<exists>fresh loc. load_index_for_backup r s (\<lambda>p. map_of marks p \<noteq> None) = Inr fresh
    \<and> index_get fresh c = Some loc \<and> pack_held (rp_ext r) (objs s) marks grace now (lo_pack loc)"
proof -
  from assms(2,3) obtain fresh where f: "load_index_for_backup r s (\<lambda>p. map_of marks p \<noteq> None) = Inr fresh"
    and v: "verify_packs fresh (pack_usable r s marks grace now) own refs [] = Some (Inr u)"
    by (auto simp: verify_referenced_chunks_def result_simps split: if_splits)
  from verify_packs_Inr [OF _ v assms(3-5)] f pack_usable_held [OF assms(1)]
  show ?thesis by (fastforce simp: cache_ok_def)
qed

lemma head_tree_and_touch_Inr:
  assumes "store_ok (rp_ops r) objs" "head_tree_and_touch r s t m = Inr u"
  shows "tree_touched (rp_ext r) (objs s) t m"
proof -
  from assms(2) obtain h h' where "backend_head (rp_ops r) (tree_key (rp_ext r) t) s = Inr h"
    and "backend_head (rp_ops r) (touch_key (rp_ext r) t) s = Inr h'" and "m \<le> modified_at h'"
    by (auto simp: head_tree_and_touch_def result_simps split: if_splits)
  with backend_head_objs(1) [OF assms(1)] show ?thesis by (fastforce simp: tree_touched_def modified_at_def)
qed

lemma verify_marked_now_Inr:
  assumes "store_ok (rp_ops r) objs"
  shows "verify_marked_now r s seen grace now marks = Some (Inr u) \<Longrightarrow> (i, m) \<in> set marks \<Longrightarrow> i \<in> seen \<Longrightarrow>
    m + int grace \<le> now \<Longrightarrow> tree_touched (rp_ext r) (objs s) (as_tree i) m"
  using head_tree_and_touch_Inr [OF assms]
  by (induction marks) (fastforce simp: result_simps time_add_def simp del: as_tree_object split: option.splits if_splits)+

lemma verify_marked_at_start_Inr:
  assumes "store_ok (rp_ops r) objs"
  shows "verify_marked_at_start r s seen marks = Inr u \<Longrightarrow> (i, m) \<in> set marks \<Longrightarrow> i \<in> seen \<Longrightarrow>
    tree_touched (rp_ext r) (objs s) (as_tree i) m"
  using head_tree_and_touch_Inr [OF assms]
  by (induction marks) (fastforce simp: result_simps simp del: as_tree_object split: if_splits)+

lemma touched_trees_ok:
  assumes "store_ok (rp_ops r) objs" "verify_touched_trees r s seen start marks grace now = Some (Inr u)" "t \<in> seen"
    "map_of start (tree_object t) = Some m \<or> map_of marks (tree_object t) = Some m \<and> m + int grace \<le> now"
  shows "tree_touched (rp_ext r) (objs s) t m"
proof -
  have seen: "tree_object t \<in> tree_object ` seen" using assms(3) by blast
  have t: "as_tree (tree_object t) = t" by simp
  from assms(2) have now: "verify_marked_now r s (tree_object ` seen) grace now marks = Some (Inr ())"
    and at: "verify_marked_at_start r s (tree_object ` seen) start = Inr ()"
    by (auto simp: verify_touched_trees_def result_simps)
  from assms(4) show ?thesis
  proof
    assume "map_of start (tree_object t) = Some m"
    from verify_marked_at_start_Inr [OF assms(1) at map_of_SomeD [OF this] seen] show ?thesis by (simp only: t)
  next
    assume m: "map_of marks (tree_object t) = Some m \<and> m + int grace \<le> now"
    from verify_marked_now_Inr [OF assms(1) now map_of_SomeD [OF m [THEN conjunct1]] seen m [THEN conjunct2]]
    show ?thesis by (simp only: t)
  qed
qed

section \<open>The commit\<close>

definition snapshot_keys :: "'s repository \<Rightarrow> bytes \<Rightarrow> string set" where
  "snapshot_keys r client = {k. \<exists>ts. k = snapshot_key (rp_ext r) client ts \<or> k = snapshot_key (rp_ext r) client ts @ REPLICA_SUFFIX}"

lemma commit_attempts_effect:
  assumes "store_ok (rp_ops r) objs"
  shows "commit_attempts r rnd opts started roots parent stats as s = Some (res, s') \<Longrightarrow>
    (\<forall>k. objs s k \<noteq> None \<longrightarrow> objs s' k = objs s k)
    \<and> (\<forall>k. objs s' k \<noteq> objs s k \<longrightarrow> k \<in> snapshot_keys r (bo_client_id opts))
    \<and> (\<forall>key. res = Inr key \<longrightarrow> objs s key = None \<and> objs s' key \<noteq> None
        \<and> (\<exists>a \<in> set as. \<exists>os bs plain tm. objs s' key = Some (bs, tm)
             \<and> seal_snapshot (rp_ext r) os (rp_keys r) key plain = Inr bs
             \<and> cbor_encode (ev_snapshot (rp_env r)) (backup_snapshot opts (started + int a) roots parent stats) = Inr plain))"
proof (induction as arbitrary: s)
  case Nil
  then show ?case by auto
next
  case (Cons a as)
  obtain now where n: "time_add started a = Some now" using Cons.prems by (auto split: option.splits)
  then have now: "now = started + int a" by (auto simp: time_add_def split: if_splits)
  show ?case
  proof (cases "format_key_timestamp (rp_env r) now")
    case (Inl e)
    with Cons.prems n show ?thesis by auto
  next
    case (Inr ts)
    let ?key = "snapshot_key (rp_ext r) (bo_client_id opts) ts"
    let ?snap = "backup_snapshot opts now roots parent stats"
    have ck: "?key \<in> snapshot_keys r (bo_client_id opts)" "?key @ REPLICA_SUFFIX \<in> snapshot_keys r (bo_client_id opts)"
      by (auto simp: snapshot_keys_def)
    obtain q s1 where w: "write_snapshot r (rnd a) ?key ?snap s = (q, s1)" by force
    note eff = write_snapshot_effect [OF assms w]
    have keep: "\<forall>k. objs s k \<noteq> None \<longrightarrow> objs s1 k = objs s k"
      and only: "\<forall>k. objs s1 k \<noteq> objs s k \<longrightarrow> k \<in> snapshot_keys r (bo_client_id opts)"
      and new: "q = Inr () \<longrightarrow> objs s ?key = None \<and> objs s1 ?key \<noteq> None"
      using eff ck by blast+
    show ?thesis
    proof (cases "fits_i64 now")
      case False
      with Cons.prems n Inr show ?thesis by (auto simp: Let_def)
    next
      case True
      consider (good) "q = Inr ()" "res = Inr ?key" "s' = s1"
        | (again) k where "q = Inl (BackendE (ObjAlreadyExists k))"
            "commit_attempts r rnd opts started roots parent stats as s1 = Some (res, s')"
        | (bad) e where "res = Inl e" "s' = s1"
        using Cons.prems n Inr w True by (auto split: sum.splits core_error.splits backend_error.splits)
      then show ?thesis
      proof cases
        case good
        have b: "\<exists>bs plain tm. objs s' ?key = Some (bs, tm) \<and> seal_snapshot (rp_ext r) (rnd a) (rp_keys r) ?key plain = Inr bs
            \<and> cbor_encode (ev_snapshot (rp_env r)) ?snap = Inr plain"
          using w
        proof (cases rule: write_snapshot_cases)
          case (main bs plain s0 p)
          with good have "p = Inr ()" by (auto simp: result_simps)
          with backend_put_if_absent_objs(1) [OF assms main(5)] main good show ?thesis by auto
        qed (use good in auto)
        then have "\<exists>a \<in> set (a # as). \<exists>os bs plain tm. objs s' ?key = Some (bs, tm)
             \<and> seal_snapshot (rp_ext r) os (rp_keys r) ?key plain = Inr bs
             \<and> cbor_encode (ev_snapshot (rp_env r)) (backup_snapshot opts (started + int a) roots parent stats) = Inr plain"
          using now by auto
        then show ?thesis using keep only new good by simp
      next
        case again
        note IH = Cons.IH [OF again(2)]
        have "objs s key = None" if "res = Inr key" for key
          using IH that keep by (metis option.distinct(1))
        with IH keep only show ?thesis by (intro conjI) (metis, metis, metis list.set_intros(2))
      next
        case bad
        with keep only show ?thesis by simp
      qed
    qed
  qed
qed

lemma commit_at_Some:
  assumes "commit_at r rnd b now s = Some (res, s')"
  obtains (refused) e where "commit_checks r b now s = Some (Inl e)" "res = Inl e" "s' = s"
  | (passed) q where "commit_checks r b now s = Some (Inr ())"
      "commit_snapshot r rnd (pb_options b) (pb_started b) (pb_roots b) (pb_parent_key b) (pb_stats b) s = Some (q, s')"
      "res = and_then q (\<lambda>key. Inr \<lparr>bs_snapshot_key = key, bs_parent = pb_parent_key b,
              bs_roots = pb_roots b, bs_stats = pb_stats b, bs_report = pb_report b\<rparr>)"
proof (cases "commit_checks r b now s")
  case None
  with assms show ?thesis by (simp add: commit_at_def)
next
  case (Some c)
  show ?thesis
  proof (cases c)
    case (Inl e)
    with Some assms show ?thesis by (intro refused [of e]) (auto simp: commit_at_def)
  next
    case (Inr u)
    with Some assms show ?thesis by (auto simp: commit_at_def intro!: passed)
  qed
qed

lemma commit_checks_Inr:
  assumes "commit_checks r b now s = Some (Inr u)"
  obtains marks where "grace_check (pb_started b) now (bo_gc_grace (pb_options b)) = Inr ()" "list_gc_marks r s = Inr marks"
    "verify_referenced_chunks r s (pb_referenced b) (pb_own_packs b) marks (bo_gc_grace (pb_options b)) now = Some (Inr ())"
    "verify_touched_trees r s (pb_seen_trees b) (pb_marks_at_start b) marks (bo_gc_grace (pb_options b)) now = Some (Inr ())"
  using assms that by (auto simp: commit_checks_def Let_def result_simps)

definition chunk_safe :: "'s repository \<Rightarrow> 's \<Rightarrow> (object_id \<times> int) list \<Rightarrow> (object_id \<Rightarrow> bool) \<Rightarrow> chunk_id \<Rightarrow> bool" where
  \<comment> \<open>the index of a backup that starts now resolves the chunk to a pack with the property\<close>
  "chunk_safe r s marks P c \<longleftrightarrow> (\<exists>fresh loc. load_index_for_backup r s (\<lambda>p. map_of marks p \<noteq> None) = Inr fresh
     \<and> index_get fresh c = Some loc \<and> P (lo_pack loc))"

lemma grace_check_iff:
  "grace_check started now grace = Inr () \<longleftrightarrow>
     grace div 1000000000 < 2 ^ 63 \<and> now - started + int (min GRACE_SAFETY_MARGIN (grace div 2)) < int grace"
  by (auto simp: grace_check_def to_time_duration_def Let_def result_simps)

text \<open>
  C20: a backup becomes a snapshot only over data that is still there. When a commit succeeds, the
  backup took less than the grace period by the safety margin; every chunk it shares with earlier
  backups resolves, in the index loaded again, to a pack that is stored and whose mark, if it has
  one, is not past its grace period; every tree it reaches that was marked when it started, or whose
  mark is past its grace period now, is stored and was touched since the mark; and the object written
  under a name that was free is the sealed snapshot with the roots of the backup.
\<close>

theorem commit_only_verified:
  assumes "store_ok (rp_ops r) objs" "commit_at r rnd b now s = Some (Inr sm, s')"
  shows "now - pb_started b + int (min GRACE_SAFETY_MARGIN (bo_gc_grace (pb_options b) div 2)) < int (bo_gc_grace (pb_options b))
    \<and> (\<exists>marks. list_gc_marks r s = Inr marks
        \<and> (\<forall>(old_pack, cs) \<in> set (pb_referenced b). old_pack \<notin> pb_own_packs b \<longrightarrow>
             (\<forall>c \<in> set cs. chunk_safe r s marks (pack_held (rp_ext r) (objs s) marks (bo_gc_grace (pb_options b)) now) c))
        \<and> (\<forall>t \<in> pb_seen_trees b. \<forall>m. map_of (pb_marks_at_start b) (tree_object t) = Some m
               \<or> map_of marks (tree_object t) = Some m \<and> m + int (bo_gc_grace (pb_options b)) \<le> now
             \<longrightarrow> tree_touched (rp_ext r) (objs s) t m))
    \<and> objs s (bs_snapshot_key sm) = None
    \<and> (\<exists>a \<in> set [0, 1, 2]. \<exists>os bs plain tm. objs s' (bs_snapshot_key sm) = Some (bs, tm)
        \<and> seal_snapshot (rp_ext r) os (rp_keys r) (bs_snapshot_key sm) plain = Inr bs
        \<and> cbor_encode (ev_snapshot (rp_env r)) (backup_snapshot (pb_options b) (pb_started b + int a)
            (pb_roots b) (pb_parent_key b) (pb_stats b)) = Inr plain)"
  using assms(2)
proof (cases rule: commit_at_Some)
  case (passed q)
  obtain key where key: "q = Inr key" "bs_snapshot_key sm = key" using passed(3) by (cases q) auto
  obtain marks where ok: "grace_check (pb_started b) now (bo_gc_grace (pb_options b)) = Inr ()" "list_gc_marks r s = Inr marks"
    "verify_referenced_chunks r s (pb_referenced b) (pb_own_packs b) marks (bo_gc_grace (pb_options b)) now = Some (Inr ())"
    "verify_touched_trees r s (pb_seen_trees b) (pb_marks_at_start b) marks (bo_gc_grace (pb_options b)) now = Some (Inr ())"
    by (rule commit_checks_Inr [OF passed(1)])
  note chunks = referenced_chunks_held [OF assms(1) ok(3)] and trees = touched_trees_ok [OF assms(1) ok(4)]
  from commit_attempts_effect [OF assms(1) passed(2) [unfolded commit_snapshot_def]] key(1)
  have free: "objs s key = None" and sealed: "\<exists>a \<in> set [0, 1, 2]. \<exists>os bs plain tm. objs s' key = Some (bs, tm)
        \<and> seal_snapshot (rp_ext r) os (rp_keys r) key plain = Inr bs
        \<and> cbor_encode (ev_snapshot (rp_env r)) (backup_snapshot (pb_options b) (pb_started b + int a)
            (pb_roots b) (pb_parent_key b) (pb_stats b)) = Inr plain"
    by blast+
  show ?thesis
    unfolding key(2)
  proof (intro conjI free sealed exI [of _ marks] ok(2))
    show "now - pb_started b + int (min GRACE_SAFETY_MARGIN (bo_gc_grace (pb_options b) div 2)) < int (bo_gc_grace (pb_options b))"
      using ok(1) by (simp add: grace_check_iff)
  qed (use chunks trees in \<open>auto simp: chunk_safe_def\<close>)
qed simp

text \<open>
  C21: committing never harms what is stored. Whatever the outcome - success, a failed check, a write
  that was applied although it reported a failure - every object that existed is unchanged and
  only snapshot objects of this client, or their replicas, can appear; a backup that fails a check
  leaves the store exactly as it was.
\<close>

theorem commit_adds_only_snapshots:
  assumes "store_ok (rp_ops r) objs" "commit_at r rnd b now s = Some (res, s')"
  shows "(\<forall>k. objs s k \<noteq> None \<longrightarrow> objs s' k = objs s k)
    \<and> (\<forall>k. objs s' k \<noteq> objs s k \<longrightarrow> k \<in> snapshot_keys r (bo_client_id (pb_options b)))
    \<and> (\<forall>e. commit_checks r b now s = Some (Inl e) \<longrightarrow> res = Inl e \<and> s' = s)"
  using assms(2)
proof (cases rule: commit_at_Some)
  case (passed q)
  with commit_attempts_effect [OF assms(1) passed(2) [unfolded commit_snapshot_def]] show ?thesis by simp
qed simp

section \<open>A prune that was planned before the commit\<close>

lemma planned_past_grace:
  assumes "prune_plan r opts clock s = Some (Inr p)" "prune_observe r s = Some (Inr v)" "(t, mark) \<in> set (pl_to_delete p)"
  shows "map_of (pv_marks v) (tg_id t) = Some mark" "modified_at mark + int (po_grace opts) \<le> plan_now opts clock"
proof -
  obtain v' where v': "prune_observe r s = Some (Inr v')"
    and d: "prune_decide r opts (plan_now opts clock) (po_grace opts) (po_inactive_after opts) v' = Some (Inr p)"
    by (rule prune_plan_SomeE [OF assms(1)])
  have "v' = v" using v' assms(2) by simp
  with d obtain newest m where
      m: "decide_marks (mark_fate (pv_lists v) (is_live v) (po_grace opts) (plan_now opts clock) newest) (pv_marks v) no_marks = Some m"
    and del: "set (pl_to_delete p) = set (mt_delete m)"
    by (elim prune_decide_SomeE) auto
  from decide_marks_Some [OF m] assms(3) obtain i where i: "(i, mark) \<in> set (pv_marks v)"
    and f: "mark_fate (pv_lists v) (is_live v) (po_grace opts) (plan_now opts clock) newest i mark = Some (Doomed t)"
    by (auto simp: del no_marks_def)
  from f have "tg_id t = i" and due: "modified_at mark + int (po_grace opts) \<le> plan_now opts clock"
    by (auto simp: mark_fate_def time_add_def split: option.splits prod.splits if_splits)
  with i observed_marks_distinct [OF assms(2)] show "map_of (pv_marks v) (tg_id t) = Some mark" by simp
  show "modified_at mark + int (po_grace opts) \<le> plan_now opts clock" by (rule due)
qed

text \<open>What the run must not lose: a tree with its replica, and a touch later than every mark it is deleted for.\<close>

definition guarded :: "ext \<Rightarrow> (target \<times> object_info) list \<Rightarrow> tree_id \<Rightarrow> objects \<Rightarrow> objects \<Rightarrow> bool" where
  "guarded ext ts t ob0 ob \<longleftrightarrow> ob (tree_key ext t) = ob0 (tree_key ext t)
     \<and> ob (tree_replica_key ext t) = ob0 (tree_replica_key ext t)
     \<and> (\<forall>(u, mark) \<in> set ts. tg_kind u = TreeObject \<and> tg_id u = tree_object t \<longrightarrow> rewritten_since ob (touch_key ext t) mark)"

lemma guarded_same:
  "guarded ext ts t ob0 ob \<Longrightarrow> \<forall>k \<in> {tree_key ext t, tree_replica_key ext t, touch_key ext t}. ob' k = ob k \<Longrightarrow> guarded ext ts t ob0 ob'"
  by (simp add: guarded_def rewritten_since_def)

lemma delete_target_guarded:
  assumes "store_ok (rp_ops r) objs" "hex_ok (rp_ext r)" "x \<in> set ts" "guarded (rp_ext r) ts t ob0 (objs s)"
    "delete_target r x ru s = (res, s')"
  shows "guarded (rp_ext r) ts t ob0 (objs s')"
proof -
  obtain u mark where x: "x = (u, mark)" by force
  show ?thesis
  proof (cases "tg_kind u = TreeObject \<and> tg_id u = tree_object t")
    case True
    with assms(3,4) x have "rewritten_since (objs s) (touch_key (rp_ext r) t) mark" by (auto simp: guarded_def)
    moreover have "as_tree (tg_id u) = t" using True by simp
    ultimately have "s' = s" using rewritten_not_deleted [OF assms(1) assms(5) [unfolded x]] True by blast
    with assms(4) show ?thesis by simp
  next
    case False
    have "frame (target_removed (rp_ext r) u) (objs s) (objs s')"
      by (rule withinD [OF delete_target_frame [OF assms(1)] assms(5) [unfolded x]])
    moreover have "\<not> target_removed (rp_ext r) u k y" if "k \<in> {tree_key (rp_ext r) t, tree_replica_key (rp_ext r) t, touch_key (rp_ext r) t}" for k y
      using that False assms(2) by (cases "tg_kind u") (auto simp: target_removed_def group_keys_def)
    ultimately show ?thesis using guarded_same [OF assms(4)] by (meson frame_def)
  qed
qed

lemma io_fold_preserves:
  assumes "\<And>x acc s r s'. x \<in> set xs \<Longrightarrow> P s \<Longrightarrow> f x acc s = (r, s') \<Longrightarrow> P s'"
  shows "io_fold f xs acc s = (res, s') \<Longrightarrow> P s \<Longrightarrow> P s'"
  using assms
proof (induction xs arbitrary: acc s)
  case Nil
  then show ?case by (simp add: io_lift_def)
next
  case (Cons x xs)
  obtain q s1 where q: "f x acc s = (q, s1)" by force
  have P1: "P s1" using Cons.prems(3) [OF _ Cons.prems(2) q] by simp
  show ?case
  proof (cases q)
    case (Inl e)
    with P1 q Cons.prems(1) show ?thesis by (simp add: io_then_def)
  next
    case (Inr a)
    with q Cons.prems(1) have "io_fold f xs a s1 = (res, s')" by (simp add: io_then_def)
    then show ?thesis
    proof (rule Cons.IH [OF _ P1])
      show "P s''" if "y \<in> set xs" "P u" "f y acc u = (z, s'')" for y acc u z s''
        using Cons.prems(3) [OF _ that(2,3)] that(1) by simp
    qed
  qed
qed

lemma execute_guarded:
  assumes "prune_execute r rnd p s = (res, s')" "store_ok (rp_ops r) objs" "hex_ok (rp_ext r)"
    "guarded (rp_ext r) (pl_to_delete p) t ob0 (objs s)"
  shows "objs s' (tree_key (rp_ext r) t) = ob0 (tree_key (rp_ext r) t)
    \<and> objs s' (tree_replica_key (rp_ext r) t) = ob0 (tree_replica_key (rp_ext r) t)"
proof (cases "pl_dry_run p")
  case True
  with assms show ?thesis by (simp add: prune_execute_def io_lift_def guarded_def)
next
  case False
  let ?g = "\<lambda>s. guarded (rp_ext r) (pl_to_delete p) t ob0 (objs s)"
  obtain q s1 where w: "exec_writes r rnd p s = (q, s1)" by force
  have "frame (content_addressed (rp_ext r)) (objs s) (objs s1)" by (rule withinD [OF exec_writes_within [OF assms(2)] w])
  then have "\<forall>k \<in> {tree_key (rp_ext r) t, tree_replica_key (rp_ext r) t, touch_key (rp_ext r) t}. objs s1 k = objs s k"
    by (auto simp: frame_def content_addressed_def)
  then have g1: "?g s1" by (rule guarded_same [OF assms(4)])
  show ?thesis
  proof (cases q)
    case (Inl e)
    with False w assms(1) g1 show ?thesis by (simp add: prune_execute_def io_then_def guarded_def)
  next
    case (Inr q')
    let ?start = "\<lparr>ru_report = exec_report (rp_ext r) p q', ru_remove = pl_marks_to_remove p\<rparr>"
    obtain ru s2 where d: "io_fold (delete_target r) (pl_to_delete p) ?start s1 = (ru, s2)" by force
    have g2: "?g s2"
      by (rule io_fold_preserves [where P = ?g, OF _ d g1]) (rule delete_target_guarded [OF assms(2,3)])
    let ?K = "garbage_removed (rp_ext r) []"
    have gc: "?K (gc_key (rp_ext r) i) x" for i x using gc_key_prefix by (simp add: garbage_removed_def)
    have rest: "io_within objs ?K (io_then (io_each (remove_mark r) (ru_remove u)) (\<lambda>_.
         io_then (io_each (put_mark r) (exec_marks p q')) (\<lambda>_.
           io_then (sweep_parity r) (\<lambda>_. io_then (sweep_touch r) (\<lambda>_. io_lift (Inr (ru_report u)))))))" for u
      unfolding remove_mark_def put_mark_def
      by (intro within_then within_each within_lift sweeps_within [OF assms(2)] delete_if_there_within [OF assms(2)]
          within_try within_put_if_absent [OF assms(2)] gc)
    have "frame ?K (objs s2) (objs s')"
    proof (cases ru)
      case (Inl e)
      with False w Inr d assms(1) show ?thesis by (simp add: prune_execute_def exec_removals_def io_then_def)
    next
      case u: (Inr u)
      with False w Inr d assms(1) withinD [OF rest [of u]] show ?thesis
        by (simp add: prune_execute_def exec_removals_def io_then_def)
    qed
    then have "objs s' k = objs s2 k" if "k = tree_key (rp_ext r) t \<or> k = tree_replica_key (rp_ext r) t" for k
      using garbage_tree [OF assms(3) _ that, of "[]"] unfolding frame_def by force
    with g2 show ?thesis by (simp add: guarded_def)
  qed
qed

lemma snapshot_keys_prefix: "k \<in> snapshot_keys r client \<Longrightarrow> under_prefix SNAPSHOTS_PREFIX k"
  by (auto simp: snapshot_keys_def under_prefix_def starts_with_def snapshot_key_def SNAPSHOTS_PREFIX_def)

text \<open>
  C19: a commit is safe against a prune that decided before it. Let a prune with the same grace period
  have made its plan - when the new snapshot did not exist and everything only it needs counted as
  garbage - at a time not later than the commit, on the marks the commit sees; let it carry out
  the plan after the commit. However that run goes, the new snapshot is unchanged, every chunk shared
  with earlier backups resolves to a pack that is still there, unchanged or rewritten with bytes of
  the same content hash, and every tree the snapshot reaches is as it was, its replica too.
\<close>

theorem commit_outlives_earlier_prune:
  assumes "store_ok (rp_ops r) objs" "hex_ok (rp_ext r)"
    "prune_plan r opts clock s0 = Some (Inr p)" "prune_observe r s0 = Some (Inr v)"
    "plan_now opts clock \<le> now" "po_grace opts = bo_gc_grace (pb_options b)"
    "commit_at r rnd b now s = Some (Inr sm, s1)" "list_gc_marks r s = Inr marks"
    "\<forall>i info. map_of (pv_marks v) i = Some info \<longrightarrow> map_of marks i = Some (modified_at info)"
    "prune_execute r rnd' p s1 = (res, s2)"
  shows "objs s2 (bs_snapshot_key sm) = objs s1 (bs_snapshot_key sm)
    \<and> (\<forall>(old_pack, cs) \<in> set (pb_referenced b). old_pack \<notin> pb_own_packs b \<longrightarrow> (\<forall>c \<in> set cs. chunk_safe r s marks
          (\<lambda>i. objs s (pack_key (rp_ext r) i) \<noteq> None \<and> same_or_content (rp_ext r) (objs s) (objs s2) (pack_key (rp_ext r) i) i) c))
    \<and> (\<forall>t \<in> pb_seen_trees b. objs s2 (tree_key (rp_ext r) t) = objs s (tree_key (rp_ext r) t)
          \<and> objs s2 (tree_replica_key (rp_ext r) t) = objs s (tree_replica_key (rp_ext r) t))"
proof -
  let ?e = "rp_ext r" and ?grace = "bo_gc_grace (pb_options b)"
  note keeps = execute_keeps [OF assms(10,1,2)]
  have due: "\<exists>m. map_of marks (tg_id u) = Some (modified_at m) \<and> modified_at m + int ?grace \<le> now \<and> m = mark"
    if "(u, mark) \<in> set (pl_to_delete p)" for u mark
    using planned_past_grace [OF assms(3,4) that] assms(5,6,9) by force
  from assms(7) obtain q where checks: "commit_checks r b now s = Some (Inr ())"
    and q: "commit_attempts r rnd (pb_options b) (pb_started b) (pb_roots b) (pb_parent_key b) (pb_stats b) [0, 1, 2] s = Some (q, s1)"
    and sm: "q = Inr (bs_snapshot_key sm)"
    by (cases rule: commit_at_Some) (auto simp: commit_snapshot_def result_simps and_then_Inr_iff eq_commute [of "Inr sm"])
  note eff = commit_attempts_effect [OF assms(1) q]
  have same: "objs s1 k = objs s k" if "\<not> under_prefix SNAPSHOTS_PREFIX k" for k
    using eff that snapshot_keys_prefix by metis
  obtain ok: "verify_referenced_chunks r s (pb_referenced b) (pb_own_packs b) marks ?grace now = Some (Inr ())"
    "verify_touched_trees r s (pb_seen_trees b) (pb_marks_at_start b) marks ?grace now = Some (Inr ())"
    by (rule commit_checks_Inr [OF checks]) (use assms(8) in simp)
  have "objs s1 (bs_snapshot_key sm) \<noteq> objs s (bs_snapshot_key sm)" using eff sm by simp
  then have "bs_snapshot_key sm \<in> snapshot_keys r (bo_client_id (pb_options b))" using eff by blast
  then have snap: "objs s2 (bs_snapshot_key sm) = objs s1 (bs_snapshot_key sm)"
    by (intro keeps(1) snapshot_keys_prefix)
  have chunk: "chunk_safe r s marks (\<lambda>i. objs s (pack_key ?e i) \<noteq> None \<and> same_or_content ?e (objs s) (objs s2) (pack_key ?e i) i) c"
    if ref: "(old_pack, cs) \<in> set (pb_referenced b)" "old_pack \<notin> pb_own_packs b" "c \<in> set cs" for old_pack cs c
  proof -
    obtain fresh loc where l: "load_index_for_backup r s (\<lambda>p. map_of marks p \<noteq> None) = Inr fresh" "index_get fresh c = Some loc"
      "pack_held ?e (objs s) marks ?grace now (lo_pack loc)"
      using referenced_chunks_held [OF assms(1) ok(1) ref] by blast
    have "\<not> targeted p PackObject (lo_pack loc)"
      using due l(3) by (fastforce simp: targeted_def pack_held_def)
    from keeps(3) [OF this] have "same_or_content ?e (objs s) (objs s2) (pack_key ?e (lo_pack loc)) (lo_pack loc)"
      by (simp add: same_or_content_def same)
    with l show ?thesis unfolding chunk_safe_def pack_held_def by blast
  qed
  have tree: "objs s2 (tree_key ?e t) = objs s (tree_key ?e t) \<and> objs s2 (tree_replica_key ?e t) = objs s (tree_replica_key ?e t)"
    if t: "t \<in> pb_seen_trees b" for t
  proof (rule execute_guarded [OF assms(10,1,2)])
    have "rewritten_since (objs s1) (touch_key ?e t) mark"
      if u: "(u, mark) \<in> set (pl_to_delete p)" "tg_kind u = TreeObject" "tg_id u = tree_object t" for u mark
    proof -
      have "tree_touched ?e (objs s) t (modified_at mark)"
        using due [OF u(1)] u(3) by (intro touched_trees_ok [OF assms(1) ok(2) t]) auto
      then show ?thesis by (auto simp: tree_touched_def rewritten_since_def same modified_at_def NANOS_def)
    qed
    then show "guarded ?e (pl_to_delete p) t (objs s) (objs s1)" by (auto simp: guarded_def same)
  qed
  from snap chunk tree show ?thesis by blast
qed

section \<open>A commit, for witnesses\<close>

definition demo_touched_state :: map_state where
  "demo_touched_state = ((touch_key demo_ext (as_tree demo_gc_id), TOUCH_MAGIC, 0) # fst demo_gc_state, 2)"

definition demo_prepared :: prepared_backup where
  "demo_prepared = \<lparr>pb_options = \<lparr>bo_client_id = replicate 16 1, bo_hostname = ''h'', bo_username = ''u'', bo_now = None,
       bo_gc_grace = DEFAULT_GC_GRACE, bo_parity = 0,
       bo_exclude = \<lparr>ex_patterns = [], ex_if_present = [], ex_larger_than = None, ex_one_file_system = False\<rparr>\<rparr>,
     pb_started = 300000 * NANOS, pb_roots = sn_roots demo_snapshot, pb_parent_key = None, pb_stats = sn_stats demo_snapshot,
     pb_report = backup_report_default, pb_referenced = [], pb_seen_trees = {as_tree demo_gc_id},
     pb_marks_at_start = [(demo_gc_id, 0)], pb_own_packs = {}\<rparr>"

definition demo_commit_repo :: "map_state repository" where
  "demo_commit_repo = demo_repo 0 [] [demo_snapshot\<lparr>sn_time_ns := 300000 * NANOS\<rparr>] []"

lemma demo_commit_simps [simp]:
  "rp_ext demo_commit_repo = demo_ext" "rp_ops demo_commit_repo = map_store"
  by (simp_all add: demo_commit_repo_def)

lemma demo_commit_marks: "list_gc_marks demo_commit_repo demo_touched_state = Inr [(demo_gc_id, 0)]"
proof -
  have "backend_list map_store GC_PREFIX demo_touched_state = Inr [demo_gc_mark]"
    by (simp add: demo_list_defs demo_touched_state_def demo_gc_state_def key_defs prefix_defs demo_gc_mark_def GC_MARK_MAGIC_def)
  then show ?thesis by (simp add: list_gc_marks_def insert_mark_def demo_gc_mark_def demo_gc_names modified_at_def)
qed

lemma demo_grace:
  "grace_check (300000 * NANOS) (300000 * NANOS) DEFAULT_GC_GRACE = Inr ()"
  "time_add 0 DEFAULT_GC_GRACE = Some 259200000000000"
  by (simp_all add: grace_check_iff DEFAULT_GC_GRACE_def GRACE_SAFETY_MARGIN_def time_add_def nanos_ok_def NANOS_def
      timestamp_ok_def MIN_TIMESTAMP_def MAX_TIMESTAMP_def)

lemma demo_commit_checks: "commit_checks demo_commit_repo demo_prepared (300000 * NANOS) demo_touched_state = Some (Inr ())"
proof -
  have "head_tree_and_touch demo_commit_repo demo_touched_state (as_tree demo_gc_id) 0 = Inr ()"
    by (simp add: head_tree_and_touch_def backend_head_def backend_path_def map_store_def demo_touched_state_def map_objs_def
        demo_gc_state_def map_meta_def from_meta_def timestamp_ok_def MIN_TIMESTAMP_def MAX_TIMESTAMP_def modified_at_def
        demo_hex_ok)
  then show ?thesis
    by (simp add: commit_checks_def demo_commit_marks demo_prepared_def demo_grace verify_referenced_chunks_def
        verify_touched_trees_def)
qed

lemma demo_commit:
  "\<exists>sm s'. commit_at demo_commit_repo (\<lambda>a. demo_nonce) demo_prepared (300000 * NANOS) demo_touched_state = Some (Inr sm, s')"
proof -
  let ?snap = "demo_snapshot\<lparr>sn_time_ns := 300000 * NANOS\<rparr>" and ?r = demo_commit_repo
  have snap: "backup_snapshot (pb_options demo_prepared) (300000 * NANOS) (sn_roots demo_snapshot) None (sn_stats demo_snapshot) = ?snap"
    by (simp add: backup_snapshot_def demo_prepared_def demo_snapshot_def)
  have v: "snapshot_validate ?snap = Inr ()"
    by (simp add: snapshot_validate_def demo_snapshot_def tree_is_zero_def TREE_ZERO_def zero_id_def)
  have w: "\<exists>s'. write_snapshot ?r demo_nonce (snapshot_key demo_ext (replicate 16 1) ''t'') ?snap demo_touched_state = (Inr (), s')"
    using v by (simp add: write_snapshot_def demo_commit_repo_def io_then_lift seal_snapshot_def random_bytes_def io_err_def
        io_then_def io_lift_def backend_put_if_absent_def backend_path_def map_store_def map_put_def map_objs_def
        demo_touched_state_def demo_gc_state_def key_defs prefix_defs snapshot_key_def)
  have t: "time_add (300000 * NANOS) 0 = Some (300000 * NANOS)" "fits_i64 (300000 * NANOS)"
    by (simp_all add: time_add_def nanos_ok_def NANOS_def timestamp_ok_def MIN_TIMESTAMP_def MAX_TIMESTAMP_def fits_i64_def)
  have "format_key_timestamp (rp_env ?r) u = Inr ''t''" for u
    by (simp add: format_key_timestamp_def demo_commit_repo_def demo_repo_def demo_env_def)
  moreover have "pb_started demo_prepared = 300000 * NANOS" "pb_roots demo_prepared = sn_roots demo_snapshot"
    "pb_parent_key demo_prepared = None" "pb_stats demo_prepared = sn_stats demo_snapshot"
    "bo_client_id (pb_options demo_prepared) = replicate 16 1"
    by (simp_all add: demo_prepared_def)
  ultimately show ?thesis
    using w by (auto simp: commit_at_def demo_commit_checks commit_snapshot_def t snap)
qed

theorem commit_only_verified_witness:
  "\<exists>sm s'. commit_at demo_commit_repo (\<lambda>a. demo_nonce) demo_prepared (300000 * NANOS) demo_touched_state = Some (Inr sm, s')
     \<and> tree_touched demo_ext (map_objs demo_touched_state) (as_tree demo_gc_id) 0"
proof -
  obtain sm s' where c: "commit_at demo_commit_repo (\<lambda>a. demo_nonce) demo_prepared (300000 * NANOS) demo_touched_state = Some (Inr sm, s')"
    using demo_commit by blast
  from commit_only_verified [OF _ c, of map_objs] have "tree_touched demo_ext (map_objs demo_touched_state) (as_tree demo_gc_id) 0"
    by (auto simp: map_store_ok demo_prepared_def)
  with c show ?thesis by blast
qed

theorem commit_adds_only_snapshots_witness:
  "\<exists>res s'. commit_at demo_commit_repo (\<lambda>a. demo_nonce) demo_prepared (300000 * NANOS) demo_touched_state = Some (res, s')
     \<and> map_objs s' (touch_key demo_ext (as_tree demo_gc_id)) = map_objs demo_touched_state (touch_key demo_ext (as_tree demo_gc_id))"
proof -
  obtain sm s' where c: "commit_at demo_commit_repo (\<lambda>a. demo_nonce) demo_prepared (300000 * NANOS) demo_touched_state = Some (Inr sm, s')"
    using demo_commit by blast
  have "map_objs demo_touched_state (touch_key demo_ext (as_tree demo_gc_id)) \<noteq> None"
    by (simp add: demo_touched_state_def map_objs_def)
  with commit_adds_only_snapshots [OF _ c, of map_objs] c show ?thesis by (auto simp: map_store_ok)
qed

lemma demo_commit_observe: "prune_observe demo_commit_repo demo_gc_state = Some (Inr demo_gc_facts)"
proof -
  have "list_ids demo_commit_repo demo_gc_state TREES_PREFIX = Inr [(demo_gc_id, demo_gc_tree)]"
    "list_ids demo_commit_repo demo_gc_state GC_PREFIX = Inr [(demo_gc_id, demo_gc_mark)]"
    "list_ids demo_commit_repo demo_gc_state PACKS_PREFIX = Inr []"
    "list_ids demo_commit_repo demo_gc_state INDEXES_PREFIX = Inr []"
    by (simp_all add: list_ids_def demo_gc_lists insert_listed_def demo_gc_tree_def demo_gc_mark_def demo_gc_names)
  moreover have "walk_references demo_commit_repo demo_gc_state lc = Some (Inr reach_default)" for lc
    by (simp add: walk_references_def list_snapshot_keys_def demo_gc_lists)
  moreover have "load_blobs_strict demo_commit_repo demo_gc_state = Inr \<lparr>ibs_effective = [], ibs_superseded = []\<rparr>"
    by (simp add: load_blobs_strict_def load_index_blobs_def demo_gc_lists split_superseded_def)
  ultimately show ?thesis
    by (simp add: prune_observe_def list_everything_def effective_packs_def index_records_def reach_default_def
        mark_and_canonicalize_def demo_gc_facts_def)
qed

lemma demo_commit_plan:
  "\<exists>p. prune_plan demo_commit_repo demo_gc_options 0 demo_gc_state = Some (Inr p)
     \<and> pl_to_delete p = [(\<lparr>tg_kind = TreeObject, tg_id = demo_gc_id, tg_info = demo_gc_tree\<rparr>, demo_gc_mark)]"
  by (simp add: prune_plan_def demo_commit_observe prune_decide_def demo_gc_facts_def reach_default_def Let_def
      demo_gc_options_def prune_options_default_def to_time_duration_def DEFAULT_GC_GRACE_def plan_now_def
      min_active_latest_def mark_fate_def find_object_def is_live_def modified_at_def time_add_def nanos_ok_def
      NANOS_def demo_gc_mark_def timestamp_ok_def MIN_TIMESTAMP_def MAX_TIMESTAMP_def tally_mark_def no_marks_def
      repack_candidates_def new_marks_def mark_candidates_def)

theorem commit_outlives_earlier_prune_witness:
  "\<exists>p sm s1. prune_plan demo_commit_repo demo_gc_options 0 demo_gc_state = Some (Inr p) \<and> pl_to_delete p \<noteq> []
     \<and> commit_at demo_commit_repo (\<lambda>a. demo_nonce) demo_prepared (300000 * NANOS) demo_touched_state = Some (Inr sm, s1)
     \<and> map_objs (snd (prune_execute demo_commit_repo (\<lambda>a. demo_nonce) p s1)) (tree_key demo_ext (as_tree demo_gc_id))
         = map_objs demo_touched_state (tree_key demo_ext (as_tree demo_gc_id))"
proof -
  obtain p where p: "prune_plan demo_commit_repo demo_gc_options 0 demo_gc_state = Some (Inr p)" "pl_to_delete p \<noteq> []"
    using demo_commit_plan by force
  obtain sm s1 where c: "commit_at demo_commit_repo (\<lambda>a. demo_nonce) demo_prepared (300000 * NANOS) demo_touched_state = Some (Inr sm, s1)"
    using demo_commit by blast
  have o: "plan_now demo_gc_options 0 \<le> 300000 * NANOS" "po_grace demo_gc_options = bo_gc_grace (pb_options demo_prepared)"
    by (simp_all add: demo_gc_options_def prune_options_default_def plan_now_def demo_prepared_def)
  have m: "\<forall>i info. map_of (pv_marks demo_gc_facts) i = Some info \<longrightarrow> map_of [(demo_gc_id, 0)] i = Some (modified_at info)"
    by (simp add: demo_gc_facts_def demo_gc_mark_def modified_at_def)
  have "as_tree demo_gc_id \<in> pb_seen_trees demo_prepared" by (simp add: demo_prepared_def)
  moreover note commit_outlives_earlier_prune [where objs = map_objs, OF _ _ p(1) demo_commit_observe o c demo_commit_marks m
      prod.collapse [symmetric]]
  ultimately have "map_objs (snd (prune_execute demo_commit_repo (\<lambda>a. demo_nonce) p s1)) (tree_key demo_ext (as_tree demo_gc_id))
         = map_objs demo_touched_state (tree_key demo_ext (as_tree demo_gc_id))"
    by (simp add: map_store_ok demo_hex_ok del: as_tree_object)
  with p c show ?thesis by blast
qed

end
