(* ===== verification/Tree_Write.thy ===== *)
theory Tree_Write
  imports Commit Pack_Parity Chunker
begin

text \<open>
  The state of a running backup (\<open>Backup\<close> in \<open>crates/kist-core/src/backup.rs\<close>), how a directory is
  stored (\<open>write_tree\<close>), and the cursor over the previous snapshot's directory (\<open>ParentStream\<close>).

  The packer and the index are always there between the operations, so they are not optional. The
  uploads in flight are performed when they are waited for; a run that fails earlier leaves them out.
  \<open>rnd\<close> is the stream of random draws of the run and \<open>bk_draws\<close> the number taken so far.
\<close>

record file_content =
  fc_size :: nat
  fc_chunks :: "chunk_id list"
  fc_content :: nat

record backup =
  bk_packer :: pack_writer
  bk_index :: chunk_index
  bk_seen_trees :: "tree_id set"
  bk_new_packs :: "index_pack list"
  bk_uploads :: "finished_pack list"
  bk_stats :: snapshot_stats
  bk_report :: backup_report
  bk_parent_start_ns :: int
  bk_marked :: "object_id set"
  bk_marks_at_start :: "(object_id \<times> int) list"
  bk_referenced :: "(object_id \<times> chunk_id list) list"
  bk_parity :: nat
  bk_hardlinks :: "((nat \<times> nat) \<times> file_content) list"
  bk_counted_hardlinks :: "(nat \<times> nat) set"
  bk_chunk_bufs :: "bytes list"
  bk_exclude :: exclusions
  bk_draws :: nat

type_synonym ('s, 'a) backup_io = "backup \<Rightarrow> (core_error, 's, 'a \<times> backup) io"

section \<open>Storing a directory\<close>

definition put_tree :: "'s repository \<Rightarrow> tree_id \<Rightarrow> bytes \<Rightarrow> (core_error, 's, bool) io" where
  \<comment> \<open>whether the primary copy was written now; one that is there is verified and healed\<close>
  "put_tree r i bs =
     (let key = tree_key (rp_ext r) i
      in io_try (backend_put_if_absent (rp_ops r) key bs) (\<lambda>res. case res of
          Inr u \<Rightarrow> io_lift (Inr True)
        | Inl (ObjAlreadyExists k) \<Rightarrow>
            io_then (io_read (\<lambda>s. Inr (is_ok (read_tree_once r s key i)))) (\<lambda>good.
              if good then io_lift (Inr False)
              else io_then (io_err BackendE (backend_put (rp_ops r) key bs)) (\<lambda>_. io_lift (Inr False)))
        | Inl e \<Rightarrow> io_lift (Inl (BackendE e))))"

definition put_tree_replica :: "'s repository \<Rightarrow> tree_id \<Rightarrow> bytes \<Rightarrow> (core_error, 's, unit) io" where
  "put_tree_replica r i bs =
     (if rc_replicas (rp_config r) > 0
      then io_try (backend_put_if_absent (rp_ops r) (tree_replica_key (rp_ext r) i) bs) (\<lambda>res. io_lift (case res of
          Inr u \<Rightarrow> Inr () | Inl (ObjAlreadyExists k) \<Rightarrow> Inr () | Inl e \<Rightarrow> Inl (BackendE e)))
      else io_lift (Inr ()))"

definition store_tree :: "'s repository \<Rightarrow> bool \<Rightarrow> tree_id \<Rightarrow> bytes \<Rightarrow> (core_error, 's, unit) io" where
  \<comment> \<open>\<open>marked\<close>: the tree carried a mark when the backup started\<close>
  "store_tree r marked i bs =
     io_then (put_tree r i bs) (\<lambda>primary.
       io_then (put_tree_replica r i bs) (\<lambda>_.
         if \<not> primary then touch_tree r i else if marked then touch_tree r i else io_lift (Inr ())))"

definition write_tree :: "'s repository \<Rightarrow> (nat \<Rightarrow> string + bytes) \<Rightarrow> tree \<Rightarrow> ('s, tree_id) backup_io" where
  "write_tree r rnd t b =
     io_then (io_lift (repo_seal_tree r (rnd (bk_draws b)) t)) (\<lambda>(i, bs).
       let b1 = b\<lparr>bk_draws := bk_draws b + 1\<rparr>
       in if i \<in> bk_seen_trees b then io_lift (Inr (i, b1))
          else io_then (store_tree r (map_of (bk_marks_at_start b) (tree_object i) \<noteq> None) i bs) (\<lambda>_.
            io_lift (Inr (i, b1\<lparr>bk_seen_trees := insert i (bk_seen_trees b)\<rparr>))))"

section \<open>The previous snapshot's directory\<close>

record parent_stream =
  ps_parts :: "tree_id list"
  ps_current :: "entry list"

partial_function (option) parent_parts :: "'s repository \<Rightarrow> 's \<Rightarrow> tree_id option \<Rightarrow> tree_id set \<Rightarrow> tree_id list \<Rightarrow>
    (core_error + tree_id list) option" where
  "parent_parts r s next_id seen parts =
     (case next_id of
        None \<Rightarrow> Some (Inr parts)
      | Some t \<Rightarrow>
          (if t \<in> seen then Some (Inl (Corrupt (tree_key (rp_ext r) t) ''tree chain loops''))
           else case read_tree r s t of
               Inl e \<Rightarrow> Some (Inl e)
             | Inr tree \<Rightarrow> parent_parts r s (tr_prev tree) (insert t seen) (t # parts)))"

definition parent_open :: "'s repository \<Rightarrow> 's \<Rightarrow> tree_id \<Rightarrow> (core_error + parent_stream) option" where
  "parent_open r s last_id =
     map_option (\<lambda>res. and_then res (\<lambda>parts. Inr \<lparr>ps_parts = parts, ps_current = []\<rparr>)) (parent_parts r s (Some last_id) {} [])"

function take_name_loop :: "'s repository \<Rightarrow> 's \<Rightarrow> bytes \<Rightarrow> tree_id list \<Rightarrow> entry list \<Rightarrow> entry option \<times> parent_stream" where
  "take_name_loop r s name parts current =
     (case dropWhile (\<lambda>e. en_name e < name) current of
        e # rest \<Rightarrow>
          (if en_name e = name then (Some e, \<lparr>ps_parts = parts, ps_current = rest\<rparr>)
           else (None, \<lparr>ps_parts = parts, ps_current = e # rest\<rparr>))
      | [] \<Rightarrow>
          (case parts of
             [] \<Rightarrow> (None, \<lparr>ps_parts = [], ps_current = []\<rparr>)
           | p # ps \<Rightarrow>
               (case read_tree r s p of
                  Inr tree \<Rightarrow> take_name_loop r s name ps (tr_entries tree)
                | Inl e \<Rightarrow> (None, \<lparr>ps_parts = [], ps_current = []\<rparr>))))"
  by pat_completeness auto
termination by (relation "measure (\<lambda>(r, s, name, parts, current). length parts)") auto

declare take_name_loop.simps [simp del]

definition take_name :: "'s repository \<Rightarrow> 's \<Rightarrow> bytes \<Rightarrow> parent_stream \<Rightarrow> entry option \<times> parent_stream" where
  "take_name r s name ps = take_name_loop r s name (ps_parts ps) (ps_current ps)"

section \<open>The cursor against a lookup\<close>

definition lookup_name :: "entry list \<Rightarrow> bytes \<Rightarrow> entry option" where
  "lookup_name es name = find (\<lambda>e. en_name e = name) es"

definition stream_holds :: "'s repository \<Rightarrow> 's \<Rightarrow> parent_stream \<Rightarrow> entry list \<Rightarrow> bool" where
  \<comment> \<open>the entries the cursor has still to pass, all readable\<close>
  "stream_holds r s ps es \<longleftrightarrow> (\<exists>ts. list_all2 (\<lambda>p t. read_tree r s p = Inr t) (ps_parts ps) ts
     \<and> es = ps_current ps @ concat (map tr_entries ts))"

definition names_sorted :: "entry list \<Rightarrow> bool" where
  "names_sorted es \<longleftrightarrow> sorted_wrt (<) (map en_name es)"

lemma lookup_later: "\<forall>e \<in> set es. en_name e < name \<Longrightarrow> name \<le> n \<Longrightarrow> lookup_name (es @ fs) n = lookup_name fs n"
  by (induction es) (auto simp: lookup_name_def)

lemma lookup_none: "\<forall>e \<in> set es. n < en_name e \<Longrightarrow> lookup_name es n = None"
  by (auto simp: lookup_name_def find_None_iff)

lemma names_sorted_append: "names_sorted (es @ fs) \<Longrightarrow> names_sorted fs"
  by (simp add: names_sorted_def sorted_wrt_append)

lemma take_name_loop_holds:
  assumes "stream_holds r s \<lparr>ps_parts = parts, ps_current = current\<rparr> es" "names_sorted es"
    "take_name_loop r s name parts current = (res, ps')"
  shows "res = lookup_name es name
    \<and> (\<exists>es'. stream_holds r s ps' es' \<and> names_sorted es' \<and> (\<forall>n. name < n \<longrightarrow> lookup_name es' n = lookup_name es n))"
  using assms
proof (induction r s name parts current arbitrary: es rule: take_name_loop.induct)
  case (1 r s name parts current)
  from "1.prems"(1) obtain ts where ts: "list_all2 (\<lambda>p t. read_tree r s p = Inr t) parts ts"
    and es: "es = current @ concat (map tr_entries ts)" by (auto simp: stream_holds_def)
  let ?drop = "dropWhile (\<lambda>e. en_name e < name) current" and ?take = "takeWhile (\<lambda>e. en_name e < name) current"
  let ?rest = "?drop @ concat (map tr_entries ts)"
  have split: "es = ?take @ ?rest" by (simp add: es)
  have small: "\<forall>e \<in> set ?take. en_name e < name" by (auto dest: set_takeWhileD)
  have later: "lookup_name es n = lookup_name ?rest n" if "name \<le> n" for n
    by (subst split) (rule lookup_later [OF small that])
  have sorted: "names_sorted ?rest" using "1.prems"(2) split names_sorted_append by metis
  show ?case
  proof (cases ?drop)
    case (Cons e rest)
    have ge: "name \<le> en_name e" using hd_dropWhile [of "\<lambda>e. en_name e < name" current] Cons by (simp add: not_less)
    let ?tail = "rest @ concat (map tr_entries ts)"
    have above: "\<forall>x \<in> set ?tail. en_name e < en_name x" using sorted Cons by (auto simp: names_sorted_def)
    show ?thesis
    proof (cases "en_name e = name")
      case True
      with "1.prems"(3) Cons have r: "res = Some e" "ps' = \<lparr>ps_parts = parts, ps_current = rest\<rparr>"
        by (simp_all add: take_name_loop.simps [of r s name parts])
      have "lookup_name es name = Some e" using True later [of name] Cons by (simp add: lookup_name_def)
      moreover have "stream_holds r s ps' ?tail" using ts r(2) by (auto simp: stream_holds_def)
      moreover have "names_sorted ?tail" using sorted Cons names_sorted_append [of "[e]" ?tail] by simp
      moreover have "lookup_name ?tail n = lookup_name es n" if "name < n" for n
        using that True later [of n] Cons by (auto simp: lookup_name_def)
      ultimately show ?thesis using r(1) by auto
    next
      case False
      with "1.prems"(3) Cons have r: "res = None" "ps' = \<lparr>ps_parts = parts, ps_current = e # rest\<rparr>"
        by (simp_all add: take_name_loop.simps [of r s name parts])
      have lt: "name < en_name e" using False ge by auto
      have "\<forall>x \<in> set ?rest. name < en_name x"
      proof
        fix x assume "x \<in> set ?rest"
        with Cons have "x = e \<or> x \<in> set ?tail" by auto
        then show "name < en_name x" using above lt less_trans by blast
      qed
      then have "lookup_name es name = None" using later [of name] lookup_none [of ?rest name] by simp
      moreover have "stream_holds r s ps' ?rest" using ts r(2) Cons by (auto simp: stream_holds_def)
      moreover have "lookup_name ?rest n = lookup_name es n" if "name < n" for n
        using that later [of n] by simp
      ultimately show ?thesis using r(1) sorted by auto
    qed
  next
    case Nil
    show ?thesis
    proof (cases parts)
      case parts: Nil
      with ts have "ts = []" by simp
      with "1.prems"(3) Nil parts have "res = None" "ps' = \<lparr>ps_parts = [], ps_current = []\<rparr>"
        by (simp_all add: take_name_loop.simps [of r s name])
      moreover have "lookup_name es n = None" if "name \<le> n" for n
        using later [OF that] \<open>ts = []\<close> Nil by (simp add: lookup_name_def)
      ultimately show ?thesis by (auto simp: stream_holds_def lookup_name_def names_sorted_def intro!: exI [of _ "[]"])
    next
      case (Cons p ps)
      with ts obtain t ts' where t: "read_tree r s p = Inr t" and ts': "list_all2 (\<lambda>p t. read_tree r s p = Inr t) ps ts'"
        and tts: "ts = t # ts'" by (auto simp: list_all2_Cons1)
      have run: "take_name_loop r s name ps (tr_entries t) = (res, ps')"
        using "1.prems"(3) unfolding take_name_loop.simps [of r s name parts current] Nil by (simp add: Cons t)
      have "stream_holds r s \<lparr>ps_parts = ps, ps_current = tr_entries t\<rparr> ?rest"
        using ts' tts Nil by (auto simp: stream_holds_def)
      from "1.IH" [OF Nil Cons t this sorted run] show ?thesis using later by auto
    qed
  qed
qed

fun take_names :: "'s repository \<Rightarrow> 's \<Rightarrow> bytes list \<Rightarrow> parent_stream \<Rightarrow> entry option list" where
  "take_names r s [] ps = []"
| "take_names r s (n # ns) ps = (case take_name r s n ps of (e, ps') \<Rightarrow> e # take_names r s ns ps')"

lemma take_names_lookup:
  "stream_holds r s ps es \<Longrightarrow> names_sorted es \<Longrightarrow> sorted_wrt (<) ns \<Longrightarrow> take_names r s ns ps = map (lookup_name es) ns"
proof (induction ns arbitrary: ps es)
  case Nil
  then show ?case by simp
next
  case (Cons n ns)
  obtain res ps' where t: "take_name r s n ps = (res, ps')" by force
  have h: "stream_holds r s \<lparr>ps_parts = ps_parts ps, ps_current = ps_current ps\<rparr> es"
    using Cons.prems(1) by (simp add: stream_holds_def)
  from take_name_loop_holds [OF h Cons.prems(2) t [unfolded take_name_def]] obtain es' where
    res: "res = lookup_name es n" and h': "stream_holds r s ps' es'" "names_sorted es'"
    and later: "\<forall>m. n < m \<longrightarrow> lookup_name es' m = lookup_name es m" by blast
  have "map (lookup_name es') ns = map (lookup_name es) ns" using later Cons.prems(3) by simp
  with Cons.IH [OF h'] Cons.prems(3) res t show ?case by simp
qed

lemma parent_parts_chain:
  "tree_chain r s n segs \<Longrightarrow> distinct (map fst segs) \<Longrightarrow> fst ` set segs \<inter> seen = {} \<Longrightarrow>
     parent_parts r s n seen parts = Some (Inr (rev (map fst segs) @ parts))"
proof (induction arbitrary: seen parts rule: tree_chain.induct)
  case chain_end
  then show ?case by (subst parent_parts.simps) simp
next
  case (chain_step t tree segs)
  then have "parent_parts r s (tr_prev tree) (insert t seen) (t # parts) = Some (Inr (rev (map fst segs) @ t # parts))"
    by (intro chain_step.IH) auto
  with chain_step show ?case by (subst parent_parts.simps) simp
qed

lemma tree_chain_reads: "tree_chain r s n segs \<Longrightarrow> \<forall>(t, tree) \<in> set segs. read_tree r s t = Inr tree"
  by (induction rule: tree_chain.induct) auto

text \<open>
  reading the previous snapshot's directory as a merge is a lookup. For a readable chain of
  segments whose names ascend - what every writer produces - opening the cursor succeeds, and
  asking it for ascending names, one segment in memory at a time, answers each name as searching the
  whole directory does: entries between two names are skipped and none is missed.
\<close>

theorem parent_stream_lookup:
  assumes "tree_chain r s (Some t) segs" "distinct (map fst segs)"
    "names_sorted (concat (map (tr_entries \<circ> snd) (rev segs)))" "sorted_wrt (<) ns"
  shows "read_tree_chain r s t = Some (Inr (concat (map (tr_entries \<circ> snd) (rev segs))))
    \<and> (\<exists>ps. parent_open r s t = Some (Inr ps)
        \<and> take_names r s ns ps = map (lookup_name (concat (map (tr_entries \<circ> snd) (rev segs)))) ns)"
proof -
  let ?ps = "\<lparr>ps_parts = rev (map fst segs), ps_current = []\<rparr>" and ?es = "concat (map (tr_entries \<circ> snd) (rev segs))"
  have o: "parent_open r s t = Some (Inr ?ps)"
    using parent_parts_chain [OF assms(1,2), of "{}" "[]"] by (simp add: parent_open_def)
  have "list_all2 (\<lambda>p t. read_tree r s p = Inr t) (map fst xs) (map snd xs)"
    if "\<forall>(t, tree) \<in> set xs. read_tree r s t = Inr tree" for xs
    using that by (induction xs) auto
  from this [of "rev segs"] tree_chain_reads [OF assms(1)]
  have "list_all2 (\<lambda>p t. read_tree r s p = Inr t) (map fst (rev segs)) (map snd (rev segs))" by simp
  then have "stream_holds r s ?ps ?es" unfolding stream_holds_def by (auto simp: rev_map intro!: exI [of _ "map snd (rev segs)"])
  from take_names_lookup [OF this assms(3,4)] have "take_names r s ns ?ps = map (lookup_name ?es) ns" .
  moreover have "read_tree_chain r s t = Some (Inr ?es)"
    using chain_loop_complete [OF assms(1,2), of "{}" "[]"] by (simp add: read_tree_chain_def rev_map)
  ultimately show ?thesis using o by blast
qed

section \<open>What storing a directory leaves behind\<close>

lemma put_tree_effect:
  assumes "store_ok (rp_ops r) objs" "put_tree r i bs s = (res, s')"
  shows "\<forall>k. k \<noteq> tree_key (rp_ext r) i \<longrightarrow> objs s' k = objs s k"
    and "objs s' (tree_key (rp_ext r) i) = objs s (tree_key (rp_ext r) i)
      \<or> (\<exists>tm. objs s' (tree_key (rp_ext r) i) = Some (bs, tm))"
    and "res = Inr b \<Longrightarrow> (b \<longrightarrow> objs s (tree_key (rp_ext r) i) = None)
      \<and> (\<exists>d tm. objs s' (tree_key (rp_ext r) i) = Some (d, tm) \<and> (d = bs \<or> \<not> b \<and> (\<exists>t. tree_copy r i d t)))"
proof -
  let ?key = "tree_key (rp_ext r) i"
  obtain q s1 where q: "backend_put_if_absent (rp_ops r) ?key bs s = (q, s1)" by force
  note p = backend_put_if_absent_objs [OF assms(1) q]
  consider (new) "q = Inr ()" "res = Inr True" "s' = s1"
    | (good) k t where "q = Inl (ObjAlreadyExists k)" "read_tree_once r s1 ?key i = Inr t" "res = Inr False" "s' = s1"
    | (heal) k e w where "q = Inl (ObjAlreadyExists k)" "read_tree_once r s1 ?key i = Inl e"
        "backend_put (rp_ops r) ?key bs s1 = (w, s')" "res = (case w of Inl x \<Rightarrow> Inl (BackendE x) | Inr u \<Rightarrow> Inr False)"
    | (fail) e where "\<nexists>k. e = ObjAlreadyExists k" "q = Inl e" "res = Inl (BackendE e)" "s' = s1"
  proof (cases q)
    case (Inr u)
    with q assms(2) show ?thesis by (intro new) (simp_all add: put_tree_def io_try_def io_lift_def Let_def)
  next
    case (Inl e)
    show ?thesis
    proof (cases "\<exists>k. e = ObjAlreadyExists k")
      case False
      with Inl q assms(2) show ?thesis
        by (intro fail [of e]) (auto simp: put_tree_def io_try_def io_lift_def Let_def split: backend_error.splits)
    next
      case True
      then obtain k where k: "e = ObjAlreadyExists k" ..
      show ?thesis
      proof (cases "read_tree_once r s1 ?key i")
        case Inr: (Inr t)
        with Inl k q assms(2) show ?thesis
          by (intro good [of k t]) (auto simp: put_tree_def io_try_def io_lift_def io_then_def io_read_def Let_def)
      next
        case bad: (Inl x)
        obtain w s2 where w: "backend_put (rp_ops r) ?key bs s1 = (w, s2)" by force
        with bad Inl k q assms(2) show ?thesis
          by (intro heal [of k x w])
            (auto simp: put_tree_def io_try_def io_lift_def io_then_def io_read_def io_err_def Let_def map_err_def split: sum.splits)
      qed
    qed
  qed
  then have "(\<forall>k. k \<noteq> ?key \<longrightarrow> objs s' k = objs s k)
    \<and> (objs s' ?key = objs s ?key \<or> (\<exists>tm. objs s' ?key = Some (bs, tm)))
    \<and> (\<forall>b. res = Inr b \<longrightarrow> (b \<longrightarrow> objs s ?key = None)
        \<and> (\<exists>d tm. objs s' ?key = Some (d, tm) \<and> (d = bs \<or> \<not> b \<and> (\<exists>t. tree_copy r i d t))))"
  proof cases
    case new
    with p(1) show ?thesis by auto
  next
    case (good k t)
    from good(2) obtain d where d: "backend_get (rp_ops r) ?key s1 = Inr d" "tree_copy r i d t"
      by (auto simp: read_tree_once_Inr)
    with backend_get_objs(1) [OF assms(1) d(1)] p(2) [of k] p(3) good show ?thesis by auto
  next
    case (heal k e w)
    have eq: "objs s1 = objs s" using p(2) [of k] p(3) heal(1) by auto
    note put = backend_put_objs [OF assms(1) heal(3), unfolded eq]
    show ?thesis
    proof (cases w)
      case (Inl x)
      with put(2) heal(4) show ?thesis by auto
    next
      case (Inr u)
      with put(1) heal(4) show ?thesis by auto
    qed
  next
    case (fail e)
    with p(3) show ?thesis by auto
  qed
  then show "\<forall>k. k \<noteq> tree_key (rp_ext r) i \<longrightarrow> objs s' k = objs s k"
    and "objs s' (tree_key (rp_ext r) i) = objs s (tree_key (rp_ext r) i)
      \<or> (\<exists>tm. objs s' (tree_key (rp_ext r) i) = Some (bs, tm))"
    and "res = Inr b \<Longrightarrow> (b \<longrightarrow> objs s (tree_key (rp_ext r) i) = None)
      \<and> (\<exists>d tm. objs s' (tree_key (rp_ext r) i) = Some (d, tm) \<and> (d = bs \<or> \<not> b \<and> (\<exists>t. tree_copy r i d t)))"
    by blast+
qed

lemma put_tree_replica_effect:
  assumes "store_ok (rp_ops r) objs" "put_tree_replica r i bs s = (res, s')"
  shows "\<forall>k. k \<noteq> tree_replica_key (rp_ext r) i \<longrightarrow> objs s' k = objs s k"
    and "objs s (tree_replica_key (rp_ext r) i) \<noteq> None \<Longrightarrow> objs s' (tree_replica_key (rp_ext r) i) = objs s (tree_replica_key (rp_ext r) i)"
    and "res = Inr u \<Longrightarrow> 0 < rc_replicas (rp_config r) \<Longrightarrow> objs s' (tree_replica_key (rp_ext r) i) \<noteq> None"
proof -
  let ?key = "tree_replica_key (rp_ext r) i"
  obtain q s1 where q: "backend_put_if_absent (rp_ops r) ?key bs s = (q, s1)" by force
  note p = backend_put_if_absent_objs [OF assms(1) q]
  have "(\<forall>k. k \<noteq> ?key \<longrightarrow> objs s' k = objs s k) \<and> (objs s ?key \<noteq> None \<longrightarrow> objs s' ?key = objs s ?key)
      \<and> (res = Inr u \<and> 0 < rc_replicas (rp_config r) \<longrightarrow> objs s' ?key \<noteq> None)"
  proof (cases "0 < rc_replicas (rp_config r)")
    case False
    with assms(2) show ?thesis by (simp add: put_tree_replica_def io_lift_def)
  next
    case True
    with assms(2) q have "s' = s1" "res = Inr u \<Longrightarrow> q = Inr () \<or> (\<exists>k. q = Inl (ObjAlreadyExists k))"
      by (auto simp: put_tree_replica_def io_try_def io_lift_def split: sum.splits backend_error.splits)
    with p(1,2) p(3) show ?thesis by (metis (no_types, lifting) fun_upd_def option.distinct(1))
  qed
  then show "\<forall>k. k \<noteq> tree_replica_key (rp_ext r) i \<longrightarrow> objs s' k = objs s k"
    and "objs s (tree_replica_key (rp_ext r) i) \<noteq> None \<Longrightarrow> objs s' (tree_replica_key (rp_ext r) i) = objs s (tree_replica_key (rp_ext r) i)"
    and "res = Inr u \<Longrightarrow> 0 < rc_replicas (rp_config r) \<Longrightarrow> objs s' (tree_replica_key (rp_ext r) i) \<noteq> None"
    by blast+
qed

definition tree_stored :: "'s repository \<Rightarrow> objects \<Rightarrow> tree_id \<Rightarrow> bool" where
  "tree_stored r ob i \<longleftrightarrow> (\<exists>d tm t. ob (tree_key (rp_ext r) i) = Some (d, tm) \<and> tree_copy r i d t)"

text \<open>The modification times a store gives: an overwriting write is stamped with the clock of the store,
  which never goes back. This is what the revival signal of a tree rests on.\<close>

definition clock_ok :: "'s store_ops \<Rightarrow> ('s \<Rightarrow> objects) \<Rightarrow> ('s \<Rightarrow> int) \<Rightarrow> bool" where
  "clock_ok ops objs clock \<longleftrightarrow>
     (\<forall>k bs s s'. so_put ops k bs s = (Inr (), s') \<longrightarrow> (\<exists>t. objs s' k = Some (bs, t) \<and> clock s \<le> t))
     \<and> (\<forall>k bs s r s'. so_put ops k bs s = (r, s') \<longrightarrow> clock s \<le> clock s')
     \<and> (\<forall>k bs s r s'. so_put_create ops k bs s = (r, s') \<longrightarrow> clock s \<le> clock s')"

lemma map_store_clock: "clock_ok map_store map_objs map_time"
proof -
  have put: "map_put k bs s = (r, s') \<Longrightarrow> map_objs s' k = Some (bs, map_time s) \<and> map_time s \<le> map_time s'" for k bs s r s'
    using map_put_objs [of k bs s r s'] by (auto simp: map_put_def map_time_def)
  show ?thesis
    unfolding clock_ok_def map_store_def store_ops.select_convs using put by (auto split: if_splits)
qed

definition keeps_clock :: "('s \<Rightarrow> int) \<Rightarrow> ('e, 's, 'a) io \<Rightarrow> bool" where
  "keeps_clock clock m \<longleftrightarrow> (\<forall>s. clock s \<le> clock (snd (m s)))"

lemma keeps_clock_then: "keeps_clock clock m \<Longrightarrow> (\<And>x. keeps_clock clock (f x)) \<Longrightarrow> keeps_clock clock (io_then m f)"
  unfolding keeps_clock_def by (auto simp: io_then_def split: prod.split sum.split) (metis order.trans snd_conv)+

lemma keeps_clock_try: "keeps_clock clock m \<Longrightarrow> (\<And>x. keeps_clock clock (f x)) \<Longrightarrow> keeps_clock clock (io_try m f)"
  unfolding keeps_clock_def by (auto simp: io_try_def split: prod.split) (metis order.trans snd_conv)

lemma keeps_clock_err: "keeps_clock clock m \<Longrightarrow> keeps_clock clock (io_err h m)"
  unfolding keeps_clock_def by (auto simp: io_err_def split: prod.split) (metis snd_conv)

lemma keeps_clock_read: "keeps_clock clock (io_lift x)" "keeps_clock clock (io_read q)"
  by (simp_all add: keeps_clock_def io_lift_def io_read_def)

lemma keeps_clock_put:
  assumes "clock_ok ops objs clock"
  shows "keeps_clock clock (backend_put ops k bs)" "keeps_clock clock (backend_put_if_absent ops k bs)"
proof -
  have "keeps_clock clock (so_put ops k bs)" "keeps_clock clock (so_put_create ops k bs)"
    using assms unfolding clock_ok_def keeps_clock_def by (metis surjective_pairing)+
  then show "keeps_clock clock (backend_put ops k bs)" "keeps_clock clock (backend_put_if_absent ops k bs)"
    by (simp_all add: backend_put_def backend_put_if_absent_def keeps_clock_then keeps_clock_read keeps_clock_err)
qed

lemmas keeps_clock_intros = keeps_clock_then keeps_clock_try keeps_clock_err keeps_clock_read keeps_clock_put

lemma put_tree_clock: "clock_ok (rp_ops r) objs clock \<Longrightarrow> keeps_clock clock (put_tree r i bs)"
  unfolding put_tree_def Let_def
  by (intro keeps_clock_try keeps_clock_put) (auto split: sum.split backend_error.split intro!: keeps_clock_intros)

lemma put_tree_replica_clock: "clock_ok (rp_ops r) objs clock \<Longrightarrow> keeps_clock clock (put_tree_replica r i bs)"
  unfolding put_tree_replica_def by (auto intro!: keeps_clock_intros)

lemma keeps_clockD: "keeps_clock clock m \<Longrightarrow> m s = (r, s') \<Longrightarrow> clock s \<le> clock s'"
  unfolding keeps_clock_def by (metis snd_conv)

definition touched_since :: "ext \<Rightarrow> objects \<Rightarrow> int \<Rightarrow> tree_id \<Rightarrow> bool" where
  "touched_since ext ob start i \<longleftrightarrow> (\<exists>tm \<ge> start. ob (touch_key ext i) = Some (TOUCH_MAGIC, tm))"

lemma touch_tree_since:
  assumes "clock_ok (rp_ops r) objs clock" "touch_tree r i s = (Inr (), s')"
  shows "touched_since (rp_ext r) (objs s') (clock s) i" "clock s \<le> clock s'"
proof -
  from assms(2) have put: "backend_put (rp_ops r) (touch_key (rp_ext r) i) TOUCH_MAGIC s = (Inr (), s')"
    by (auto simp: touch_tree_def result_simps)
  then have "so_put (rp_ops r) (touch_key (rp_ext r) i) TOUCH_MAGIC s = (Inr (), s')"
    by (auto simp: backend_put_def result_simps)
  with assms(1) show "touched_since (rp_ext r) (objs s') (clock s) i"
    unfolding clock_ok_def touched_since_def by blast
  from keeps_clockD [OF keeps_clock_put(1) [OF assms(1)] put] show "clock s \<le> clock s'" .
qed

lemma store_tree_effect:
  assumes "store_ok (rp_ops r) objs" "clock_ok (rp_ops r) objs clock" "store_tree r marked i bs s = (res, s')"
  shows "\<forall>k. k \<notin> {tree_key (rp_ext r) i, tree_replica_key (rp_ext r) i, touch_key (rp_ext r) i} \<longrightarrow> objs s' k = objs s k"
    and "objs s' (tree_key (rp_ext r) i) = objs s (tree_key (rp_ext r) i) \<or> (\<exists>tm. objs s' (tree_key (rp_ext r) i) = Some (bs, tm))"
    and "objs s (tree_replica_key (rp_ext r) i) \<noteq> None \<longrightarrow> objs s' (tree_replica_key (rp_ext r) i) = objs s (tree_replica_key (rp_ext r) i)"
    and "res = Inr u \<Longrightarrow> (\<exists>d tm. objs s' (tree_key (rp_ext r) i) = Some (d, tm) \<and> (d = bs \<or> (\<exists>t. tree_copy r i d t)))
      \<and> (0 < rc_replicas (rp_config r) \<longrightarrow> objs s' (tree_replica_key (rp_ext r) i) \<noteq> None)
      \<and> (objs s (tree_key (rp_ext r) i) \<noteq> None \<or> marked \<longrightarrow> touched_since (rp_ext r) (objs s') (clock s) i)
      \<and> clock s \<le> clock s'"
proof -
  let ?main = "tree_key (rp_ext r) i" and ?rep = "tree_replica_key (rp_ext r) i" and ?touch = "touch_key (rp_ext r) i"
  have ne: "?main \<noteq> ?rep" "?main \<noteq> ?touch" "?rep \<noteq> ?touch" 
    by (simp add: tree_key_def tree_replica_key_def) simp_all
  obtain p s1 where p: "put_tree r i bs s = (p, s1)" by force
  note pe = put_tree_effect [OF assms(1) p]
  have "(\<forall>k. k \<notin> {?main, ?rep, ?touch} \<longrightarrow> objs s' k = objs s k)
    \<and> (objs s' ?main = objs s ?main \<or> (\<exists>tm. objs s' ?main = Some (bs, tm)))
    \<and> (objs s ?rep \<noteq> None \<longrightarrow> objs s' ?rep = objs s ?rep)
    \<and> (res = Inr u \<longrightarrow> (\<exists>d tm. objs s' ?main = Some (d, tm) \<and> (d = bs \<or> (\<exists>t. tree_copy r i d t)))
      \<and> (0 < rc_replicas (rp_config r) \<longrightarrow> objs s' ?rep \<noteq> None)
      \<and> (objs s ?main \<noteq> None \<or> marked \<longrightarrow> touched_since (rp_ext r) (objs s') (clock s) i)
      \<and> clock s \<le> clock s')"
  proof (cases p)
    case (Inl e)
    with p assms(3) pe(1,2) ne show ?thesis by (auto simp: store_tree_def io_then_def)
  next
    case prim: (Inr primary)
    obtain q s2 where q: "put_tree_replica r i bs s1 = (q, s2)" by force
    note qe = put_tree_replica_effect [OF assms(1) q]
    show ?thesis
    proof (cases q)
      case (Inl e)
      with p q prim assms(3) pe(1,2) qe(1,2) ne show ?thesis by (auto simp: store_tree_def io_then_def)
    next
      case rep: (Inr v)
      let ?m = "if \<not> primary then touch_tree r i else if marked then touch_tree r i else io_lift (Inr ())"
      have m: "?m s2 = (res, s')" using p q prim rep assms(3) by (simp add: store_tree_def io_then_def)
      have t: "\<forall>k. k \<noteq> ?touch \<longrightarrow> objs s' k = objs s2 k"
        using m backend_put_objs(2) [OF assms(1), of ?touch TOUCH_MAGIC s2]
        by (auto simp: touch_tree_def io_lift_def io_err_def split: if_splits prod.splits)
      have up: "clock s \<le> clock s1" "clock s1 \<le> clock s2"
        using keeps_clockD [OF put_tree_clock [OF assms(2)] p] keeps_clockD [OF put_tree_replica_clock [OF assms(2)] q] .
      have t': "touched_since (rp_ext r) (objs s') (clock s) i" "clock s2 \<le> clock s'" if "res = Inr u" "\<not> primary \<or> marked"
        using touch_tree_since [OF assms(2), of i s2 s'] m that up
        by (auto simp: touched_since_def split: if_splits intro: order.trans)
      have "clock s \<le> clock s'" if "res = Inr u"
        using t'(2) [OF that] m up by (cases "\<not> primary \<or> marked") (auto simp: io_lift_def)
      with t'(1) show ?thesis using pe qe t prim rep ne by auto
    qed
  qed
  then show "\<forall>k. k \<notin> {?main, ?rep, ?touch} \<longrightarrow> objs s' k = objs s k"
    and "objs s' ?main = objs s ?main \<or> (\<exists>tm. objs s' ?main = Some (bs, tm))"
    and "objs s ?rep \<noteq> None \<longrightarrow> objs s' ?rep = objs s ?rep"
    and "res = Inr u \<Longrightarrow> (\<exists>d tm. objs s' ?main = Some (d, tm) \<and> (d = bs \<or> (\<exists>t. tree_copy r i d t)))
      \<and> (0 < rc_replicas (rp_config r) \<longrightarrow> objs s' ?rep \<noteq> None)
      \<and> (objs s ?main \<noteq> None \<or> marked \<longrightarrow> touched_since (rp_ext r) (objs s') (clock s) i)
      \<and> clock s \<le> clock s'"
    by blast+
qed

definition trees_ok :: "'s repository \<Rightarrow> objects \<Rightarrow> tree_id set \<Rightarrow> int \<Rightarrow> backup \<Rightarrow> bool" where
  \<comment> \<open>every tree of the backup is stored, with its replica; those it found in the store and those that
    were marked have been touched since the start\<close>
  "trees_ok r ob reused start b \<longleftrightarrow> reused \<subseteq> bk_seen_trees b \<and> (\<forall>i \<in> bk_seen_trees b. tree_stored r ob i
     \<and> (0 < rc_replicas (rp_config r) \<longrightarrow> ob (tree_replica_key (rp_ext r) i) \<noteq> None)
     \<and> (i \<in> reused \<or> map_of (bk_marks_at_start b) (tree_object i) \<noteq> None \<longrightarrow> touched_since (rp_ext r) ob start i))"

lemma trees_ok_other:
  assumes "trees_ok r ob reused start b" "hex_ok (rp_ext r)" "j \<in> bk_seen_trees b" "j \<noteq> i"
    "\<forall>k. k \<notin> {tree_key (rp_ext r) i, tree_replica_key (rp_ext r) i, touch_key (rp_ext r) i} \<longrightarrow> ob' k = ob k"
  shows "tree_stored r ob' j \<and> (0 < rc_replicas (rp_config r) \<longrightarrow> ob' (tree_replica_key (rp_ext r) j) \<noteq> None)
     \<and> (j \<in> reused \<or> map_of (bk_marks_at_start b) (tree_object j) \<noteq> None \<longrightarrow> touched_since (rp_ext r) ob' start j)"
proof -
  have "ob' k = ob k" if "k \<in> {tree_key (rp_ext r) j, tree_replica_key (rp_ext r) j, touch_key (rp_ext r) j}" for k
    using assms(5) that assms(2,4) by auto
  with assms(1,3) show ?thesis by (simp add: trees_ok_def tree_stored_def touched_since_def)
qed

text \<open>A touch since the start answers every mark set up to then: the tree passes the check of the commit.\<close>

lemma touched_since_passes:
  assumes "touched_since (rp_ext r) ob start i" "tree_stored r ob i" "m \<le> start * NANOS"
  shows "tree_touched (rp_ext r) ob i m"
proof -
  from assms(1) obtain tm where tm: "start \<le> tm" "ob (touch_key (rp_ext r) i) = Some (TOUCH_MAGIC, tm)"
    by (auto simp: touched_since_def)
  have "start * NANOS \<le> tm * NANOS" using tm(1) by (simp add: NANOS_def)
  with assms(2,3) tm(2) show ?thesis by (auto simp: tree_touched_def tree_stored_def)
qed

lemma write_tree_Inr:
  assumes "write_tree r rnd t b s = (Inr (i, b'), s')"
  obtains bs where "repo_seal_tree r (rnd (bk_draws b)) t = Inr (i, bs)"
    "b' = b\<lparr>bk_draws := bk_draws b + 1, bk_seen_trees := insert i (bk_seen_trees b)\<rparr>"
    "if i \<in> bk_seen_trees b then s' = s
     else store_tree r (map_of (bk_marks_at_start b) (tree_object i) \<noteq> None) i bs s = (Inr (), s')"
proof -
  from assms obtain bs where "repo_seal_tree r (rnd (bk_draws b)) t = Inr (i, bs)"
    "(if i \<in> bk_seen_trees b then io_lift (Inr (i, b\<lparr>bk_draws := bk_draws b + 1\<rparr>))
      else io_then (store_tree r (map_of (bk_marks_at_start b) (tree_object i) \<noteq> None) i bs) (\<lambda>_.
        io_lift (Inr (i, b\<lparr>bk_draws := bk_draws b + 1, bk_seen_trees := insert i (bk_seen_trees b)\<rparr>)))) s = (Inr (i, b'), s')"
    by (auto simp: write_tree_def Let_def result_simps split: if_splits)
  then show ?thesis by (intro that [of bs]) (auto simp: result_simps insert_absorb split: if_splits)
qed

text \<open>
  C22: storing a directory keeps the promise the commit checks: after \<open>write_tree\<close> the tree counts as
  reached, and every tree reached so far - this one included - is stored under its name as bytes a
  reader accepts, healed if the stored copy was damaged, and has its replica when replicas are kept.
  Every reached tree that was in the store before the backup reached it (\<open>reused\<close>, which this tree
  joins when it was there), and every one marked when the backup started, has been touched since the
  start, so it passes the check of the commit against any mark set by then. The touch of this tree
  is no older than the call. No other object changes.
\<close>

theorem write_tree_keeps_promise:
  assumes "store_ok (rp_ops r) objs" "clock_ok (rp_ops r) objs clock" "hex_ok (rp_ext r)" "aead_ok (rp_ext r)"
    "rng_ok (rnd (bk_draws b))" "codec_ok (ev_tree (rp_env r)) {t}" "trees_ok r (objs s) reused start b" "start \<le> clock s"
    "write_tree r rnd t b s = (Inr (i, b'), s')"
    "reused' = (if i \<notin> bk_seen_trees b \<and> objs s (tree_key (rp_ext r) i) \<noteq> None then insert i reused else reused)"
  shows "i \<in> bk_seen_trees b' \<and> bk_seen_trees b \<subseteq> bk_seen_trees b' \<and> trees_ok r (objs s') reused' start b'
    \<and> start \<le> clock s'
    \<and> (\<forall>j \<in> bk_seen_trees b'. j \<in> reused' \<or> map_of (bk_marks_at_start b') (tree_object j) \<noteq> None \<longrightarrow>
         (\<forall>m. m \<le> start * NANOS \<longrightarrow> tree_touched (rp_ext r) (objs s') j m))
    \<and> (i \<notin> bk_seen_trees b \<and> objs s (tree_key (rp_ext r) i) \<noteq> None \<longrightarrow> touched_since (rp_ext r) (objs s') (clock s) i)
    \<and> (\<forall>k. k \<notin> {tree_key (rp_ext r) i, tree_replica_key (rp_ext r) i, touch_key (rp_ext r) i} \<longrightarrow> objs s' k = objs s k)"
proof -
  obtain bs where seal: "repo_seal_tree r (rnd (bk_draws b)) t = Inr (i, bs)"
    and b': "b' = b\<lparr>bk_draws := bk_draws b + 1, bk_seen_trees := insert i (bk_seen_trees b)\<rparr>"
    and run: "if i \<in> bk_seen_trees b then s' = s
      else store_tree r (map_of (bk_marks_at_start b) (tree_object i) \<noteq> None) i bs s = (Inr (), s')"
    by (rule write_tree_Inr [OF assms(9)])
  have "trees_ok r (objs s') reused' start b' \<and> start \<le> clock s'
    \<and> (i \<notin> bk_seen_trees b \<and> objs s (tree_key (rp_ext r) i) \<noteq> None \<longrightarrow> touched_since (rp_ext r) (objs s') (clock s) i)
    \<and> (\<forall>k. k \<notin> {tree_key (rp_ext r) i, tree_replica_key (rp_ext r) i, touch_key (rp_ext r) i} \<longrightarrow> objs s' k = objs s k)"
  proof (cases "i \<in> bk_seen_trees b")
    case True
    with run assms(7,8,10) b' show ?thesis by (auto simp: trees_ok_def)
  next
    case False
    with run have st: "store_tree r (map_of (bk_marks_at_start b) (tree_object i) \<noteq> None) i bs s = (Inr (), s')" by simp
    note eff = store_tree_effect [OF assms(1,2) st]
    have "tree_copy r i bs t" by (rule seal_tree_copy [OF assms(4,5,6) seal])
    with eff(4) have stored: "tree_stored r (objs s') i" by (auto simp: tree_stored_def)
    have since: "touched_since (rp_ext r) (objs s') start i" if "touched_since (rp_ext r) (objs s') (clock s) i"
      using that assms(8) by (auto simp: touched_since_def intro: order.trans)
    have sub: "reused \<subseteq> bk_seen_trees b" using assms(7) by (simp add: trees_ok_def)
    have others: "tree_stored r (objs s') j \<and> (0 < rc_replicas (rp_config r) \<longrightarrow> objs s' (tree_replica_key (rp_ext r) j) \<noteq> None)
        \<and> (j \<in> reused' \<or> map_of (bk_marks_at_start b) (tree_object j) \<noteq> None \<longrightarrow> touched_since (rp_ext r) (objs s') start j)"
      if "j \<in> bk_seen_trees b" for j
      using trees_ok_other [OF assms(7,3) that _ eff(1)] False that assms(10) by (auto split: if_splits)
    have "i \<in> reused' \<longrightarrow> objs s (tree_key (rp_ext r) i) \<noteq> None"
      using assms(10) sub False by (auto split: if_splits)
    with eff(4) since have mine: "(0 < rc_replicas (rp_config r) \<longrightarrow> objs s' (tree_replica_key (rp_ext r) i) \<noteq> None)
        \<and> (i \<in> reused' \<or> map_of (bk_marks_at_start b) (tree_object i) \<noteq> None \<longrightarrow> touched_since (rp_ext r) (objs s') start i)"
      by blast
    have "reused' \<subseteq> insert i (bk_seen_trees b)" using assms(10) sub by (auto split: if_splits)
    with others mine stored have "trees_ok r (objs s') reused' start b'" by (auto simp: trees_ok_def b')
    moreover have "start \<le> clock s'" using eff(4) assms(8) by (blast intro: order.trans)
    ultimately show ?thesis using eff(1,4) by blast
  qed
  then have res: "trees_ok r (objs s') reused' start b'" "start \<le> clock s'"
    "i \<notin> bk_seen_trees b \<and> objs s (tree_key (rp_ext r) i) \<noteq> None \<longrightarrow> touched_since (rp_ext r) (objs s') (clock s) i"
    "\<forall>k. k \<notin> {tree_key (rp_ext r) i, tree_replica_key (rp_ext r) i, touch_key (rp_ext r) i} \<longrightarrow> objs s' k = objs s k"
    by blast+
  have "tree_touched (rp_ext r) (objs s') j m" if "j \<in> bk_seen_trees b'" "m \<le> start * NANOS"
    "j \<in> reused' \<or> map_of (bk_marks_at_start b') (tree_object j) \<noteq> None" for j m
  proof -
    have "touched_since (rp_ext r) (objs s') start j" "tree_stored r (objs s') j"
      using res(1) that(1,3) unfolding trees_ok_def by blast+
    then show ?thesis using that(2) by (rule touched_since_passes)
  qed
  then show ?thesis using res b' by auto
qed

section \<open>A directory of two files, for witnesses\<close>

definition demo_backup :: backup where
  "demo_backup = \<lparr>bk_packer = new_pack_writer (keys_from_master demo_ext (replicate 32 1)) 100 64, bk_index = new_index,
     bk_seen_trees = {}, bk_new_packs = [], bk_uploads = [],
     bk_stats = \<lparr>ss_files = 0, ss_dirs = 0, ss_symlinks = 0, ss_bytes = 0\<rparr>, bk_report = backup_report_default,
     bk_parent_start_ns = 0, bk_marked = {}, bk_marks_at_start = [], bk_referenced = [], bk_parity = 0,
     bk_hardlinks = [], bk_counted_hardlinks = {}, bk_chunk_bufs = [],
     bk_exclude = \<lparr>ex_patterns = [], ex_if_present = [], ex_larger_than = None, ex_one_file_system = False\<rparr>, bk_draws = 0\<rparr>"

definition demo_file :: "u8 \<Rightarrow> entry" where
  "demo_file c = \<lparr>en_name = [c], en_kind = NT_FILE, en_meta_kind = MK_GENERIC, en_size = 0, en_target = [],
     en_content = CT_DIRECT, en_chunks = [], en_subtree = TREE_ZERO, en_mode = None, en_uid = None, en_gid = None,
     en_mtime_ns = None, en_ctime_ns = None, en_dev = None, en_inode = None, en_nlink = None, en_xattrs = None,
     en_etag = None, en_vern = None\<rparr>"

definition demo_dir :: tree where "demo_dir = new_tree [demo_file 97, demo_file 98] None"

definition demo_dir_repo :: "map_state repository" where "demo_dir_repo = demo_repo 1 [demo_dir] [] []"

lemma demo_dir_simps [simp]:
  "rp_ops demo_dir_repo = map_store" "rp_ext demo_dir_repo = demo_ext" "ev_tree (rp_env demo_dir_repo) = demo_codec [demo_dir]"
  "rp_keys demo_dir_repo = keys_from_master demo_ext (replicate 32 1)" "rc_replicas (rp_config demo_dir_repo) = 1"
  by (simp_all add: demo_dir_repo_def)

lemma demo_dir_valid: "tree_validate demo_dir = Inr ()"
  by (simp add: demo_dir_def demo_file_def tree_validate_def new_tree_def entry_validate_def name_is_bad_def ascii_def
      validate_node_def validate_content_def validate_meta_def tree_is_zero_def node_consts meta_kind_is_valid_def
      MAX_INLINE_CHUNKS_def MAX_NODES_PER_TREE_def)

abbreviation demo_dir_bytes :: bytes where
  "demo_dir_bytes \<equiv> replicate 24 0 @ [0] @ demo_tag (rk_meta (keys_from_master demo_ext (replicate 32 1))) (pad32 [0])"

lemma demo_dir_seal: "repo_seal_tree demo_dir_repo demo_nonce demo_dir = Inr (TreeId (pad32 [0]), demo_dir_bytes)"
  by (simp add: repo_seal_tree_def demo_dir_valid tree_id_of_def seal_tree_def Let_def)

lemma demo_write_tree:
  "\<exists>b' s'. write_tree demo_dir_repo (\<lambda>n. demo_nonce) demo_dir demo_backup ([], 0) = (Inr (TreeId (pad32 [0]), b'), s')
     \<and> map_objs s' (tree_key demo_ext (TreeId (pad32 [0]))) = Some (demo_dir_bytes, 0)"
  by (simp add: write_tree_def demo_dir_seal io_then_lift demo_backup_def store_tree_def put_tree_def put_tree_replica_def
      io_then_def io_lift_def io_try_def backend_put_if_absent_def backend_path_def map_store_def map_put_def map_objs_def
      map_time_def MIN_TIMESTAMP_def MAX_TIMESTAMP_def io_err_def demo_hex_ok Let_def)

lemma demo_dir_reads_once:
  assumes "map_objs s (tree_key demo_ext (TreeId (pad32 [0]))) = Some (demo_dir_bytes, 0)"
  shows "read_tree_once demo_dir_repo s (tree_key demo_ext (TreeId (pad32 [0]))) (TreeId (pad32 [0])) = Inr demo_dir"
proof -
  have "backend_get map_store (tree_key demo_ext (TreeId (pad32 [0]))) s = Inr demo_dir_bytes"
    by (rule live_get(1) [OF map_store_ok map_store_live assms])
  moreover have "tree_copy demo_dir_repo (TreeId (pad32 [0])) demo_dir_bytes demo_dir"
    by (rule seal_tree_copy [OF _ demo_nonce_ok _ demo_dir_seal]) (simp_all add: demo_aead_ok demo_codec_ok)
  ultimately show ?thesis by (auto simp: read_tree_once_Inr)
qed

lemma demo_dir_reads:
  assumes "map_objs s (tree_key demo_ext (TreeId (pad32 [0]))) = Some (demo_dir_bytes, 0)"
  shows "read_tree demo_dir_repo s (TreeId (pad32 [0])) = Inr demo_dir"
  using demo_dir_reads_once [OF assms] by (simp add: read_tree_def)

text \<open>A store that already has the directory, at time 1: the backup finds it and touches it.\<close>

definition demo_dir_state :: map_state where
  "demo_dir_state = ([(tree_key demo_ext (TreeId (pad32 [0])), demo_dir_bytes, 0)], 1)"

lemma demo_rewrite_tree:
  "\<exists>b' s'. write_tree demo_dir_repo (\<lambda>n. demo_nonce) demo_dir demo_backup demo_dir_state = (Inr (TreeId (pad32 [0]), b'), s')"
proof -
  let ?i = "TreeId (pad32 [0])" and ?s = "demo_dir_state"
  have here: "map_objs ?s (tree_key demo_ext ?i) = Some (demo_dir_bytes, 0)"
    by (simp add: demo_dir_state_def map_objs_def)
  have "read_tree_once demo_dir_repo ?s (tree_key demo_ext ?i) ?i = Inr demo_dir"
    by (rule demo_dir_reads_once [OF here])
  then have primary: "put_tree demo_dir_repo ?i demo_dir_bytes ?s = (Inr False, ?s)"
    using here by (simp add: put_tree_def io_try_def io_then_def io_lift_def io_read_def backend_put_if_absent_def
      backend_path_def map_store_def io_err_def map_store_err_def Let_def)
  have rest: "\<exists>s'. io_then (put_tree_replica demo_dir_repo ?i demo_dir_bytes) (\<lambda>_. touch_tree demo_dir_repo ?i) s = (Inr (), s')" for s
    by (auto simp: put_tree_replica_def touch_tree_def io_try_def io_then_def io_lift_def backend_put_if_absent_def
      backend_put_def backend_path_def map_store_def map_put_def io_err_def map_store_err_def)
  from primary rest [of ?s] show ?thesis
    by (auto simp: write_tree_def demo_dir_seal io_then_lift demo_backup_def store_tree_def io_then_def [of "put_tree _ _ _"]
      io_lift_def Let_def) (auto simp: io_then_def)
qed

theorem write_tree_keeps_promise_witness:
  "\<exists>b' s'. write_tree demo_dir_repo (\<lambda>n. demo_nonce) demo_dir demo_backup demo_dir_state = (Inr (TreeId (pad32 [0]), b'), s')
     \<and> trees_ok demo_dir_repo (map_objs s') {TreeId (pad32 [0])} 1 b'
     \<and> touched_since demo_ext (map_objs s') 1 (TreeId (pad32 [0]))"
proof -
  obtain b' s' where w: "write_tree demo_dir_repo (\<lambda>n. demo_nonce) demo_dir demo_backup demo_dir_state = (Inr (TreeId (pad32 [0]), b'), s')"
    using demo_rewrite_tree by blast
  have seen: "bk_seen_trees demo_backup = {}" by (simp add: demo_backup_def)
  have "trees_ok demo_dir_repo (map_objs demo_dir_state) {} 1 demo_backup" by (simp add: trees_ok_def seen)
  moreover have "map_objs demo_dir_state (tree_key demo_ext (TreeId (pad32 [0]))) = Some (demo_dir_bytes, 0)"
    by (simp add: demo_dir_state_def map_objs_def)
  moreover have "map_time demo_dir_state = 1"
    by (simp add: demo_dir_state_def map_time_def MIN_TIMESTAMP_def MAX_TIMESTAMP_def)
  ultimately show ?thesis
    using write_tree_keeps_promise [where objs = map_objs and clock = map_time and start = 1 and reused = "{}", OF _ _ _ _ _ _ _ _ w refl] w seen
    by (auto simp: map_store_ok map_store_clock demo_hex_ok demo_aead_ok demo_nonce_ok demo_codec_ok)
qed

theorem parent_stream_lookup_witness:
  "\<exists>s ps. parent_open demo_dir_repo s (TreeId (pad32 [0])) = Some (Inr ps)
     \<and> take_names demo_dir_repo s [[96], [98], [99]] ps = [None, Some (demo_file 98), None]"
proof -
  obtain s where s: "map_objs s (tree_key demo_ext (TreeId (pad32 [0]))) = Some (demo_dir_bytes, 0)"
    using demo_write_tree by blast
  have p: "tr_prev demo_dir = None" "tr_entries demo_dir = [demo_file 97, demo_file 98]"
    by (simp_all add: demo_dir_def new_tree_def)
  have "tree_chain demo_dir_repo s (tr_prev demo_dir) []" unfolding p by (rule chain_end)
  then have c: "tree_chain demo_dir_repo s (Some (TreeId (pad32 [0]))) [(TreeId (pad32 [0]), demo_dir)]"
    by (rule chain_step [OF demo_dir_reads [OF s]])
  have "names_sorted (concat (map (tr_entries \<circ> snd) (rev [(TreeId (pad32 [0]), demo_dir)])))"
    by (simp add: p names_sorted_def demo_file_def)
  note parent_stream_lookup [OF c _ this, of "[[96], [98], [99]]"]
  moreover have "map (lookup_name (tr_entries demo_dir)) [[96], [98], [99]] = [None, Some (demo_file 98), None]"
    by (simp add: p lookup_name_def demo_file_def)
  ultimately obtain ps where "parent_open demo_dir_repo s (TreeId (pad32 [0])) = Some (Inr ps)"
    "take_names demo_dir_repo s [[96], [98], [99]] ps = [None, Some (demo_file 98), None]"
    by (auto simp del: take_names.simps)
  then show ?thesis by blast
qed

end
