(* ===== verification/Backup_Data.thy ===== *)
theory Backup_Data
  imports Tree_Write
begin

text \<open>
  Cutting, deduplicating and packing file contents: \<open>chunk_reader\<close>, \<open>flush_pack\<close>, \<open>handle_finished\<close>,
  \<open>wait_uploads\<close> and \<open>record_referenced\<close> of \<open>crates/kist-core/src/backup.rs\<close>.

  The loop over chunks need not end for a chunker with senseless parameters, so it is a partial
  function; under the parameters a repository accepts it returns. The counters do not overflow.
\<close>

record 's backup_env =
  be_repo :: "'s repository"
  be_rnd :: "nat \<Rightarrow> string + bytes"
  be_rs :: rs_coder
  be_parity_codec :: "parity_object codec"

abbreviation be_ext :: "'s backup_env \<Rightarrow> ext" where "be_ext v \<equiv> rp_ext (be_repo v)"
abbreviation be_keys :: "'s backup_env \<Rightarrow> repo_keys" where "be_keys v \<equiv> rp_keys (be_repo v)"
abbreviation be_params :: "'s backup_env \<Rightarrow> chunker_params" where "be_params v \<equiv> rc_chunker (rp_config (be_repo v))"

record file_result =
  fr_chunks :: "chunk_id list"
  fr_bytes_total :: nat
  fr_bytes_new :: nat
  fr_chunks_new :: nat

record chunk_progress =
  cg_chunks :: chunk_state
  cg_ids :: "chunk_id list"
  cg_bytes_total :: nat
  cg_bytes_new :: nat
  cg_chunks_new :: nat
  cg_reused_count :: nat
  cg_revived_count :: nat
  cg_reused :: "(chunk_id \<times> object_id) list"

text \<open>What moves into the blocking closure and back.\<close>

record chunk_work =
  cw_packer :: pack_writer
  cw_index :: chunk_index
  cw_progress :: chunk_progress
  cw_draws :: nat

datatype round_stop = NextRound | AllRead | ReadFailed string | PackFailed core_error

section \<open>One chunk\<close>

definition count_chunk :: "chunk_id \<Rightarrow> bytes \<Rightarrow> chunk_progress \<Rightarrow> chunk_progress" where
  "count_chunk i chunk g = g\<lparr>cg_bytes_total := cg_bytes_total g + length chunk, cg_ids := cg_ids g @ [i]\<rparr>"

definition reuse_chunk :: "chunk_id \<Rightarrow> object_id \<Rightarrow> chunk_progress \<Rightarrow> chunk_progress" where
  "reuse_chunk i pack g = g\<lparr>cg_reused_count := cg_reused_count g + 1, cg_reused := cg_reused g @ [(i, pack)]\<rparr>"

definition new_chunk :: "bool \<Rightarrow> bytes \<Rightarrow> chunk_progress \<Rightarrow> chunk_progress" where
  "new_chunk revived chunk g = g\<lparr>cg_revived_count := cg_revived_count g + (if revived then 1 else 0),
     cg_bytes_new := cg_bytes_new g + length chunk, cg_chunks_new := cg_chunks_new g + 1\<rparr>"

definition place_chunk :: "'s backup_env \<Rightarrow> object_id set \<Rightarrow> bytes \<Rightarrow> chunk_work \<Rightarrow> chunk_work \<times> (core_error + bool)" where
  \<comment> \<open>whether the chunk went into the pack\<close>
  "place_chunk v marked chunk w =
     (let i = chunk_id_of (be_ext v) (be_keys v) chunk;
          g = count_chunk i chunk (cw_progress w);
          known = index_get (cw_index w) i
      in if (case known of None \<Rightarrow> False | Some loc \<Rightarrow> lo_pack loc \<notin> marked)
         then (w\<lparr>cw_progress := reuse_chunk i (lo_pack (the known)) g\<rparr>, Inr False)
         else (case pw_add (be_ext v) (be_rnd v (cw_draws w)) (cw_packer w) i chunk of
             Inl e \<Rightarrow> (w\<lparr>cw_progress := g\<rparr>, Inl e)
           | Inr (entry, packer) \<Rightarrow>
               (\<lparr>cw_packer = packer,
                 cw_index = (if known \<noteq> None then replace_pending else add_pending) (cw_index w) entry,
                 cw_progress = new_chunk (known \<noteq> None) chunk g, cw_draws = cw_draws w + 1\<rparr>, Inr True)))"

definition seal_full_pack :: "'s backup_env \<Rightarrow> chunk_work \<Rightarrow> chunk_work \<times> finished_pack option \<times> round_stop" where
  "seal_full_pack v w =
     (case pw_finish (be_ext v) (ev_trailer (rp_env (be_repo v))) (be_rnd v (cw_draws w)) (cw_packer w) of
        (Inl e, packer) \<Rightarrow> (w\<lparr>cw_packer := packer\<rparr>, None, PackFailed e)
      | (Inr None, packer) \<Rightarrow> (w\<lparr>cw_packer := packer\<rparr>, None, NextRound)
      | (Inr (Some f), packer) \<Rightarrow>
          (w\<lparr>cw_packer := packer, cw_index := resolve_pending (cw_index w) (fp_id f) (length (fp_bytes f)) (fp_entries f),
             cw_draws := cw_draws w + 1\<rparr>, Some f, NextRound))"

partial_function (option) chunk_round :: "'s backup_env \<Rightarrow> object_id set \<Rightarrow> chunk_work \<Rightarrow>
    (chunk_work \<times> finished_pack option \<times> round_stop) option" where
  "chunk_round v marked w =
     (case next_chunk (cg_chunks (cw_progress w)) of
        (cs, res) \<Rightarrow>
          (let w0 = w\<lparr>cw_progress := (cw_progress w)\<lparr>cg_chunks := cs\<rparr>\<rparr>
           in case res of
               Inl e \<Rightarrow> Some (w0, None, ReadFailed e)
             | Inr None \<Rightarrow> Some (w0, None, AllRead)
             | Inr (Some chunk) \<Rightarrow>
                 (case place_chunk v marked chunk w0 of
                    (w1, Inl e) \<Rightarrow> Some (w1, None, PackFailed e)
                  | (w1, Inr added) \<Rightarrow>
                      if added \<and> pw_is_full (cw_packer w1) then Some (seal_full_pack v w1)
                      else chunk_round v marked w1)))"

section \<open>Between the rounds\<close>

definition reference_chunk :: "chunk_id \<times> object_id \<Rightarrow> (object_id \<times> chunk_id list) list \<Rightarrow> (object_id \<times> chunk_id list) list" where
  "reference_chunk = (\<lambda>(i, pack) refs.
     if pack = PENDING_PACK then refs
     else AList.update pack ((case map_of refs pack of None \<Rightarrow> [] | Some cs \<Rightarrow> cs) @ [i]) refs)"

definition record_referenced :: "(chunk_id \<times> object_id) list \<Rightarrow> backup \<Rightarrow> backup" where
  "record_referenced chunks b = b\<lparr>bk_referenced := fold reference_chunk chunks (bk_referenced b)\<rparr>"

definition skip :: "backup \<Rightarrow> backup" where
  "skip b = b\<lparr>bk_report := (bk_report b)\<lparr>br_errors := br_errors (bk_report b) + 1\<rparr>\<rparr>"

definition upload_pack :: "'s backup_env \<Rightarrow> nat \<Rightarrow> finished_pack \<Rightarrow> (core_error, 's, unit) io" where
  \<comment> \<open>the parity object is a sidecar: its failures are not those of the backup\<close>
  "upload_pack v m f =
     io_then (store_pack (be_repo v) f) (\<lambda>_.
       if 0 < m then
         (case parity_encode (be_ext v) (be_rs v) (be_parity_codec v) (fp_id f) (fp_bytes f) m of
            Inl e \<Rightarrow> io_lift (Inr ())
          | Inr pb \<Rightarrow> io_try (backend_put_if_absent (rp_ops (be_repo v)) (parity_key (be_ext v) (fp_id f)) pb)
              (\<lambda>res. io_lift (Inr ())))
       else io_lift (Inr ()))"

definition MAX_INFLIGHT_UPLOADS :: nat where "MAX_INFLIGHT_UPLOADS = 1"

function wait_uploads :: "'s backup_env \<Rightarrow> nat \<Rightarrow> backup \<Rightarrow> (core_error, 's, backup) io" where
  "wait_uploads v n b =
     (if length (bk_uploads b) \<le> n then io_lift (Inr b)
      else io_then (upload_pack v (bk_parity b) (hd (bk_uploads b))) (\<lambda>_.
        wait_uploads v n (b\<lparr>bk_uploads := tl (bk_uploads b)\<rparr>)))"
  by pat_completeness auto
termination by (relation "measure (\<lambda>(v, n, b). length (bk_uploads b))") auto

declare wait_uploads.simps [simp del]

definition handle_finished :: "'s backup_env \<Rightarrow> finished_pack \<Rightarrow> backup \<Rightarrow> (core_error, 's, backup) io" where
  "handle_finished v f b =
     io_then (wait_uploads v (MAX_INFLIGHT_UPLOADS - 1) b) (\<lambda>b1.
       io_lift (Inr (b1\<lparr>bk_new_packs := bk_new_packs b1 @ [pack_item f],
         bk_report := (bk_report b1)\<lparr>br_packs_new := br_packs_new (bk_report b1) + 1\<rparr>,
         bk_uploads := bk_uploads b1 @ [f]\<rparr>)))"

definition flush_pack :: "'s backup_env \<Rightarrow> backup \<Rightarrow> (core_error, 's, backup) io" where
  "flush_pack v b =
     (case pw_finish (be_ext v) (ev_trailer (rp_env (be_repo v))) (be_rnd v (bk_draws b)) (bk_packer b) of
        (Inl e, packer) \<Rightarrow> io_lift (Inl e)
      | (Inr None, packer) \<Rightarrow> io_lift (Inr (b\<lparr>bk_packer := packer\<rparr>))
      | (Inr (Some f), packer) \<Rightarrow>
          handle_finished v f (b\<lparr>bk_packer := packer, bk_draws := bk_draws b + 1,
            bk_index := resolve_pending (bk_index b) (fp_id f) (length (fp_bytes f)) (fp_entries f)\<rparr>))"

section \<open>A whole file\<close>

definition start_progress :: "chunk_state \<Rightarrow> chunk_progress" where
  "start_progress cs = \<lparr>cg_chunks = cs, cg_ids = [], cg_bytes_total = 0, cg_bytes_new = 0, cg_chunks_new = 0,
     cg_reused_count = 0, cg_revived_count = 0, cg_reused = []\<rparr>"

definition return_buf :: "chunk_progress \<Rightarrow> backup \<Rightarrow> backup" where
  "return_buf g b = b\<lparr>bk_chunk_bufs := bk_chunk_bufs b @ [snd (take_buf (cg_chunks g))]\<rparr>"

definition count_reads :: "chunk_progress \<Rightarrow> backup \<Rightarrow> backup" where
  "count_reads g b = b\<lparr>bk_report := (bk_report b)\<lparr>br_chunks_read := br_chunks_read (bk_report b) + cg_reused_count g,
     br_packs_revived := br_packs_revived (bk_report b) + cg_revived_count g\<rparr>\<rparr>"

definition progress_result :: "chunk_progress \<Rightarrow> file_result" where
  "progress_result g = \<lparr>fr_chunks = cg_ids g, fr_bytes_total = cg_bytes_total g, fr_bytes_new = cg_bytes_new g,
     fr_chunks_new = cg_chunks_new g\<rparr>"

definition back_from_round :: "chunk_work \<Rightarrow> backup \<Rightarrow> backup" where
  \<comment> \<open>the packer and the index come back; the chunks reused in the round are recorded\<close>
  "back_from_round w b = record_referenced (cg_reused (cw_progress w))
     (b\<lparr>bk_packer := cw_packer w, bk_index := cw_index w, bk_draws := cw_draws w\<rparr>)"

definition handle_round :: "'s backup_env \<Rightarrow> finished_pack option \<Rightarrow> backup \<Rightarrow> (core_error, 's, backup) io" where
  "handle_round v finished b = (case finished of None \<Rightarrow> io_lift (Inr b) | Some f \<Rightarrow> handle_finished v f b)"

partial_function (option) chunk_rounds :: "'s backup_env \<Rightarrow> chunk_progress \<Rightarrow> backup \<Rightarrow> 's \<Rightarrow>
    ((core_error + file_result option \<times> backup) \<times> 's) option" where
  "chunk_rounds v g b s =
     (case chunk_round v (bk_marked b) \<lparr>cw_packer = bk_packer b, cw_index = bk_index b, cw_progress = g, cw_draws = bk_draws b\<rparr> of
        None \<Rightarrow> None
      | Some (w, finished, stop) \<Rightarrow>
          (let g1 = (cw_progress w)\<lparr>cg_reused := []\<rparr>
           in case handle_round v finished (back_from_round w b) s of
               (Inl e, s1) \<Rightarrow> Some (Inl e, s1)
             | (Inr b1, s1) \<Rightarrow>
                 (case stop of
                    NextRound \<Rightarrow> chunk_rounds v g1 b1 s1
                  | PackFailed e \<Rightarrow> Some (Inl e, s1)
                  | ReadFailed e \<Rightarrow> Some (Inr (None, skip (return_buf g1 b1)), s1)
                  | AllRead \<Rightarrow> Some (Inr (Some (progress_result g1), count_reads g1 (return_buf g1 b1)), s1))))"

definition chunk_reader :: "'s backup_env \<Rightarrow> read_op list \<Rightarrow> backup \<Rightarrow> 's \<Rightarrow>
    ((core_error + file_result option \<times> backup) \<times> 's) option" where
  "chunk_reader v reader b s =
     (let buf = (if bk_chunk_bufs b = [] then [] else last (bk_chunk_bufs b))
      in chunk_rounds v (start_progress (chunks_with_buf (be_params v) reader buf))
           (b\<lparr>bk_chunk_bufs := butlast (bk_chunk_bufs b)\<rparr>) s)"

end
