(* ===== verification/Backup_Safety.thy ===== *)
theory Backup_Safety
  imports Backup_Data
begin

text \<open>
  The contents of files are safe: an account of where every chunk of a running backup is - in the
  pack being written, in a pack of this backup, or in an unmarked pack of the index it started with -
  and the proof that cutting, deduplicating, packing and uploading keep it.
\<close>

section \<open>The account\<close>

abbreviation be_max :: "'s backup_env \<Rightarrow> nat" where "be_max v \<equiv> cp_max (be_params v)"

abbreviation be_id :: "'s backup_env \<Rightarrow> bytes \<Rightarrow> chunk_id" where "be_id v \<equiv> chunk_id_of (be_ext v) (be_keys v)"

definition env_ok :: "'s backup_env \<Rightarrow> bool" where
  "env_ok v \<longleftrightarrow> aead_ok (be_ext v) \<and> zstd_ok (be_ext v) \<and> hex_ok (be_ext v) \<and> params_ok (be_params v)
     \<and> be_max v \<le> MAX_CHUNKER_MAX \<and> (\<forall>n. rng_ok (be_rnd v n))"

definition index_real :: "chunk_index \<Rightarrow> bool" where
  \<comment> \<open>an index just loaded: no chunk is pending\<close>
  "index_real x \<longleftrightarrow> (\<forall>c l. index_get x c = Some l \<or> base_get x c = Some l \<longrightarrow> lo_pack l \<noteq> PENDING_PACK)"

abbreviation entry_ids :: "pack_entry list \<Rightarrow> chunk_id set" where "entry_ids es \<equiv> pe_id ` set es"

definition index_tracks :: "chunk_index \<Rightarrow> index_pack set \<Rightarrow> pack_entry list \<Rightarrow> chunk_index \<Rightarrow> bool" where
  \<comment> \<open>what the index of the backup says beyond the one it started with\<close>
  "index_tracks x0 news es x \<longleftrightarrow> ci_base x = ci_base x0
     \<and> (\<forall>c l. index_get x c = Some l \<longrightarrow> index_get x0 c = Some l
          \<or> (lo_pack l = PENDING_PACK \<and> c \<in> entry_ids es)
          \<or> (\<exists>p \<in> news. lo_pack l = ip_pack p \<and> c \<in> entry_ids (ip_entries p)))"

definition writing :: "'s backup_env \<Rightarrow> pack_writer \<Rightarrow> bool" where
  "writing v w \<longleftrightarrow> pw_keys w = be_keys v \<and> (\<exists>ms. writer_inv (be_ext v) (be_max v) ms w)"

definition pack_built :: "'s backup_env \<Rightarrow> finished_pack \<Rightarrow> bool" where
  "pack_built v f \<longleftrightarrow> fp_id f = object_id_of (be_ext v) (fp_bytes f)
     \<and> (\<exists>ms. list_all2 (holds_chunk (be_ext v) (be_keys v) (be_max v) (fp_bytes f)) (fp_entries f) ms)"

definition held :: "chunk_index \<Rightarrow> object_id set \<Rightarrow> index_pack set \<Rightarrow> pack_entry list \<Rightarrow> (chunk_id \<Rightarrow> object_id \<Rightarrow> bool) \<Rightarrow> chunk_id \<Rightarrow> bool" where
  \<comment> \<open>\<open>refd c p\<close>: the chunk is recorded as used from the pack\<close>
  "held x0 marked news es refd c \<longleftrightarrow> c \<in> entry_ids es \<or> (\<exists>p \<in> news. c \<in> entry_ids (ip_entries p))
     \<or> (\<exists>l. index_get x0 c = Some l \<and> lo_pack l \<notin> marked \<and> refd c (lo_pack l))"

lemma held_mono:
  "held x0 marked news es refd c \<Longrightarrow> set es \<subseteq> set es' \<Longrightarrow> news \<subseteq> news' \<Longrightarrow> (\<And>c p. refd c p \<Longrightarrow> refd' c p) \<Longrightarrow>
    held x0 marked news' es' refd' c"
  unfolding held_def by blast

lemma held_sealed: "held x0 marked news es refd c \<Longrightarrow> ip_entries p = es \<Longrightarrow> held x0 marked (insert p news) [] refd c"
  unfolding held_def by auto

section \<open>The index\<close>

lemma index_get_put:
  "index_get (x\<lparr>ci_overlay := AList.update i l (ci_overlay x)\<rparr>) c = (if c = i then Some l else index_get x c)"
proof -
  have "base_get (x\<lparr>ci_overlay := AList.update i l (ci_overlay x)\<rparr>) c = base_get x c" by (simp add: base_get_def)
  then show ?thesis by (auto simp: index_get_def update_conv' split: option.splits)
qed

lemma tracks_pending:
  assumes "index_tracks x0 news es x" "pe_id e = i"
  shows "index_tracks x0 news (es @ [e]) (replace_pending x e)"
    and "index_get x i = None \<Longrightarrow> index_tracks x0 news (es @ [e]) (add_pending x e)"
proof -
  have "replace_pending x e = x\<lparr>ci_overlay := AList.update i (location PENDING_PACK e) (ci_overlay x)\<rparr>"
    by (simp add: replace_pending_def assms(2))
  then have get: "index_get (replace_pending x e) c = (if c = i then Some (location PENDING_PACK e) else index_get x c)" for c
    by (simp only: index_get_put)
  show r: "index_tracks x0 news (es @ [e]) (replace_pending x e)"
    unfolding index_tracks_def get
  proof (intro conjI allI impI)
    show "ci_base (replace_pending x e) = ci_base x0" using assms(1) by (simp add: index_tracks_def replace_pending_def)
    fix c l assume g: "(if c = i then Some (location PENDING_PACK e) else index_get x c) = Some l"
    show "index_get x0 c = Some l \<or> (lo_pack l = PENDING_PACK \<and> c \<in> entry_ids (es @ [e]))
          \<or> (\<exists>p \<in> news. lo_pack l = ip_pack p \<and> c \<in> entry_ids (ip_entries p))"
    proof (cases "c = i")
      case True
      with g show ?thesis by (auto simp: location_def assms(2))
    next
      case False
      with g assms(1) show ?thesis unfolding index_tracks_def by auto
    qed
  qed
  show "index_tracks x0 news (es @ [e]) (add_pending x e)" if "index_get x i = None"
  proof -
    have "map_of (ci_overlay x) i = None" using that by (simp add: index_get_def split: option.splits)
    then have "add_pending x e = replace_pending x e" by (simp add: add_pending_def replace_pending_def assms(2))
    with r show ?thesis by simp
  qed
qed

lemma resolve_entries_get:
  "map_of (resolve_entries pack es ov) c = Some l \<Longrightarrow>
     (map_of ov c = Some l \<and> \<not> (lo_pack l = PENDING_PACK \<and> c \<in> entry_ids es)) \<or> (lo_pack l = pack \<and> c \<in> entry_ids es)"
proof (induction es arbitrary: ov)
  case Nil
  then show ?case by simp
next
  case (Cons e es)
  let ?ov = "case map_of ov (pe_id e) of
          Some l \<Rightarrow> if lo_pack l = PENDING_PACK then AList.update (pe_id e) (location pack e) ov else ov
        | None \<Rightarrow> ov"
  have step: "map_of ?ov c = Some l \<Longrightarrow> (map_of ov c = Some l \<and> \<not> (lo_pack l = PENDING_PACK \<and> c = pe_id e))
      \<or> (lo_pack l = pack \<and> c = pe_id e)"
    by (auto simp: update_conv' location_def split: option.splits if_splits)
  from Cons.IH [of ?ov] Cons.prems
  consider "map_of ?ov c = Some l" "\<not> (lo_pack l = PENDING_PACK \<and> c \<in> entry_ids es)" | "lo_pack l = pack" "c \<in> entry_ids es"
    by auto
  then show ?case
  proof cases
    case 1
    with step show ?thesis by auto
  next
    case 2
    then show ?thesis by simp
  qed
qed

lemma resolve_entries_None: "map_of (resolve_entries pack es ov) c = None \<longleftrightarrow> map_of ov c = None"
proof (induction es arbitrary: ov)
  case Nil
  then show ?case by simp
next
  case (Cons e es)
  then show ?case by (auto simp: update_conv' split: option.splits)
qed

lemma tracks_resolve:
  assumes "index_tracks x0 news es x" "index_real x0" "ip_entries p = es" "ip_pack p = pack"
  shows "index_tracks x0 (insert p news) [] (resolve_pending x pack sz es)"
  unfolding index_tracks_def
proof (intro conjI allI impI)
  let ?x = "resolve_pending x pack sz es"
  show "ci_base ?x = ci_base x0" using assms(1) by (simp add: index_tracks_def resolve_pending_def)
  fix c l assume g: "index_get ?x c = Some l"
  have ov: "ci_overlay ?x = resolve_entries pack es (ci_overlay x)" "base_get ?x c = base_get x c" "base_get x c = base_get x0 c"
    using assms(1) by (simp_all add: resolve_pending_def base_get_def index_tracks_def)
  have old: "index_get x0 c = Some l \<or> (lo_pack l = PENDING_PACK \<and> c \<in> entry_ids es)
          \<or> (\<exists>p \<in> news. lo_pack l = ip_pack p \<and> c \<in> entry_ids (ip_entries p))" if "index_get x c = Some l"
    using assms(1) that by (simp add: index_tracks_def)
  have real: "lo_pack l \<noteq> PENDING_PACK" if "index_get x0 c = Some l \<or> base_get x0 c = Some l"
    using assms(2) that by (auto simp: index_real_def)
  show "index_get x0 c = Some l \<or> (lo_pack l = PENDING_PACK \<and> c \<in> entry_ids [])
          \<or> (\<exists>p \<in> insert p news. lo_pack l = ip_pack p \<and> c \<in> entry_ids (ip_entries p))"
  proof (cases "map_of (ci_overlay ?x) c")
    case None
    with ov(1) have "map_of (ci_overlay x) c = None" by (simp add: resolve_entries_None)
    with None g ov have "index_get x c = Some l" "base_get x0 c = Some l" by (simp_all add: index_get_def)
    with old real show ?thesis by auto
  next
    case (Some l')
    with g have l': "l' = l" by (simp add: index_get_def)
    with resolve_entries_get Some ov(1) consider
        "map_of (ci_overlay x) c = Some l" "\<not> (lo_pack l = PENDING_PACK \<and> c \<in> entry_ids es)"
      | "lo_pack l = pack" "c \<in> entry_ids es" by metis
    then show ?thesis
    proof cases
      case 1
      then have "index_get x c = Some l" by (simp add: index_get_def)
      with old 1(2) show ?thesis by auto
    next
      case 2
      with assms(3,4) show ?thesis by auto
    qed
  qed
qed

section \<open>The packer\<close>

lemma writing_add:
  assumes "env_ok v" "writing v w" "length chunk \<le> be_max v" "pw_add (be_ext v) (be_rnd v n) w (be_id v chunk) chunk = Inr (e, w')"
  shows "writing v w'" "pw_entries w' = pw_entries w @ [e]" "pe_id e = be_id v chunk"
proof -
  obtain ms where inv: "writer_inv (be_ext v) (be_max v) ms w" and k: "pw_keys w = be_keys v" using assms(2) by (auto simp: writing_def)
  let ?op = "\<lparr>wo_rng = be_rnd v n, wo_id = be_id v chunk, wo_data = chunk\<rparr>"
  have "aead_ok (be_ext v)" "zstd_ok (be_ext v)" "be_max v \<le> MAX_CHUNKER_MAX" using assms(1) by (simp_all add: env_ok_def)
  note laws = this
  have op: "op_ok (be_ext v) (pw_keys w) (be_max v) ?op" using assms(1,3) k by (simp add: op_ok_def env_ok_def)
  have "pw_add (be_ext v) (wo_rng ?op) w (wo_id ?op) (wo_data ?op) = Inr (e, w')" using assms(4) by simp
  note add = pw_add_inv [OF laws inv op this]
  show "writing v w'" unfolding writing_def using add(1,2) k by metis
  show "pw_entries w' = pw_entries w @ [e]" by (rule add(3))
  show "pe_id e = be_id v chunk" using add(4) by simp
qed

lemma pw_finish_built:
  assumes "writing v w" "pw_finish (be_ext v) codec os w = (Inr (Some f), w')"
  shows "pack_built v f" "writing v w'" "pw_entries w' = []" "fp_entries f = pw_entries w"
proof -
  obtain ms where inv: "writer_inv (be_ext v) (be_max v) ms w" and k: "pw_keys w = be_keys v" using assms(1) by (auto simp: writing_def)
  from assms(2) obtain sealed where
      f: "f = \<lparr>fp_id = object_id_of (be_ext v) (pack_finish (pw_buf w) sealed), fp_bytes = pack_finish (pw_buf w) sealed, fp_entries = pw_entries w\<rparr>"
    and w': "w' = w\<lparr>pw_buf := empty_buf, pw_entries := []\<rparr>"
    by (auto simp: pw_finish_def result_simps Let_def split: if_splits)
  have "list_all2 (holds_chunk (be_ext v) (be_keys v) (be_max v) (pack_finish (pw_buf w) sealed)) (pw_entries w) ms"
    using inv holds_chunk_append by (auto simp: writer_inv_def k pack_finish_def intro: list_all2_mono)
  then show "pack_built v f" by (auto simp: pack_built_def f)
  show "writing v w'" by (auto simp: writing_def w' k writer_inv_def empty_buf_def HEADER_LEN_def intro!: exI [of _ "[]"])
  show "pw_entries w' = []" "fp_entries f = pw_entries w" by (simp_all add: w' f)
qed

lemma pw_finish_None: "pw_finish ext codec os w = (Inr None, w') \<Longrightarrow> w' = w \<and> pw_entries w = []"
  by (auto simp: pw_finish_def result_simps Let_def split: if_splits)

section \<open>One chunk\<close>

definition refd_in :: "(chunk_id \<Rightarrow> object_id \<Rightarrow> bool) \<Rightarrow> chunk_progress \<Rightarrow> chunk_id \<Rightarrow> object_id \<Rightarrow> bool" where
  "refd_in refd g c p \<longleftrightarrow> refd c p \<or> (c, p) \<in> set (cg_reused g)"

definition core_ok :: "'s backup_env \<Rightarrow> chunk_index \<Rightarrow> object_id set \<Rightarrow> index_pack set \<Rightarrow> (chunk_id \<Rightarrow> object_id \<Rightarrow> bool) \<Rightarrow>
    chunk_id set \<Rightarrow> chunk_work \<Rightarrow> bool" where
  \<comment> \<open>\<open>done\<close>: the chunks of the files before this one\<close>
  "core_ok v x0 marked news refd done_ids w \<longleftrightarrow> writing v (cw_packer w)
     \<and> index_tracks x0 news (pw_entries (cw_packer w)) (cw_index w)
     \<and> (\<forall>c \<in> done_ids \<union> set (cg_ids (cw_progress w)).
          held x0 marked news (pw_entries (cw_packer w)) (refd_in refd (cw_progress w)) c)"

lemma place_chunk_cases [consumes 1, case_names reused added failed]:
  assumes "place_chunk v marked chunk w = (w1, res)"
  obtains loc where "index_get (cw_index w) (be_id v chunk) = Some loc" "lo_pack loc \<notin> marked" "res = Inr False"
      "w1 = w\<lparr>cw_progress := reuse_chunk (be_id v chunk) (lo_pack loc) (count_chunk (be_id v chunk) chunk (cw_progress w))\<rparr>"
    | e packer index where "pw_add (be_ext v) (be_rnd v (cw_draws w)) (cw_packer w) (be_id v chunk) chunk = Inr (e, packer)"
      "index = replace_pending (cw_index w) e \<or> index_get (cw_index w) (be_id v chunk) = None \<and> index = add_pending (cw_index w) e"
      "res = Inr True" "\<exists>revived. w1 = \<lparr>cw_packer = packer, cw_index = index,
         cw_progress = new_chunk revived chunk (count_chunk (be_id v chunk) chunk (cw_progress w)), cw_draws = cw_draws w + 1\<rparr>"
    | e where "res = Inl e"
proof -
  let ?i = "be_id v chunk" and ?g = "count_chunk (be_id v chunk) chunk (cw_progress w)"
  let ?known = "index_get (cw_index w) ?i"
  show thesis
  proof (cases "case ?known of None \<Rightarrow> False | Some loc \<Rightarrow> lo_pack loc \<notin> marked")
    case True
    then obtain loc where "?known = Some loc" "lo_pack loc \<notin> marked" by (auto split: option.splits)
    with assms show thesis by (intro that(1)) (auto simp: place_chunk_def Let_def)
  next
    case False
    show thesis
    proof (cases "pw_add (be_ext v) (be_rnd v (cw_draws w)) (cw_packer w) ?i chunk")
      case (Inl e)
      with assms False show thesis by (intro that(3)) (auto simp: place_chunk_def Let_def)
    next
      case (Inr p)
      obtain e packer where p: "p = (e, packer)" by force
      with assms False Inr show thesis
        by (intro that(2) [of e packer "(if ?known \<noteq> None then replace_pending else add_pending) (cw_index w) e"])
          (auto simp: place_chunk_def Let_def split: if_splits)
    qed
  qed
qed

lemma place_chunk_ok:
  assumes "env_ok v" "PENDING_PACK \<notin> marked" "core_ok v x0 marked news refd H w" "length chunk \<le> be_max v"
    "place_chunk v marked chunk w = (w1, Inr added)"
  shows "core_ok v x0 marked news refd H w1" "cg_chunks (cw_progress w1) = cg_chunks (cw_progress w)"
    "cg_ids (cw_progress w1) = cg_ids (cw_progress w) @ [be_id v chunk]"
    "cg_bytes_total (cw_progress w1) = cg_bytes_total (cw_progress w) + length chunk"
    "added \<Longrightarrow> pw_entries (cw_packer w1) \<noteq> []"
proof -
  let ?i = "be_id v chunk" and ?g = "cw_progress w" and ?es = "pw_entries (cw_packer w)"
  have wr: "writing v (cw_packer w)" and tr: "index_tracks x0 news ?es (cw_index w)"
    and old: "\<And>c. c \<in> H \<union> set (cg_ids ?g) \<Longrightarrow> held x0 marked news ?es (refd_in refd ?g) c"
    using assms(3) by (auto simp: core_ok_def)
  have "core_ok v x0 marked news refd H w1 \<and> cg_chunks (cw_progress w1) = cg_chunks ?g
    \<and> cg_ids (cw_progress w1) = cg_ids ?g @ [?i] \<and> cg_bytes_total (cw_progress w1) = cg_bytes_total ?g + length chunk
    \<and> (added \<longrightarrow> pw_entries (cw_packer w1) \<noteq> [])"
    using assms(5)
  proof (cases rule: place_chunk_cases)
    case (reused loc)
    let ?g1 = "cw_progress w1"
    have w1: "cw_packer w1 = cw_packer w" "cw_index w1 = cw_index w" "cg_ids ?g1 = cg_ids ?g @ [?i]"
      "cg_reused ?g1 = cg_reused ?g @ [(?i, lo_pack loc)]" "cg_chunks ?g1 = cg_chunks ?g"
      "cg_bytes_total ?g1 = cg_bytes_total ?g + length chunk"
      by (simp_all add: reused(4) reuse_chunk_def count_chunk_def)
    have sub: "refd_in refd ?g c p \<Longrightarrow> refd_in refd ?g1 c p" for c p by (auto simp: refd_in_def w1)
    from tr reused(1) consider "index_get x0 ?i = Some loc" | "?i \<in> entry_ids ?es"
      | p where "p \<in> news" "?i \<in> entry_ids (ip_entries p)" unfolding index_tracks_def by blast
    then have new: "held x0 marked news ?es (refd_in refd ?g1) ?i"
      using reused(2) by cases (auto simp: held_def refd_in_def w1)
    have "held x0 marked news ?es (refd_in refd ?g1) c" if "c \<in> H \<union> set (cg_ids ?g1)" for c
      using that new held_mono [OF old subset_refl subset_refl sub] by (auto simp: w1)
    with wr tr reused(3) show ?thesis by (simp add: core_ok_def w1)
  next
    case (added e packer index)
    let ?g1 = "cw_progress w1"
    obtain revived where w1': "w1 = \<lparr>cw_packer = packer, cw_index = index,
         cw_progress = new_chunk revived chunk (count_chunk ?i chunk ?g), cw_draws = cw_draws w + 1\<rparr>" using added(4) by blast
    have w1: "cw_packer w1 = packer" "cw_index w1 = index" "cg_ids ?g1 = cg_ids ?g @ [?i]"
      "cg_reused ?g1 = cg_reused ?g" "cg_chunks ?g1 = cg_chunks ?g" "cg_bytes_total ?g1 = cg_bytes_total ?g + length chunk"
      by (simp_all add: w1' new_chunk_def count_chunk_def)
    note add = writing_add [OF assms(1) wr assms(4) added(1)]
    have "index_tracks x0 news (?es @ [e]) index"
      using added(2) tracks_pending [OF tr add(3)] by auto
    moreover have "held x0 marked news (?es @ [e]) (refd_in refd ?g1) c" if "c \<in> H \<union> set (cg_ids ?g1)" for c
      using that held_mono [OF old _ subset_refl, of _ "?es @ [e]" "refd_in refd ?g1"] add(3)
      by (auto simp: w1 held_def refd_in_def)
    ultimately show ?thesis using add(1,2) by (simp add: core_ok_def w1)
  next
    case (failed e)
    then show ?thesis by simp
  qed
  then show "core_ok v x0 marked news refd H w1" "cg_chunks (cw_progress w1) = cg_chunks ?g"
    "cg_ids (cw_progress w1) = cg_ids ?g @ [?i]" "cg_bytes_total (cw_progress w1) = cg_bytes_total ?g + length chunk"
    "added \<Longrightarrow> pw_entries (cw_packer w1) \<noteq> []" by blast+
qed

lemma seal_full_pack_ok:
  assumes "index_real x0" "core_ok v x0 marked news refd H w" "pw_entries (cw_packer w) \<noteq> []" "seal_full_pack v w = (w1, fin, stop)"
  shows "(fin = None \<and> (\<exists>e. stop = PackFailed e)) \<or> (stop = NextRound \<and> cw_progress w1 = cw_progress w
     \<and> (\<exists>f. fin = Some f \<and> pack_built v f \<and> core_ok v x0 marked (insert (pack_item f) news) refd H w1))"
proof -
  let ?es = "pw_entries (cw_packer w)"
  have wr: "writing v (cw_packer w)" and tr: "index_tracks x0 news ?es (cw_index w)"
    and old: "\<And>c. c \<in> H \<union> set (cg_ids (cw_progress w)) \<Longrightarrow> held x0 marked news ?es (refd_in refd (cw_progress w)) c"
    using assms(2) by (auto simp: core_ok_def)
  obtain q packer where q: "pw_finish (be_ext v) (ev_trailer (rp_env (be_repo v))) (be_rnd v (cw_draws w)) (cw_packer w) = (q, packer)"
    by force
  show ?thesis
  proof (cases q)
    case (Inl e)
    with q assms(4) show ?thesis by (auto simp: seal_full_pack_def)
  next
    case (Inr o')
    show ?thesis
    proof (cases o')
      case None
      with q Inr pw_finish_None assms(3) show ?thesis by blast
    next
      case (Some f)
      with q Inr have fin: "pw_finish (be_ext v) (ev_trailer (rp_env (be_repo v))) (be_rnd v (cw_draws w)) (cw_packer w) = (Inr (Some f), packer)"
        by simp
      note built = pw_finish_built [OF wr fin]
      have res: "stop = NextRound" "fin = Some f" "cw_progress w1 = cw_progress w" "cw_packer w1 = packer"
        "cw_index w1 = resolve_pending (cw_index w) (fp_id f) (length (fp_bytes f)) ?es"
        using assms(4) built(4) by (auto simp: seal_full_pack_def fin)
      have item: "ip_entries (pack_item f) = ?es" "ip_pack (pack_item f) = fp_id f" by (simp_all add: pack_item_def built(4))
      have "held x0 marked (insert (pack_item f) news) [] (refd_in refd (cw_progress w)) c"
        if "c \<in> H \<union> set (cg_ids (cw_progress w))" for c
        by (rule held_sealed [OF old [OF that] item(1)])
      with built(1,2,3) tracks_resolve [OF tr assms(1) item] show ?thesis
        by (simp add: res core_ok_def)
    qed
  qed
qed

section \<open>One round\<close>

abbreviation rest_of :: "chunk_progress \<Rightarrow> bytes" where "rest_of g \<equiv> view (cg_chunks g) @ pending (cg_chunks g)"

definition cut_so_far :: "'s backup_env \<Rightarrow> bytes \<Rightarrow> bool \<Rightarrow> chunk_progress \<Rightarrow> bool" where
  "cut_so_far v data good g \<longleftrightarrow> stream_shape (cg_chunks g) \<and> (good \<longrightarrow> readable (cg_chunks g))
     \<and> cs_params (cg_chunks g) = be_params v
     \<and> (\<exists>cs. cut_all (be_params v) data = cs @ cut_all (be_params v) (rest_of g)
          \<and> cg_ids g = map (be_id v) cs \<and> cg_bytes_total g = length (concat cs))"

definition all_cut :: "'s backup_env \<Rightarrow> bytes \<Rightarrow> chunk_progress \<Rightarrow> bool" where
  "all_cut v data g \<longleftrightarrow> cg_ids g = map (be_id v) (cut_all (be_params v) data) \<and> cg_bytes_total g = length data"

definition round_ok :: "'s backup_env \<Rightarrow> (index_pack set \<Rightarrow> chunk_work \<Rightarrow> bool) \<Rightarrow> index_pack set \<Rightarrow> bytes \<Rightarrow> bool \<Rightarrow> nat \<Rightarrow>
    chunk_work \<Rightarrow> finished_pack option \<Rightarrow> round_stop \<Rightarrow> bool" where
  "round_ok v core news data good left w fin stop \<longleftrightarrow>
     (case stop of
        PackFailed e \<Rightarrow> fin = None
      | ReadFailed e \<Rightarrow> \<not> good \<and> fin = None \<and> core news w
      | AllRead \<Rightarrow> fin = None \<and> core news w \<and> all_cut v data (cw_progress w)
      | NextRound \<Rightarrow> (\<exists>f. fin = Some f \<and> pack_built v f \<and> core (insert (pack_item f) news) w
          \<and> cut_so_far v data good (cw_progress w) \<and> length (rest_of (cw_progress w)) < left))"

lemma round_ok_mono: "round_ok v core news data good k w fin stop \<Longrightarrow> k \<le> l \<Longrightarrow> round_ok v core news data good l w fin stop"
  unfolding round_ok_def by (cases stop) auto

lemma core_ok_chunks [simp]:
  "core_ok v x0 marked news refd H (w\<lparr>cw_progress := (cw_progress w)\<lparr>cg_chunks := cs\<rparr>\<rparr>) = core_ok v x0 marked news refd H w"
  by (simp add: core_ok_def refd_in_def [abs_def])

lemma cut_next:
  assumes "params_ok p" "data \<noteq> []"
  shows "cut_all p data = take (next_len p data) data # cut_all p (drop (next_len p data) data)"
    "length (drop (next_len p data) data) < length data" "length (take (next_len p data) data) \<le> cp_max p"
proof -
  note b = next_len_bounds [OF assms]
  show "cut_all p data = take (next_len p data) data # cut_all p (drop (next_len p data) data)"
    using b(1) assms(2) by (subst cut_all.simps) simp
  show "length (drop (next_len p data) data) < length data" using b(1,2) by simp
  show "length (take (next_len p data) data) \<le> cp_max p" using b(3) by simp
qed

lemma chunk_round_ok:
  assumes "env_ok v" "PENDING_PACK \<notin> marked" "index_real x0"
  shows "core_ok v x0 marked news refd H w \<Longrightarrow> cut_so_far v data good (cw_progress w) \<Longrightarrow>
    \<exists>w1 fin stop. chunk_round v marked w = Some (w1, fin, stop)
      \<and> round_ok v (\<lambda>n. core_ok v x0 marked n refd H) news data good (length (rest_of (cw_progress w))) w1 fin stop"
proof (induction "length (rest_of (cw_progress w))" arbitrary: w rule: less_induct)
  case less
  let ?core = "\<lambda>n. core_ok v x0 marked n refd H" and ?P = "be_params v" and ?rest = "rest_of (cw_progress w)"
  have P: "params_ok ?P" using assms(1) by (simp add: env_ok_def)
  from less.prems(2) have shape: "stream_shape (cg_chunks (cw_progress w))" and cp: "cs_params (cg_chunks (cw_progress w)) = ?P"
    and good: "good \<Longrightarrow> readable (cg_chunks (cw_progress w))" by (auto simp: cut_so_far_def)
  from less.prems(2) obtain cs where cs: "cut_all ?P data = cs @ cut_all ?P ?rest" "cg_ids (cw_progress w) = map (be_id v) cs"
    "cg_bytes_total (cw_progress w) = length (concat cs)" by (auto simp: cut_so_far_def)
  obtain st res where nc: "next_chunk (cg_chunks (cw_progress w)) = (st, res)" by force
  note step = next_chunk_step [OF shape, unfolded nc read_step_def, simplified]
  let ?w0 = "w\<lparr>cw_progress := (cw_progress w)\<lparr>cg_chunks := st\<rparr>\<rparr>"
  have core0: "?core news ?w0" using less.prems(1) by simp
  show ?case
  proof (cases res)
    case (Inl e)
    with step good have "\<not> good" by auto
    with core0 show ?thesis by (subst chunk_round.simps) (simp add: nc Inl Let_def round_ok_def)
  next
    case (Inr ck)
    with step have part: "next_part (cg_chunks (cw_progress w)) st ck" by simp
    show ?thesis
    proof (cases "?rest = []")
      case True
      with part have ck: "ck = None" by (simp add: next_part_def)
      have "cs = cut_all ?P data" using cs(1) True by (simp add: cut_all.simps)
      then have "all_cut v data (cw_progress w)" using cs(2,3) concat_cut_all [OF P, of data] by (simp add: all_cut_def)
      with core0 show ?thesis
        by (subst chunk_round.simps) (simp add: nc Inr ck Let_def round_ok_def all_cut_def)
    next
      case False
      define chunk where "chunk = take (next_len ?P ?rest) ?rest"
      define left where "left = drop (next_len ?P ?rest) ?rest"
      have ck: "ck = Some chunk" and st: "stream_shape st" "good \<longrightarrow> readable st" "cs_params st = ?P" "view st @ pending st = left"
        using part False good by (auto simp: next_part_def cp chunk_def left_def)
      note nx = cut_next [OF P False, folded chunk_def left_def]
      obtain w1 r where pc: "place_chunk v marked chunk ?w0 = (w1, r)" by force
      show ?thesis
      proof (cases r)
        case (Inl e)
        with pc show ?thesis by (subst chunk_round.simps) (simp add: nc Inr ck Let_def round_ok_def)
      next
        case added: (Inr added)
        note placed = place_chunk_ok [OF assms(1,2) core0 nx(3) pc [unfolded added]]
        have chs: "cg_chunks (cw_progress w1) = st" using placed(2) by simp
        have prog: "cut_so_far v data good (cw_progress w1)" unfolding cut_so_far_def
          using st cs nx(1) placed(3,4) by (auto simp: chs intro!: exI [of _ "cs @ [chunk]"])
        have shrink: "length (rest_of (cw_progress w1)) < length ?rest" using nx(2) by (simp only: chs st(4))
        show ?thesis
        proof (cases "added \<and> pw_is_full (cw_packer w1)")
          case True
          obtain w2 fin stop where seal: "seal_full_pack v w1 = (w2, fin, stop)" by (metis prod_cases3)
          have "chunk_round v marked w = Some (w2, fin, stop)"
            using True by (subst chunk_round.simps) (simp add: nc Inr ck Let_def pc added seal)
          moreover have "round_ok v ?core news data good (length ?rest) w2 fin stop"
            using seal_full_pack_ok [OF assms(3) placed(1) placed(5) seal] True prog shrink
            by (auto simp: round_ok_def)
          ultimately show ?thesis by blast
        next
          case more: False
          have "chunk_round v marked w = chunk_round v marked w1"
            using more by (subst chunk_round.simps) (auto simp: nc Inr ck Let_def pc added)
          with less.hyps [OF shrink placed(1) prog] shrink show ?thesis
            by (metis round_ok_mono less_imp_le)
        qed
      qed
    qed
  qed
qed

section \<open>Uploading\<close>

definition data_rule :: "ext \<Rightarrow> key_rule" where
  \<comment> \<open>what uploading writes: packs under the hash of their content, and parity objects\<close>
  "data_rule ext k x \<longleftrightarrow> (\<exists>i bs t. k = pack_key ext i \<and> x = Some (bs, t) \<and> object_id_of ext bs = i)
     \<or> (\<exists>i. k = parity_key ext i \<and> x \<noteq> None)"

definition pack_there :: "'s backup_env \<Rightarrow> objects \<Rightarrow> index_pack set \<Rightarrow> object_id \<Rightarrow> bool" where
  "pack_there v ob items i \<longleftrightarrow> (\<exists>g t. ob (pack_key (be_ext v) i) = Some (fp_bytes g, t) \<and> fp_id g = i
     \<and> pack_item g \<in> items \<and> pack_built v g)"

definition uploads_ok :: "'s backup_env \<Rightarrow> objects \<Rightarrow> backup \<Rightarrow> bool" where
  \<comment> \<open>every new pack is stored or still to be uploaded\<close>
  "uploads_ok v ob b \<longleftrightarrow> (\<forall>f \<in> set (bk_uploads b). pack_built v f \<and> pack_item f \<in> set (bk_new_packs b))
     \<and> (\<forall>p \<in> set (bk_new_packs b). (\<exists>f \<in> set (bk_uploads b). pack_item f = p)
          \<or> pack_there v ob (set (bk_new_packs b)) (ip_pack p))"

lemma upload_pack_effect:
  assumes "store_ok (rp_ops (be_repo v)) objs" "hex_ok (be_ext v)" "pack_built v f" "upload_pack v m f s = (r, s')"
  shows "frame (data_rule (be_ext v)) (objs s) (objs s')"
    and "r = Inr () \<Longrightarrow> (\<exists>t. objs s' (pack_key (be_ext v) (fp_id f)) = Some (fp_bytes f, t))
      \<and> (\<forall>i. i \<noteq> fp_id f \<longrightarrow> objs s' (pack_key (be_ext v) i) = objs s (pack_key (be_ext v) i))"
proof -
  let ?e = "be_ext v" and ?ops = "rp_ops (be_repo v)" and ?key = "pack_key (be_ext v) (fp_id f)"
  let ?side = "\<lambda>k (x :: (bytes \<times> int) option). k = parity_key ?e (fp_id f) \<and> x \<noteq> None"
  define part :: "(core_error, 'a, unit) io" where "part =
      (if 0 < m then
         (case parity_encode ?e (be_rs v) (be_parity_codec v) (fp_id f) (fp_bytes f) m of
            Inl e \<Rightarrow> io_lift (Inr ())
          | Inr pb \<Rightarrow> io_try (backend_put_if_absent ?ops (parity_key ?e (fp_id f)) pb) (\<lambda>res. io_lift (Inr ())))
       else io_lift (Inr ()))"
  have up: "upload_pack v m f = io_then (store_pack (be_repo v) f) (\<lambda>_. part)" by (simp add: upload_pack_def part_def)
  have side: "io_within objs ?side part" unfolding part_def
    by (auto intro!: frame_intros within_put_if_absent [OF assms(1)] split: sum.splits)
  have "io_within objs (data_rule ?e) (store_pack (be_repo v) f)"
    unfolding store_pack_def using assms(3)
    by (intro within_err within_put [OF assms(1)]) (auto simp: data_rule_def pack_built_def)
  moreover have "io_within objs (data_rule ?e) part" by (rule within_mono [OF side]) (auto simp: data_rule_def)
  ultimately have "io_within objs (data_rule ?e) (upload_pack v m f)" unfolding up by (intro within_then)
  from withinD [OF this assms(4)] show "frame (data_rule ?e) (objs s) (objs s')" .
  assume "r = Inr ()"
  with assms(4) obtain u s1 where st: "store_pack (be_repo v) f s = (Inr u, s1)" and pt: "part s1 = (Inr (), s')"
    by (auto simp: up result_simps)
  from st have "backend_put ?ops ?key (fp_bytes f) s = (Inr (), s1)" by (auto simp: store_pack_def result_simps)
  from backend_put_objs(1) [OF assms(1) this] obtain t where t: "objs s1 = (objs s)(?key \<mapsto> (fp_bytes f, t))" by auto
  have "objs s' (pack_key ?e i) = objs s1 (pack_key ?e i)" for i
    using withinD [OF side pt] by (auto simp: frame_def)
  with t show "(\<exists>t. objs s' ?key = Some (fp_bytes f, t))
      \<and> (\<forall>i. i \<noteq> fp_id f \<longrightarrow> objs s' (pack_key ?e i) = objs s (pack_key ?e i))"
    using assms(2) by auto
qed

lemma uploads_ok_done:
  assumes "uploads_ok v ob b" "bk_uploads b = f # fs"
    "ob' (pack_key (be_ext v) (fp_id f)) = Some (fp_bytes f, t)"
    "\<forall>i. i \<noteq> fp_id f \<longrightarrow> ob' (pack_key (be_ext v) i) = ob (pack_key (be_ext v) i)"
  shows "uploads_ok v ob' (b\<lparr>bk_uploads := fs\<rparr>)"
proof -
  let ?items = "set (bk_new_packs b)"
  have f: "pack_built v f" "pack_item f \<in> ?items" using assms(1,2) by (auto simp: uploads_ok_def)
  then have here: "pack_there v ob' ?items (fp_id f)" using assms(3) by (auto simp: pack_there_def)
  have "(\<exists>g \<in> set fs. pack_item g = p) \<or> pack_there v ob' ?items (ip_pack p)" if p: "p \<in> ?items" for p
  proof (cases "ip_pack p = fp_id f")
    case True
    with here show ?thesis by simp
  next
    case False
    with assms(4) have same: "pack_there v ob' ?items (ip_pack p) = pack_there v ob ?items (ip_pack p)"
      by (simp add: pack_there_def)
    from assms(1) p have "(\<exists>g \<in> set (f # fs). pack_item g = p) \<or> pack_there v ob ?items (ip_pack p)"
      by (simp add: uploads_ok_def assms(2))
    with False same show ?thesis by (auto simp: pack_item_def)
  qed
  with assms(1,2) show ?thesis by (simp add: uploads_ok_def)
qed

lemma wait_uploads_effect:
  assumes "store_ok (rp_ops (be_repo v)) objs" "hex_ok (be_ext v)" "uploads_ok v (objs s) b" "wait_uploads v n b s = (r, s')"
  shows "frame (data_rule (be_ext v)) (objs s) (objs s')
    \<and> (\<forall>b'. r = Inr b' \<longrightarrow> uploads_ok v (objs s') b' \<and> length (bk_uploads b') \<le> n
        \<and> (\<exists>fs. b' = b\<lparr>bk_uploads := fs\<rparr>))"
  using assms
proof (induction v n b arbitrary: s rule: wait_uploads.induct)
  case (1 v n b)
  show ?case
  proof (cases "length (bk_uploads b) \<le> n")
    case True
    with "1.prems"(4) have "r = Inr b" "s' = s" by (simp_all add: wait_uploads.simps io_lift_def)
    moreover have "\<exists>fs. b = b\<lparr>bk_uploads := fs\<rparr>" by (intro exI [of _ "bk_uploads b"]) simp
    ultimately show ?thesis using "1.prems"(3) True by auto
  next
    case False
    then obtain f fs where f: "bk_uploads b = f # fs" by (cases "bk_uploads b") auto
    then have built: "pack_built v f" using "1.prems"(3) by (simp add: uploads_ok_def)
    obtain q s1 where q: "upload_pack v (bk_parity b) f s = (q, s1)" by force
    note eff = upload_pack_effect [OF "1.prems"(1,2) built q]
    show ?thesis
    proof (cases q)
      case (Inl e)
      with "1.prems"(4) False f q have "r = Inl e" "s' = s1" by (simp_all add: wait_uploads.simps io_then_def)
      with eff(1) show ?thesis by simp
    next
      case (Inr u)
      with "1.prems"(4) False f q have w: "wait_uploads v n (b\<lparr>bk_uploads := fs\<rparr>) s1 = (r, s')"
        by (simp add: wait_uploads.simps [of v n b] io_then_def)
      from eff(2) Inr obtain t where "objs s1 (pack_key (be_ext v) (fp_id f)) = Some (fp_bytes f, t)"
        "\<forall>i. i \<noteq> fp_id f \<longrightarrow> objs s1 (pack_key (be_ext v) i) = objs s (pack_key (be_ext v) i)" by auto
      from uploads_ok_done [OF "1.prems"(3) f this] have "uploads_ok v (objs s1) (b\<lparr>bk_uploads := fs\<rparr>)" .
      note ih = "1.IH" [OF False, unfolded f list.sel, OF "1.prems"(1,2) this w]
      with frame_trans [OF eff(1)] show ?thesis by auto
    qed
  qed
qed

section \<open>The state between the rounds\<close>

definition refd_by :: "backup \<Rightarrow> chunk_id \<Rightarrow> object_id \<Rightarrow> bool" where
  "refd_by b c p \<longleftrightarrow> (\<exists>cs. map_of (bk_referenced b) p = Some cs \<and> c \<in> set cs)"

definition accounted :: "chunk_index \<Rightarrow> backup \<Rightarrow> chunk_id \<Rightarrow> bool" where
  "accounted x0 b c \<longleftrightarrow> held x0 (bk_marked b) (set (bk_new_packs b)) (pw_entries (bk_packer b)) (refd_by b) c"

definition pipe_ok :: "'s backup_env \<Rightarrow> chunk_index \<Rightarrow> index_pack set \<Rightarrow> backup \<Rightarrow> bool" where
  \<comment> \<open>the packer and the index; \<open>news\<close> are the packs finished so far\<close>
  "pipe_ok v x0 news b \<longleftrightarrow> writing v (bk_packer b) \<and> index_tracks x0 news (pw_entries (bk_packer b)) (bk_index b)
     \<and> PENDING_PACK \<notin> bk_marked b"

definition data_ok :: "'s backup_env \<Rightarrow> chunk_index \<Rightarrow> objects \<Rightarrow> backup \<Rightarrow> bool" where
  "data_ok v x0 ob b \<longleftrightarrow> pipe_ok v x0 (set (bk_new_packs b)) b \<and> uploads_ok v ob b"

lemma reference_chunk_refd:
  "(\<exists>cs. map_of (reference_chunk x refs) p = Some cs \<and> c \<in> set cs) \<longleftrightarrow>
     (\<exists>cs. map_of refs p = Some cs \<and> c \<in> set cs) \<or> (x = (c, p) \<and> p \<noteq> PENDING_PACK)"
  by (cases x; cases "map_of refs (snd x)") (auto simp: reference_chunk_def update_conv')

lemma record_referenced_refd:
  "refd_by (record_referenced xs b) c p \<longleftrightarrow> refd_by b c p \<or> ((c, p) \<in> set xs \<and> p \<noteq> PENDING_PACK)"
proof -
  have "(\<exists>cs. map_of (fold reference_chunk xs refs) p = Some cs \<and> c \<in> set cs) \<longleftrightarrow>
      (\<exists>cs. map_of refs p = Some cs \<and> c \<in> set cs) \<or> ((c, p) \<in> set xs \<and> p \<noteq> PENDING_PACK)" for refs
    by (induction xs arbitrary: refs) (auto simp: reference_chunk_refd)
  then show ?thesis by (simp add: refd_by_def record_referenced_def)
qed

lemma record_referenced_simps [simp]:
  "bk_packer (record_referenced xs b) = bk_packer b" "bk_index (record_referenced xs b) = bk_index b"
  "bk_new_packs (record_referenced xs b) = bk_new_packs b" "bk_uploads (record_referenced xs b) = bk_uploads b"
  "bk_marked (record_referenced xs b) = bk_marked b" "bk_report (record_referenced xs b) = bk_report b"
  by (simp_all add: record_referenced_def)

lemma back_from_round_ok:
  assumes "index_real x0" "PENDING_PACK \<notin> bk_marked b" "core_ok v x0 (bk_marked b) news (refd_by b) H w"
  shows "pipe_ok v x0 news (back_from_round w b)"
    "\<forall>c \<in> H \<union> set (cg_ids (cw_progress w)).
       held x0 (bk_marked b) news (pw_entries (cw_packer w)) (refd_by (back_from_round w b)) c"
    "bk_new_packs (back_from_round w b) = bk_new_packs b" "bk_uploads (back_from_round w b) = bk_uploads b"
    "bk_marked (back_from_round w b) = bk_marked b" "bk_report (back_from_round w b) = bk_report b"
    "bk_packer (back_from_round w b) = cw_packer w"
proof -
  let ?b = "back_from_round w b"
  show [simp]: "bk_new_packs ?b = bk_new_packs b" "bk_uploads ?b = bk_uploads b" "bk_marked ?b = bk_marked b"
    "bk_report ?b = bk_report b" "bk_packer ?b = cw_packer w" by (simp_all add: back_from_round_def)
  have "bk_index ?b = cw_index w" by (simp add: back_from_round_def)
  with assms(2,3) show "pipe_ok v x0 news ?b" by (simp add: pipe_ok_def core_ok_def)
  have r: "refd_by ?b c p \<longleftrightarrow> refd_by b c p \<or> ((c, p) \<in> set (cg_reused (cw_progress w)) \<and> p \<noteq> PENDING_PACK)" for c p
    by (simp add: back_from_round_def record_referenced_refd) (simp add: refd_by_def)
  have "held x0 (bk_marked b) news (pw_entries (cw_packer w)) (refd_by ?b) c"
    if "held x0 (bk_marked b) news (pw_entries (cw_packer w)) (refd_in (refd_by b) (cw_progress w)) c" for c
    using that assms(1) unfolding held_def r refd_in_def index_real_def by blast
  with assms(3) show "\<forall>c \<in> H \<union> set (cg_ids (cw_progress w)).
       held x0 (bk_marked b) news (pw_entries (cw_packer w)) (refd_by ?b) c" by (simp add: core_ok_def)
qed

lemma handle_finished_ok:
  assumes "store_ok (rp_ops (be_repo v)) objs" "hex_ok (be_ext v)" "uploads_ok v (objs s) b" "pack_built v f"
    "handle_finished v f b s = (r, s')"
  shows "frame (data_rule (be_ext v)) (objs s) (objs s')"
    and "r = Inr b' \<Longrightarrow> uploads_ok v (objs s') b' \<and> bk_new_packs b' = bk_new_packs b @ [pack_item f]
      \<and> bk_packer b' = bk_packer b \<and> bk_index b' = bk_index b \<and> bk_marked b' = bk_marked b
      \<and> bk_referenced b' = bk_referenced b \<and> br_errors (bk_report b') = br_errors (bk_report b)"
proof -
  obtain q s1 where q: "wait_uploads v (MAX_INFLIGHT_UPLOADS - 1) b s = (q, s1)" by force
  note eff = wait_uploads_effect [OF assms(1-3) q]
  from assms(5) q have "s' = s1" by (auto simp: handle_finished_def io_then_def io_lift_def split: sum.splits)
  with eff show "frame (data_rule (be_ext v)) (objs s) (objs s')" by simp
  assume "r = Inr b'"
  with assms(5) q obtain b1 where b1: "q = Inr b1" and b': "b' = b1\<lparr>bk_new_packs := bk_new_packs b1 @ [pack_item f],
         bk_report := (bk_report b1)\<lparr>br_packs_new := br_packs_new (bk_report b1) + 1\<rparr>,
         bk_uploads := bk_uploads b1 @ [f]\<rparr>"
    by (auto simp: handle_finished_def result_simps)
  from eff b1 obtain fs where up: "uploads_ok v (objs s1) b1" and fs: "b1 = b\<lparr>bk_uploads := fs\<rparr>" by auto
  have there: "pack_there v ob items i \<Longrightarrow> pack_there v ob (insert p items) i" for ob items i p
    by (auto simp: pack_there_def)
  have "uploads_ok v (objs s') b'" using up assms(4) there \<open>s' = s1\<close> unfolding uploads_ok_def by (auto simp: b')
  then show "uploads_ok v (objs s') b' \<and> bk_new_packs b' = bk_new_packs b @ [pack_item f]
      \<and> bk_packer b' = bk_packer b \<and> bk_index b' = bk_index b \<and> bk_marked b' = bk_marked b
      \<and> bk_referenced b' = bk_referenced b \<and> br_errors (bk_report b') = br_errors (bk_report b)"
    by (simp add: b' fs)
qed


section \<open>A whole file\<close>

definition file_done :: "'s backup_env \<Rightarrow> chunk_index \<Rightarrow> chunk_id set \<Rightarrow> bytes \<Rightarrow> bool \<Rightarrow> backup \<Rightarrow> objects \<Rightarrow>
    core_error + file_result option \<times> backup \<Rightarrow> bool" where
  "file_done v x0 H data good b ob res \<longleftrightarrow>
     (case res of
        Inl e \<Rightarrow> True
      | Inr (None, b') \<Rightarrow> \<not> good \<and> data_ok v x0 ob b' \<and> bk_marked b' = bk_marked b \<and> (\<forall>c \<in> H. accounted x0 b' c)
          \<and> br_errors (bk_report b') = br_errors (bk_report b) + 1
      | Inr (Some fr, b') \<Rightarrow> data_ok v x0 ob b' \<and> bk_marked b' = bk_marked b \<and> (\<forall>c \<in> H \<union> set (fr_chunks fr). accounted x0 b' c)
          \<and> br_errors (bk_report b') = br_errors (bk_report b)
          \<and> fr_chunks fr = map (be_id v) (cut_all (be_params v) data) \<and> fr_bytes_total fr = length data)"

lemma file_done_cong:
  assumes "bk_marked b = bk_marked c" "br_errors (bk_report b) = br_errors (bk_report c)"
  shows "file_done v x0 H data good b ob res = file_done v x0 H data good c ob res"
  unfolding file_done_def assms by (rule refl)

lemma bookkeeping_simps:
  "data_ok v x0 ob (skip b) = data_ok v x0 ob b" "data_ok v x0 ob (return_buf g b) = data_ok v x0 ob b"
  "data_ok v x0 ob (count_reads g b) = data_ok v x0 ob b"
  "accounted x0 (skip b) = accounted x0 b" "accounted x0 (return_buf g b) = accounted x0 b"
  "accounted x0 (count_reads g b) = accounted x0 b"
  "bk_marked (skip b) = bk_marked b" "bk_marked (return_buf g b) = bk_marked b" "bk_marked (count_reads g b) = bk_marked b"
  "br_errors (bk_report (skip b)) = br_errors (bk_report b) + 1"
  "br_errors (bk_report (return_buf g b)) = br_errors (bk_report b)"
  "br_errors (bk_report (count_reads g b)) = br_errors (bk_report b)"
  by (simp_all add: skip_def return_buf_def count_reads_def data_ok_def pipe_ok_def uploads_ok_def accounted_def [abs_def]
      refd_by_def [abs_def])

lemma round_accounted:
  assumes "index_real x0" "data_ok v x0 ob b" "core_ok v x0 (bk_marked b) news (refd_by b) H w"
    "news = set (bk_new_packs b1)" "uploads_ok v ob1 b1" "bk_packer b1 = cw_packer w"
    "bk_index b1 = cw_index w" "bk_marked b1 = bk_marked b" "bk_referenced b1 = bk_referenced (back_from_round w b)"
  shows "data_ok v x0 ob1 b1" "\<forall>c \<in> H \<union> set (cg_ids (cw_progress w)). accounted x0 b1 c"
proof -
  have "PENDING_PACK \<notin> bk_marked b" using assms(2) by (simp add: data_ok_def pipe_ok_def)
  note ret = back_from_round_ok [OF assms(1) this assms(3)]
  have "bk_index (back_from_round w b) = cw_index w" by (simp add: back_from_round_def)
  then show "data_ok v x0 ob1 b1" using ret(1) assms(4-8) ret(7) by (simp add: data_ok_def pipe_ok_def ret(5))
  have "refd_by b1 = refd_by (back_from_round w b)" using assms(9) by (simp add: refd_by_def [abs_def])
  with ret(2) assms(4,6,8) show "\<forall>c \<in> H \<union> set (cg_ids (cw_progress w)). accounted x0 b1 c"
    by (simp add: accounted_def)
qed

lemma chunk_rounds_ok:
  assumes "store_ok (rp_ops (be_repo v)) objs" "env_ok v" "index_real x0"
  shows "data_ok v x0 (objs s) b \<Longrightarrow> (\<forall>c \<in> H \<union> set (cg_ids g). accounted x0 b c) \<Longrightarrow> cut_so_far v data good g \<Longrightarrow>
    \<exists>res s'. chunk_rounds v g b s = Some (res, s') \<and> frame (data_rule (be_ext v)) (objs s) (objs s')
      \<and> file_done v x0 H data good b (objs s') res"
proof (induction "length (rest_of g)" arbitrary: g b s rule: less_induct)
  case less
  let ?w = "\<lparr>cw_packer = bk_packer b, cw_index = bk_index b, cw_progress = g, cw_draws = bk_draws b\<rparr>"
  let ?fr = "frame (data_rule (be_ext v))"
  have hex: "hex_ok (be_ext v)" using assms(2) by (simp add: env_ok_def)
  have pend: "PENDING_PACK \<notin> bk_marked b" and up: "uploads_ok v (objs s) b"
    using less.prems(1) by (simp_all add: data_ok_def pipe_ok_def)
  have core: "core_ok v x0 (bk_marked b) (set (bk_new_packs b)) (refd_by b) H ?w"
    using less.prems(1,2) by (auto simp: core_ok_def data_ok_def pipe_ok_def accounted_def refd_in_def intro: held_mono)
  obtain w fin stop where run: "chunk_round v (bk_marked b) ?w = Some (w, fin, stop)"
    and ok: "round_ok v (\<lambda>n. core_ok v x0 (bk_marked b) n (refd_by b) H) (set (bk_new_packs b)) data good (length (rest_of g)) w fin stop"
    using chunk_round_ok [OF assms(2) pend assms(3) core, of data good] less.prems(3) by auto
  let ?b = "back_from_round w b" and ?g = "(cw_progress w)\<lparr>cg_reused := []\<rparr>"
  have step: "chunk_rounds v g b s = (case handle_round v fin ?b s of
               (Inl e, s1) \<Rightarrow> Some (Inl e, s1)
             | (Inr b1, s1) \<Rightarrow>
                 (case stop of
                    NextRound \<Rightarrow> chunk_rounds v ?g b1 s1
                  | PackFailed e \<Rightarrow> Some (Inl e, s1)
                  | ReadFailed e \<Rightarrow> Some (Inr (None, skip (return_buf ?g b1)), s1)
                  | AllRead \<Rightarrow> Some (Inr (Some (progress_result ?g), count_reads ?g (return_buf ?g b1)), s1)))"
    by (subst chunk_rounds.simps) (simp add: run Let_def)
  have bb: "bk_new_packs ?b = bk_new_packs b" "bk_uploads ?b = bk_uploads b" "bk_packer ?b = cw_packer w" "bk_index ?b = cw_index w"
      "bk_marked ?b = bk_marked b" "bk_report ?b = bk_report b"
    by (simp_all add: back_from_round_def)
  have upb: "uploads_ok v ob ?b = uploads_ok v ob b" for ob by (simp add: uploads_ok_def bb)
  show ?case
  proof (cases stop)
    case NextRound
    with ok obtain f where f: "fin = Some f" "pack_built v f"
      and core': "core_ok v x0 (bk_marked b) (insert (pack_item f) (set (bk_new_packs b))) (refd_by b) H w"
      and cut': "cut_so_far v data good (cw_progress w)" and less': "length (rest_of (cw_progress w)) < length (rest_of g)"
      by (auto simp: round_ok_def)
    obtain q s1 where q: "handle_finished v f ?b s = (q, s1)" by force
    have "uploads_ok v (objs s) ?b" using up by (simp add: upb)
    note fin_ok = handle_finished_ok [OF assms(1) hex this f(2) q]
    show ?thesis
    proof (cases q)
      case (Inl e)
      with q fin_ok(1) show ?thesis by (simp add: step handle_round_def f(1) file_done_def)
    next
      case (Inr b1)
      note b1 = fin_ok(2) [OF Inr]
      have items: "insert (pack_item f) (set (bk_new_packs b)) = set (bk_new_packs b1)" and up1: "uploads_ok v (objs s1) b1"
        and same: "bk_packer b1 = cw_packer w" "bk_index b1 = cw_index w" "bk_marked b1 = bk_marked b"
          "bk_referenced b1 = bk_referenced ?b" using b1 by (simp_all add: bb)
      note acc = round_accounted [OF assms(3) less.prems(1) core' items up1 same]
      have "data_ok v x0 (objs s1) b1" "\<forall>c \<in> H \<union> set (cg_ids ?g). accounted x0 b1 c"
        using acc by simp_all
      moreover have "cut_so_far v data good ?g" using cut' by (simp add: cut_so_far_def)
      moreover have "length (rest_of ?g) < length (rest_of g)" using less' by simp
      ultimately obtain res s' where rec: "chunk_rounds v ?g b1 s1 = Some (res, s')" "?fr (objs s1) (objs s')"
        "file_done v x0 H data good b1 (objs s') res" using less.hyps by blast
      have "file_done v x0 H data good b (objs s') res" 
        by (rule iffD1 [OF file_done_cong rec(3)]) (use b1 in \<open>simp_all add: bb\<close>)
      with rec frame_trans [OF fin_ok(1) rec(2)] show ?thesis
        by (simp add: step handle_round_def f(1) q Inr NextRound)
    qed
  next
    case (PackFailed e)
    with ok show ?thesis by (simp add: step round_ok_def handle_round_def io_lift_def file_done_def)
  next
    case (ReadFailed e)
    with ok have fin: "fin = None" "\<not> good" and core': "core_ok v x0 (bk_marked b) (set (bk_new_packs b)) (refd_by b) H w"
      by (simp_all add: round_ok_def)
    have upr: "uploads_ok v (objs s) ?b" using up by (simp add: upb)
    have items: "set (bk_new_packs b) = set (bk_new_packs ?b)" by (simp add: bb)
    note acc = round_accounted [OF assms(3) less.prems(1) core' items upr bb(3,4,5) refl]
    from acc fin show ?thesis
      by (simp add: step handle_round_def io_lift_def ReadFailed file_done_def bookkeeping_simps bb)
  next
    case AllRead
    with ok have fin: "fin = None" and core': "core_ok v x0 (bk_marked b) (set (bk_new_packs b)) (refd_by b) H w"
      and cut: "all_cut v data (cw_progress w)" by (simp_all add: round_ok_def)
    have upr: "uploads_ok v (objs s) ?b" using up by (simp add: upb)
    have items: "set (bk_new_packs b) = set (bk_new_packs ?b)" by (simp add: bb)
    note acc = round_accounted [OF assms(3) less.prems(1) core' items upr bb(3,4,5) refl]
    from acc fin cut show ?thesis
      by (simp add: step handle_round_def io_lift_def AllRead file_done_def bookkeeping_simps bb progress_result_def all_cut_def)
  qed
qed

lemma chunk_reader_ok:
  assumes "store_ok (rp_ops (be_repo v)) objs" "env_ok v" "index_real x0" "data_ok v x0 (objs s) b" "\<forall>c \<in> H. accounted x0 b c"
  shows "\<exists>res s'. chunk_reader v reader b s = Some (res, s') \<and> frame (data_rule (be_ext v)) (objs s) (objs s')
      \<and> file_done v x0 H (content reader) (no_fail reader) b (objs s') res"
proof -
  let ?buf = "if bk_chunk_bufs b = [] then [] else last (bk_chunk_bufs b)"
  let ?cs = "chunks_with_buf (be_params v) reader ?buf" and ?b = "b\<lparr>bk_chunk_bufs := butlast (bk_chunk_bufs b)\<rparr>"
  let ?g = "start_progress ?cs"
  have P: "params_ok (be_params v)" using assms(2) by (simp add: env_ok_def)
  have shape: "stream_shape ?cs" using P by (simp add: stream_shape_def chunks_with_buf_def resize_def)
  moreover have "no_fail reader \<longrightarrow> readable ?cs" by (simp add: readable_def chunks_with_buf_def)
  moreover have rest: "view ?cs @ pending ?cs = content reader"
    by (simp add: view_def pending_def chunks_with_buf_def slice_def)
  moreover have "cs_params ?cs = be_params v" by (simp add: chunks_with_buf_def)
  ultimately have cut: "cut_so_far v (content reader) (no_fail reader) ?g"
    by (simp add: cut_so_far_def start_progress_def)
  have data: "data_ok v x0 (objs s) ?b" using assms(4) by (simp add: data_ok_def pipe_ok_def uploads_ok_def)
  have acc: "\<forall>c \<in> H \<union> set (cg_ids ?g). accounted x0 ?b c"
    using assms(5) by (simp add: accounted_def refd_by_def [abs_def] start_progress_def)
  from chunk_rounds_ok [OF assms(1-3) data acc cut] obtain res s' where
      r: "chunk_rounds v ?g ?b s = Some (res, s')" "frame (data_rule (be_ext v)) (objs s) (objs s')"
      "file_done v x0 H (content reader) (no_fail reader) ?b (objs s') res" by blast
  have "file_done v x0 H (content reader) (no_fail reader) b (objs s') res"
    by (rule iffD1 [OF file_done_cong r(3)]) simp_all
  with r show ?thesis by (simp add: chunk_reader_def Let_def)
qed

section \<open>The contents of a file are safe\<close>

text \<open>
  C18: a file of any size and through any reader is cut to its end. \<open>chunk_reader\<close> always returns; if it
  does not stop at a pack it cannot seal or upload, the ids it reports for a reader that does not
  fail are those of cutting the whole contents, in order, with their length; a read error is counted,
  nothing else is lost and no file is recorded. In both cases every chunk of this file and of the
  files before it is accounted for - in the pack being written, in a new pack that is stored or
  waiting, or in an unmarked pack the backup records as used - and the store changed only by packs
  under the hash of their content and by parity objects.
\<close>

theorem chunk_reader_complete:
  assumes "store_ok (rp_ops (be_repo v)) objs" "env_ok v" "index_real x0" "data_ok v x0 (objs s) b" "\<forall>c \<in> H. accounted x0 b c"
  shows "\<exists>res s'. chunk_reader v reader b s = Some (res, s') \<and> frame (data_rule (be_ext v)) (objs s) (objs s')
     \<and> (case res of
          Inl e \<Rightarrow> True
        | Inr (None, b') \<Rightarrow> \<not> no_fail reader \<and> data_ok v x0 (objs s') b' \<and> (\<forall>c \<in> H. accounted x0 b' c)
            \<and> br_errors (bk_report b') = br_errors (bk_report b) + 1
        | Inr (Some fr, b') \<Rightarrow> data_ok v x0 (objs s') b' \<and> (\<forall>c \<in> H \<union> set (fr_chunks fr). accounted x0 b' c)
            \<and> fr_chunks fr = map (be_id v) (cut_all (be_params v) (content reader))
            \<and> fr_bytes_total fr = length (content reader) \<and> br_errors (bk_report b') = br_errors (bk_report b))"
proof -
  obtain res s' where r: "chunk_reader v reader b s = Some (res, s')" "frame (data_rule (be_ext v)) (objs s) (objs s')"
    "file_done v x0 H (content reader) (no_fail reader) b (objs s') res"
    using chunk_reader_ok [OF assms] by blast
  show ?thesis
    by (intro exI [of _ res] exI [of _ s'] conjI r(1,2))
      (use r(3) in \<open>auto simp: file_done_def split: sum.splits option.splits\<close>)
qed

lemma flush_pack_ok:
  assumes "store_ok (rp_ops (be_repo v)) objs" "hex_ok (be_ext v)" "index_real x0" "data_ok v x0 (objs s) b"
    "flush_pack v b s = (Inr b', s')"
  shows "data_ok v x0 (objs s') b'" "pw_entries (bk_packer b') = []" "bk_marked b' = bk_marked b"
    "accounted x0 b c \<Longrightarrow> accounted x0 b' c"
proof -
  let ?es = "pw_entries (bk_packer b)"
  have wr: "writing v (bk_packer b)" and tr: "index_tracks x0 (set (bk_new_packs b)) ?es (bk_index b)"
    and up: "uploads_ok v (objs s) b" and pend: "PENDING_PACK \<notin> bk_marked b"
    using assms(4) by (simp_all add: data_ok_def pipe_ok_def)
  obtain q packer where q: "pw_finish (be_ext v) (ev_trailer (rp_env (be_repo v))) (be_rnd v (bk_draws b)) (bk_packer b) = (q, packer)"
    by force
  have "data_ok v x0 (objs s') b' \<and> pw_entries (bk_packer b') = [] \<and> bk_marked b' = bk_marked b
      \<and> (accounted x0 b c \<longrightarrow> accounted x0 b' c)"
  proof (cases q)
    case (Inl e)
    with q assms(5) show ?thesis by (simp add: flush_pack_def io_lift_def)
  next
    case (Inr o')
    show ?thesis
    proof (cases o')
      case None
      with q Inr have fin: "packer = bk_packer b" "?es = []" using pw_finish_None by blast+
      with None q Inr assms(5) have "b' = b" "s' = s" by (simp_all add: flush_pack_def io_lift_def)
      with fin assms(4) show ?thesis by simp
    next
      case (Some f)
      with q Inr have fin: "pw_finish (be_ext v) (ev_trailer (rp_env (be_repo v))) (be_rnd v (bk_draws b)) (bk_packer b) = (Inr (Some f), packer)"
        by simp
      note built = pw_finish_built [OF wr fin]
      let ?b = "b\<lparr>bk_packer := packer, bk_draws := bk_draws b + 1,
            bk_index := resolve_pending (bk_index b) (fp_id f) (length (fp_bytes f)) ?es\<rparr>"
      have hf: "handle_finished v f ?b s = (Inr b', s')" using assms(5) built(4) by (simp add: flush_pack_def fin)
      have "uploads_ok v (objs s) ?b" using up by (simp add: uploads_ok_def)
      from handle_finished_ok(2) [OF assms(1,2) this built(1) hf refl]
      have b': "uploads_ok v (objs s') b'" "bk_new_packs b' = bk_new_packs b @ [pack_item f]" "bk_packer b' = packer"
        "bk_index b' = bk_index ?b" "bk_marked b' = bk_marked b" "bk_referenced b' = bk_referenced b" by simp_all
      have item: "ip_entries (pack_item f) = ?es" "ip_pack (pack_item f) = fp_id f" by (simp_all add: pack_item_def built(4))
      have "refd_by b' = refd_by b" by (simp add: refd_by_def [abs_def] b'(6))
      then have "accounted x0 b' c" if "accounted x0 b c"
        using held_sealed [OF that [unfolded accounted_def] item(1)] by (simp add: accounted_def b' built(3))
      with built(2,3) tracks_resolve [OF tr assms(3) item] pend b'(1) show ?thesis
        by (simp add: data_ok_def pipe_ok_def b')
    qed
  qed
  then show "data_ok v x0 (objs s') b'" "pw_entries (bk_packer b') = []" "bk_marked b' = bk_marked b"
    "accounted x0 b c \<Longrightarrow> accounted x0 b' c" by blast+
qed

definition chunk_stored :: "'s backup_env \<Rightarrow> objects \<Rightarrow> index_pack set \<Rightarrow> chunk_id \<Rightarrow> bool" where
  \<comment> \<open>an entry of a listed pack leads, through the stored object of its name, to the chunk\<close>
  "chunk_stored v ob items c \<longleftrightarrow> (\<exists>p \<in> items. \<exists>e \<in> set (ip_entries p). \<exists>bs t m.
     ob (pack_key (be_ext v) (ip_pack p)) = Some (bs, t) \<and> object_id_of (be_ext v) bs = ip_pack p \<and> pe_id e = c
     \<and> decode_chunk (be_ext v) (be_keys v) c (slice (pe_offset e) (pe_offset e + pe_length e) bs) (pe_raw_len e) (be_max v) = Inr m
     \<and> be_id v m = c)"

lemma uploaded_stored:
  assumes "uploads_ok v ob b" "bk_uploads b = []" "distinct (map ip_pack (bk_new_packs b))"
    "p \<in> set (bk_new_packs b)" "c \<in> entry_ids (ip_entries p)"
  shows "chunk_stored v ob (set (bk_new_packs b)) c"
proof -
  from assms(1,2,4) obtain g t where g: "ob (pack_key (be_ext v) (ip_pack p)) = Some (fp_bytes g, t)" "fp_id g = ip_pack p"
      "pack_item g \<in> set (bk_new_packs b)" "pack_built v g" by (auto simp: uploads_ok_def pack_there_def)
  have "ip_pack (pack_item g) = ip_pack p" by (simp add: pack_item_def g(2))
  with assms(3,4) g(3) have "pack_item g = p" unfolding distinct_map by (blast dest: inj_onD)
  then have es: "fp_entries g = ip_entries p" by (auto simp: pack_item_def)
  from assms(5) obtain e where e: "e \<in> set (ip_entries p)" "pe_id e = c" by blast
  from g(4) obtain ms where "list_all2 (holds_chunk (be_ext v) (be_keys v) (be_max v) (fp_bytes g)) (ip_entries p) ms"
    by (auto simp: pack_built_def es)
  with e(1) obtain m where "holds_chunk (be_ext v) (be_keys v) (be_max v) (fp_bytes g) e m"
    by (metis in_set_conv_nth list_all2_conv_all_nth)
  with e(2) have m: "decode_chunk (be_ext v) (be_keys v) c (slice (pe_offset e) (pe_offset e + pe_length e) (fp_bytes g)) (pe_raw_len e) (be_max v) = Inr m"
    "be_id v m = c" unfolding holds_chunk_def e(2) by (blast, blast)
  have "object_id_of (be_ext v) (fp_bytes g) = ip_pack p" using g(2,4) by (simp add: pack_built_def)
  with m g(1) e show ?thesis unfolding chunk_stored_def
    by (intro bexI [OF _ assms(4)] bexI [OF _ e(1)] exI [of _ "fp_bytes g"] exI [of _ t] exI [of _ m] conjI)
qed

text \<open>
  C17: what a backup has read is in the repository before its snapshot is: once the last pack is flushed
  and the uploads have been waited for, every chunk of the file either can be decoded, with its own
  identifier, at an entry of a new pack whose object is stored under the hash of its content - the packs
  the new index blob will list - or lies in an unmarked pack of the index the backup started
  with and is recorded among the references the commit checks. Only the pack names are assumed to differ.
\<close>

theorem file_contents_stored:
  assumes "store_ok (rp_ops (be_repo v)) objs" "env_ok v" "index_real x0" "data_ok v x0 (objs s) b"
    "chunk_reader v reader b s = Some (Inr (Some fr, b1), s1)" "flush_pack v b1 s1 = (Inr b2, s2)"
    "wait_uploads v 0 b2 s2 = (Inr b3, s3)" "distinct (map ip_pack (bk_new_packs b3))" "c \<in> set (fr_chunks fr)"
  shows "chunk_stored v (objs s3) (set (bk_new_packs b3)) c
     \<or> (\<exists>l cs. index_get x0 c = Some l \<and> lo_pack l \<notin> bk_marked b \<and> (lo_pack l, cs) \<in> set (bk_referenced b3) \<and> c \<in> set cs)"
proof -
  have hex: "hex_ok (be_ext v)" using assms(2) by (simp add: env_ok_def)
  obtain res s' where r: "chunk_reader v reader b s = Some (res, s')"
    "file_done v x0 {} (content reader) (no_fail reader) b (objs s') res"
    using chunk_reader_ok [OF assms(1-4), of "{}" reader] by auto
  with assms(5) have d1: "data_ok v x0 (objs s1) b1" and m1: "bk_marked b1 = bk_marked b" and a1: "accounted x0 b1 c"
    using assms(9) by (auto simp: file_done_def)
  note flush = flush_pack_ok [OF assms(1) hex assms(3) d1 assms(6)]
  have a2: "accounted x0 b2 c" by (rule flush(4) [OF a1])
  have "uploads_ok v (objs s2) b2" using flush(1) by (simp add: data_ok_def)
  from wait_uploads_effect [OF assms(1) hex this assms(7)] obtain fs where
      up: "uploads_ok v (objs s3) b3" "bk_uploads b3 = []" and b3: "b3 = b2\<lparr>bk_uploads := fs\<rparr>" by auto
  from a2 flush(2,3) m1 consider p where "p \<in> set (bk_new_packs b3)" "c \<in> entry_ids (ip_entries p)"
    | l where "index_get x0 c = Some l" "lo_pack l \<notin> bk_marked b" "refd_by b2 c (lo_pack l)"
    by (auto simp: accounted_def held_def b3)
  then show ?thesis
  proof cases
    case 1
    with uploaded_stored [OF up assms(8)] show ?thesis by blast
  next
    case 2
    then show ?thesis by (auto simp: refd_by_def b3 dest: map_of_SomeD)
  qed
qed

section \<open>A file of two bytes, for witnesses\<close>

definition demo_entry :: pack_entry where
  "demo_entry = \<lparr>pe_id = ChunkId (pad32 [1, 2]), pe_offset = 8, pe_length = 43, pe_raw_len = 2\<rparr>"

definition demo_data_repo :: "map_state repository" where
  "demo_data_repo = (demo_repo 0 [] [] [])\<lparr>rp_env := (demo_env [] [] [] [] [])\<lparr>ev_trailer := demo_codec [new_trailer [demo_entry]]\<rparr>,
     rp_config := (rp_config (demo_repo 0 [] [] []))\<lparr>rc_chunker := \<lparr>cp_min = 2, cp_avg = 3, cp_max = 4\<rparr>\<rparr>\<rparr>"

definition demo_data_env :: "rs_coder \<Rightarrow> map_state backup_env" where
  "demo_data_env rs = \<lparr>be_repo = demo_data_repo, be_rnd = (\<lambda>n. demo_nonce), be_rs = rs, be_parity_codec = demo_codec []\<rparr>"

lemma demo_data_simps [simp]:
  "be_ext (demo_data_env rs) = demo_ext" "rp_ops (be_repo (demo_data_env rs)) = map_store"
  "be_keys (demo_data_env rs) = keys_from_master demo_ext (replicate 32 1)"
  "be_params (demo_data_env rs) = \<lparr>cp_min = 2, cp_avg = 3, cp_max = 4\<rparr>" "be_rnd (demo_data_env rs) n = demo_nonce"
  "ev_trailer (rp_env (be_repo (demo_data_env rs))) = demo_codec [new_trailer [demo_entry]]"
  by (simp_all add: demo_data_env_def demo_data_repo_def demo_env_def)

lemma demo_env_ok: "env_ok (demo_data_env rs)"
  by (simp add: env_ok_def demo_aead_ok demo_zstd_ok demo_hex_ok demo_nonce_ok params_ok_def MAX_CHUNKER_MAX_def)

lemma new_index_real: "index_real new_index"
  by (simp add: index_real_def new_index_def index_get_def base_get_def)

lemma demo_start_ok: "data_ok (demo_data_env rs) new_index ob demo_backup"
proof -
  have "writing (demo_data_env rs) (bk_packer demo_backup)" unfolding writing_def
    by (intro conjI exI [of _ "[]"]) (simp add: demo_backup_def new_pack_writer_def, simp add: demo_backup_def new_writer_inv)
  moreover have "bk_index demo_backup = new_index" "bk_new_packs demo_backup = []" "bk_uploads demo_backup = []" "bk_marked demo_backup = {}"
    by (simp_all add: demo_backup_def)
  ultimately show ?thesis by (simp add: data_ok_def pipe_ok_def uploads_ok_def index_tracks_def)
qed

theorem chunk_reader_complete_witness:
  "\<exists>rs res s'. chunk_reader (demo_data_env rs) [Data [1, 2], Interrupted, Failed ''gone''] demo_backup ([], 0) = Some (res, s')
     \<and> frame (data_rule demo_ext) (map_objs ([], 0)) (map_objs s')"
proof -
  fix rs :: rs_coder
  obtain res s' where "chunk_reader (demo_data_env rs) [Data [1, 2], Interrupted, Failed ''gone''] demo_backup ([], 0) = Some (res, s')"
    "frame (data_rule demo_ext) (map_objs ([], 0)) (map_objs s')"
    using chunk_reader_complete [where objs = map_objs and H = "{}", OF _ demo_env_ok new_index_real demo_start_ok,
        of rs "[Data [1, 2], Interrupted, Failed ''gone'']" "([], 0)"]
    by (auto simp: map_store_ok)
  then show ?thesis by blast
qed

lemma demo_add:
  "pw_add demo_ext demo_nonce (bk_packer demo_backup) (ChunkId (pad32 [1, 2])) [1, 2] =
     Inr (demo_entry, (bk_packer demo_backup)\<lparr>pw_buf := empty_buf @ replicate 24 0 @ [0, 1, 2] @ demo_tag (rk_chunk (keys_from_master demo_ext (replicate 32 1))) (pad32 [1, 2]),
       pw_entries := [demo_entry]\<rparr>)"
  by (simp add: pw_add_def compress_chunk_def seal_chunk_def seal_def random_bytes_def demo_backup_def new_pack_writer_def
      empty_buf_def demo_entry_def demo_ext_def Let_def algorithm_byte_def)

lemma demo_reader:
  "\<exists>fr b1. chunk_reader (demo_data_env rs) [Data [1, 2]] demo_backup s = Some (Inr (Some fr, b1), s)
     \<and> fr_chunks fr = [ChunkId (pad32 [1, 2])] \<and> bk_uploads b1 = [] \<and> bk_new_packs b1 = [] \<and> bk_parity b1 = 0
     \<and> pw_entries (bk_packer b1) = [demo_entry] \<and> pw_keys (bk_packer b1) = keys_from_master demo_ext (replicate 32 1)"
proof -
  let ?v = "demo_data_env rs" and ?P = "\<lparr>cp_min = 2, cp_avg = 3, cp_max = 4\<rparr>"
  let ?cs = "chunks_with_buf ?P [Data [1, 2]] []"
  have inv: "stream_inv ?cs" by (rule start_inv) (simp_all add: params_ok_def)
  have rest: "view ?cs @ pending ?cs = [1, 2]" "cs_params ?cs = ?P"
    by (simp_all add: view_def pending_def chunks_with_buf_def slice_def)
  have len: "next_len ?P [1, 2] = 2" by (subst next_len_short) simp_all
  obtain st where st: "next_chunk ?cs = (st, Inr (Some [1, 2]))" "stream_inv st" "view st @ pending st = []"
    using next_chunk_correct(2) [OF inv, unfolded rest len] by auto
  obtain st' where st': "next_chunk st = (st', Inr None)" using next_chunk_correct(1) [OF st(2,3)] by blast
  have id: "chunk_id_of demo_ext (keys_from_master demo_ext (replicate 32 1)) [1, 2] = ChunkId (pad32 [1, 2])" by (simp add: chunk_id_of_def)
  have none: "index_get (bk_index demo_backup) c = None" for c
    by (simp add: demo_backup_def new_index_def index_get_def base_get_def)
  let ?w = "\<lambda>g. \<lparr>cw_packer = bk_packer demo_backup, cw_index = bk_index demo_backup, cw_progress = g, cw_draws = 0\<rparr>"
  have place: "\<exists>w1. place_chunk ?v {} [1, 2] (?w g) = (w1, Inr True) \<and> pw_entries (cw_packer w1) = [demo_entry]
      \<and> pw_keys (cw_packer w1) = keys_from_master demo_ext (replicate 32 1) \<and> \<not> pw_is_full (cw_packer w1)
      \<and> cg_chunks (cw_progress w1) = cg_chunks g \<and> cg_ids (cw_progress w1) = cg_ids g @ [ChunkId (pad32 [1, 2])]" for g
    by (simp add: place_chunk_def Let_def id none demo_add new_chunk_def count_chunk_def)
      (simp add: demo_backup_def new_pack_writer_def pw_is_full_def empty_buf_def)
  let ?g = "start_progress ?cs"
  obtain w1 where w1: "place_chunk ?v {} [1, 2] (?w (?g\<lparr>cg_chunks := st\<rparr>)) = (w1, Inr True)" "pw_entries (cw_packer w1) = [demo_entry]"
    "pw_keys (cw_packer w1) = keys_from_master demo_ext (replicate 32 1)" "\<not> pw_is_full (cw_packer w1)"
    "cg_chunks (cw_progress w1) = st" "cg_ids (cw_progress w1) = [ChunkId (pad32 [1, 2])]"
    using place [of "?g\<lparr>cg_chunks := st\<rparr>"] by (auto simp: start_progress_def)
  have "chunk_round ?v {} w1 = Some (w1\<lparr>cw_progress := (cw_progress w1)\<lparr>cg_chunks := st'\<rparr>\<rparr>, None, AllRead)"
    by (subst chunk_round.simps) (simp add: w1(5) st' Let_def)
  then have "chunk_round ?v {} (?w ?g) = Some (w1\<lparr>cw_progress := (cw_progress w1)\<lparr>cg_chunks := st'\<rparr>\<rparr>, None, AllRead)"
    using w1(1,4) st(1) by (subst chunk_round.simps) (simp add: start_progress_def Let_def)
  moreover have "bk_marked demo_backup = {}" "bk_draws demo_backup = 0" "bk_chunk_bufs demo_backup = []"
    "bk_uploads demo_backup = []" "bk_new_packs demo_backup = []" "bk_parity demo_backup = 0"
    by (simp_all add: demo_backup_def)
  ultimately show ?thesis using w1(2,3,6)
    by (simp add: chunk_reader_def Let_def chunk_rounds.simps handle_round_def io_lift_def progress_result_def
        count_reads_def return_buf_def back_from_round_def record_referenced_def)
qed

lemma demo_flush:
  assumes "pw_entries (bk_packer b) = [demo_entry]" "pw_keys (bk_packer b) = keys_from_master demo_ext (replicate 32 1)"
    "bk_uploads b = []" "bk_new_packs b = []" "bk_parity b = 0"
  shows "\<exists>b2 b3 s3. flush_pack (demo_data_env rs) b s = (Inr b2, s) \<and> wait_uploads (demo_data_env rs) 0 b2 s = (Inr b3, s3)
     \<and> distinct (map ip_pack (bk_new_packs b3))"
proof -
  let ?v = "demo_data_env rs"
  have enc: "aead_encrypt demo_ext k n a m = Some (m @ demo_tag k a)" for k n a m by (simp add: demo_ext_def)
  obtain f packer where fin: "pw_finish demo_ext (demo_codec [new_trailer [demo_entry]]) demo_nonce (bk_packer b) = (Inr (Some f), packer)"
    using assms(1,2) by (simp add: pw_finish_def seal_pack_trailer_def seal_def random_bytes_def enc Let_def)
  have flush: "\<exists>b2. flush_pack ?v b s = (Inr b2, s) \<and> bk_uploads b2 = [f] \<and> bk_new_packs b2 = [pack_item f] \<and> bk_parity b2 = 0"
    using assms(3-5) by (simp add: flush_pack_def fin handle_finished_def wait_uploads.simps io_then_def io_lift_def)
  have put: "\<exists>s3. upload_pack ?v 0 f s = (Inr (), s3)"
    by (simp add: upload_pack_def store_pack_def io_then_def io_lift_def io_err_def backend_put_def backend_path_def
        map_store_def map_put_def demo_data_env_def demo_data_repo_def demo_env_def)
  from flush obtain b2 where b2: "flush_pack ?v b s = (Inr b2, s)" "bk_uploads b2 = [f]" "bk_new_packs b2 = [pack_item f]" "bk_parity b2 = 0"
    by blast
  from put obtain s3 where "upload_pack ?v 0 f s = (Inr (), s3)" by blast
  then have "wait_uploads ?v 0 b2 s = (Inr (b2\<lparr>bk_uploads := []\<rparr>), s3)"
    using b2(2,4) by (simp add: wait_uploads.simps io_then_def io_lift_def)
  with b2(1,3) show ?thesis by auto
qed

theorem file_contents_stored_witness:
  "\<exists>rs (b3 :: backup) s3. chunk_stored (demo_data_env rs) (map_objs s3) (set (bk_new_packs b3)) (ChunkId (pad32 [1, 2]))"
proof -
  fix rs :: rs_coder
  let ?v = "demo_data_env rs"
  obtain fr b1 where r: "chunk_reader ?v [Data [1, 2]] demo_backup ([], 0) = Some (Inr (Some fr, b1), ([], 0))"
    and b1: "fr_chunks fr = [ChunkId (pad32 [1, 2])]" "bk_uploads b1 = []" "bk_new_packs b1 = []" "bk_parity b1 = 0"
      "pw_entries (bk_packer b1) = [demo_entry]" "pw_keys (bk_packer b1) = keys_from_master demo_ext (replicate 32 1)"
    using demo_reader by blast
  obtain b2 b3 s3 where f: "flush_pack ?v b1 ([], 0) = (Inr b2, ([], 0))" "wait_uploads ?v 0 b2 ([], 0) = (Inr b3, s3)"
    "distinct (map ip_pack (bk_new_packs b3))" using demo_flush [OF b1(5,6,2,3,4)] by blast
  have "index_get new_index c = None" for c by (simp add: new_index_def index_get_def base_get_def)
  with file_contents_stored [where objs = map_objs, OF _ demo_env_ok new_index_real demo_start_ok r f, of "ChunkId (pad32 [1, 2])"]
  have "chunk_stored ?v (map_objs s3) (set (bk_new_packs b3)) (ChunkId (pad32 [1, 2]))" by (auto simp: map_store_ok b1(1))
  then show ?thesis by blast
qed

end
