(* ===== verification/Spec2Isabelle.thy ===== *)
theory Spec2Isabelle
  imports Cbor Tree_Format Pack_Parity Chunker Crypto Pack_Store Chunk_Index Repo_Laws Forget Prune_Exec Rebuild Check Path_Filter Backup_Safety
begin

text \<open>
  kist is a deduplicating, encrypting backup tool. A backup cuts files into chunks, compresses and
  seals them into packs, records directories as trees and a snapshot per run, and keeps an index
  from chunks to packs; all of it lives in an object store that only knows put, get, head, list
  and delete. This library models the parts of the program that decide whether the data can be
  read back: the formats, the chunker, the cryptographic envelope, the index, the repository
  operations and the maintenance commands.

  \<^bold>\<open>Theories.\<close>
  \<^item> \<open>Prelude\<close>: results, fixed-width arithmetic, slices, bisection and deduplication of sorted lists.
  \<^item> \<open>Externals\<close>: the functions of third-party crates (BLAKE3, XChaCha20-Poly1305, Argon2, zstd, hex,
    ciborium) as a record of parameters, with the documented laws the program relies on.
  \<^item> \<open>Ids_Keys\<close> (\<open>kist-format/src/{lib,ids,keys}.rs\<close>): errors, identifiers, object names.
  \<^item> \<open>Cbor\<close>, \<open>Config_Format\<close>, \<open>Tree_Format\<close>, \<open>Pack_Format\<close>, \<open>Pack_Parity\<close> (\<open>kist-format/src\<close>): the
    structural gate in front of the decoder, the structures with their validity checks, the pack
    layout and the erasure code.
  \<^item> \<open>Chunker\<close> (\<open>kist-chunker/src/lib.rs\<close>): the gear hash and the streaming iterator.
  \<^item> \<open>Crypto\<close> (\<open>kist-crypto/src/lib.rs\<close>): sealing, key derivation, key slots.
  \<^item> \<open>Core_Errors\<close>, \<open>Pack_Store\<close>, \<open>Chunk_Index\<close> (\<open>kist-core/src/{lib,pack,index}.rs\<close>): the pack
    writer and reader, the in-memory index and its on-disk table.
  \<^item> \<open>Backend\<close> (\<open>kist-backend/src/lib.rs\<close>): the store operations and the contract of the store.
  \<^item> \<open>Repo_Objects\<close>, \<open>Repo_Laws\<close> (\<open>kist-core/src/repo.rs\<close>): creating and opening a repository, reading
    and writing index blobs, trees and snapshots.
  \<^item> \<open>Snapshot_List\<close>, \<open>Retention\<close>, \<open>Forget\<close> (\<open>kist-core/src/{snapshots,forget}.rs\<close>): naming snapshots,
    the retention policy, deleting snapshots.
  \<^item> \<open>Chunk_Read\<close> (\<open>kist-core/src/restore.rs\<close>, the reading of chunks) and \<open>Reach\<close>
    (\<open>kist-core/src/reach.rs\<close>): fetching a chunk through an index, the walk over all references.
  \<^item> \<open>Prune_Index\<close>, \<open>Prune_Plan\<close> (\<open>kist-core/src/prune.rs\<close>): the garbage collector's table, the
    choice of canonical packs, and everything it decides. \<open>Store_Frame\<close> says what a sequence of writes
    and deletions leaves alone; \<open>Prune_Exec\<close> is the execution of the plan: marking, replacing the
    index, deleting in groups.
  \<^item> \<open>Rebuild\<close>, \<open>Check\<close> (\<open>kist-core/src/{rebuild,check}.rs\<close>): the index from the trailers of the packs;
    the verification of a repository and the repair of packs and replicas.
  \<^item> \<open>Path_Filter\<close> (\<open>kist-core/src/filter.rs\<close>): parsing of exclusion patterns, the matcher of one path
    component, the automaton that walks down a path.
  \<^item> \<open>Backup_Options\<close>, \<open>Commit\<close>, \<open>Tree_Write\<close>, \<open>Backup_Data\<close>, \<open>Backup_Safety\<close> (\<open>kist-core/src/backup.rs\<close>): the exclusion rules;
    the checks before a snapshot is written and their composition with a prune that was planned
    earlier; storing directories; cutting, deduplicating and packing the contents of files, and the
    proof that every chunk read ends up in a stored pack or in one the commit checks.

  \<^bold>\<open>State and effects.\<close> The store is a state of its own type; \<open>objs\<close> reads it as a map from keys to
  contents and modification times. An operation that writes is a function from a state to a result
  and a state (\<open>io\<close>); a failed write may or may not have been applied, so a crash at any write is
  one of the runs the theorems cover. Errors are values of \<open>core_error\<close>, \<open>format_error\<close> and so on,
  with the fixed part of their messages. A panic is \<open>None\<close>.

  \<^bold>\<open>What the lemmas show.\<close> Per format: parsing inverts writing and accepts exactly the specified
  values. Chunker: chunks partition the input, do not depend on how reads are split, and keep their
  bounds. Packs and parity: what is written reads back, damage within the redundancy is repaired,
  wrong bytes are never returned. Index: merges do not depend on order; the table answers like its
  list. Repository: what is written reads back under its key, one intact copy of a tree suffices,
  a snapshot appears only after its replica. Maintenance: the walk finds everything and ends; the
  policy implements its rules; forgetting and pruning remove only what nothing needs.

  \<^bold>\<open>Bounds and fuel.\<close> Loops that follow references on disk are \<open>partial_function (option)\<close> or
  \<open>while_option\<close>, and their termination on every finite store is a theorem (\<open>read_tree_chain_total\<close>,
  \<open>walk_references_total\<close>). The chunk iterator is drained with fuel; one unit per chunk suffices.

  \<^bold>\<open>Not modelled.\<close> Async scheduling, thread pools and locks; terminal output and argument parsing;
  the network back ends (\<open>kist-backend\<close>'s SFTP, rclone and object-store set-up), which are parameters
  behind \<open>store_ops\<close>; the operating system's file metadata, directory handles, FUSE and the daemon's
  sockets. Of \<open>backup.rs\<close> the walk over the sources (\<open>backup_prepare\<close>, \<open>process_entry\<close>, \<open>walk_dir\<close>,
  \<open>process_file\<close>, \<open>try_reuse\<close>) is left out, of \<open>restore.rs\<close> the selection and the writing of files: the
  operations they call on the repository are modelled, the order in which a walk calls them is not.
  \<open>PROJECT.json\<close> lists every component with its status.
\<close>

end
